(* ===== verification/Identity.thy ===== *)
theory Identity
  imports Prelude
begin

text \<open>
  src/identity.rs: the session identifier, sixteen bytes written as exactly 32 lowercase
  hexadecimal digits.  \<open>text_codec\<close> is the interface the registry relies on when it turns
  identifiers into file names and back; the identifier of the model provides it.
\<close>

section \<open>Interface: a type with a canonical text form\<close>

locale text_codec =
  fixes parse :: "byte list \<Rightarrow> 'e + 'v"
    and print :: "'v \<Rightarrow> byte list"
    and valid :: "'v \<Rightarrow> bool"
  assumes parse_print: "valid v \<Longrightarrow> parse (print v) = Inr v"
    and parse_Inr: "parse t = Inr v \<Longrightarrow> valid v \<and> print v = t"
begin

lemma print_inject: "valid v \<Longrightarrow> valid w \<Longrightarrow> print v = print w \<longleftrightarrow> v = w"
  by (metis parse_print sum.inject(2))

lemma parse_inject: "parse t = Inr v \<Longrightarrow> parse u = Inr v \<Longrightarrow> t = u"
  using parse_Inr by blast

lemma parse_Inr_iff: "parse t = Inr v \<longleftrightarrow> valid v \<and> t = print v"
  using parse_print parse_Inr by blast

end

section \<open>Session identifiers\<close>

datatype session_id = SessionId "byte list"

datatype invalid_session_id = InvalidSessionId

fun session_bytes :: "session_id \<Rightarrow> byte list" where
  "session_bytes (SessionId xs) = xs"

text \<open>The type \<open>[u8; 16]\<close> fixes the length.\<close>

definition session_wf :: "session_id \<Rightarrow> bool" where
  "session_wf s \<longleftrightarrow> length (session_bytes s) = 16"

definition decode_nibble :: "byte \<Rightarrow> byte option" where
  "decode_nibble b =
     (if 48 \<le> b \<and> b \<le> 57 then Some (b - 48)
      else if 97 \<le> b \<and> b \<le> 102 then Some (b - 97 + 10)
      else None)"

text \<open>The loop over \<open>chunks_exact(2)\<close>; a last odd byte is left out.\<close>

fun decode_pairs :: "byte list \<Rightarrow> invalid_session_id + byte list" where
  "decode_pairs (h # l # rest) =
     (case decode_nibble h of
        None \<Rightarrow> Inl InvalidSessionId
      | Some high \<Rightarrow>
          (case decode_nibble l of
             None \<Rightarrow> Inl InvalidSessionId
           | Some low \<Rightarrow>
               (case decode_pairs rest of
                  Inl e \<Rightarrow> Inl e
                | Inr bytes \<Rightarrow> Inr ((push_bit 4 high OR low) # bytes))))"
| "decode_pairs _ = Inr []"

definition parse_bytes :: "byte list \<Rightarrow> invalid_session_id + session_id" where
  "parse_bytes encoded =
     (if length encoded \<noteq> 32 then Inl InvalidSessionId
      else case decode_pairs encoded of
        Inl e \<Rightarrow> Inl e
      | Inr bytes \<Rightarrow> Inr (SessionId bytes))"

definition HEX :: "byte list" where
  "HEX = bs ''0123456789abcdef''"

fun encode_pairs :: "byte list \<Rightarrow> byte list" where
  "encode_pairs [] = []"
| "encode_pairs (b # rest) =
     HEX ! unat (drop_bit 4 b) # HEX ! unat (b AND 15) # encode_pairs rest"

text \<open>\<open>Display\<close>, \<open>Debug\<close> and \<open>FromStr\<close>\<close>

definition session_to_string :: "session_id \<Rightarrow> byte list" where
  "session_to_string s = encode_pairs (session_bytes s)"

definition session_debug :: "session_id \<Rightarrow> byte list" where
  "session_debug s = bs ''SessionId('' @ [34] @ session_to_string s @ [34] @ bs '')''"

definition session_from_str :: "byte list \<Rightarrow> invalid_session_id + session_id" where
  "session_from_str value = parse_bytes value"

definition lower_hex :: "byte \<Rightarrow> bool" where
  "lower_hex b \<longleftrightarrow> (48 \<le> b \<and> b \<le> 57) \<or> (97 \<le> b \<and> b \<le> 102)"

section \<open>Nibbles\<close>

lemma decode_nibble_None: "decode_nibble b = None \<longleftrightarrow> \<not> lower_hex b"
  by (simp add: decode_nibble_def lower_hex_def)

text \<open>The sixteen digits, decided one by one.\<close>

lemma less_16_cases:
  fixes n :: byte
  assumes "n < 16"
  shows "n \<in> set [0, 1, 2, 3, 4, 5, 6, 7, 8, 9, 10, 11, 12, 13, 14, 15]"
proof -
  have "unat n < 16"
    using assms by (simp add: word_less_nat_alt)
  then have "unat n \<in> set [0..<16]" by simp
  then have "unat n \<in> {0, 1, 2, 3, 4, 5, 6, 7, 8, 9, 10, 11, 12, 13, 14, 15}"
    by (simp add: upt_rec numeral_eq_Suc)
  then have "word_of_nat (unat n) \<in>
      (word_of_nat ` {0, 1, 2, 3, 4, 5, 6, 7, 8, 9, 10, 11, 12, 13, 14, 15} :: byte set)"
    by blast
  then show ?thesis by simp
qed

lemma decode_nibble_HEX: "n < 16 \<Longrightarrow> decode_nibble (HEX ! unat n) = Some n"
  using less_16_cases [of n] by (auto simp: HEX_def bs_def decode_nibble_def)

lemma lower_hex_cases:
  assumes "lower_hex b"
  shows "\<exists>n :: byte. n < 16 \<and> b = HEX ! unat n"
proof -
  have "unat b \<in> {48..57} \<union> {97..102}"
    using assms by (auto simp: lower_hex_def word_le_nat_alt)
  then have "unat b \<in> {48, 49, 50, 51, 52, 53, 54, 55, 56, 57, 97, 98, 99, 100, 101, 102}"
    unfolding Un_iff atLeastAtMost_iff insert_iff empty_iff by presburger
  then have "b \<in> word_of_nat ` {48, 49, 50, 51, 52, 53, 54, 55, 56, 57, 97, 98, 99, 100, 101, 102}"
    by (metis imageI of_nat_unat ucast_id)
  then have "b \<in> set HEX"
    by (auto simp: HEX_def bs_def)
  moreover have "length HEX = 16" by (simp add: HEX_def bs_def)
  ultimately obtain i where i: "i < 16" "b = HEX ! i"
    by (auto simp: in_set_conv_nth)
  then have "unat (word_of_nat i :: byte) = i"
    by (simp add: unat_of_nat)
  with i show ?thesis
    by (intro exI [of _ "word_of_nat i :: byte"]) (simp add: word_less_nat_alt)
qed


lemma nibble_parts:
  fixes b :: byte
  shows "drop_bit 4 b < 16" and "b AND 15 < 16"
    and "push_bit 4 (drop_bit 4 b) OR (b AND 15) = b"
proof -
  have "unat b < 2 ^ LENGTH(8)" by (rule unsigned_less)
  then have "unat (drop_bit 4 b) < 16"
    by (simp add: drop_bit_eq_div unat_div)
  then show "drop_bit 4 b < 16" by (simp add: word_less_nat_alt)
  have mask: "b AND 15 = take_bit 4 b"
    by (simp add: take_bit_eq_mask mask_eq_exp_minus_1)
  then have "unat (b AND 15) < 16"
    by (simp add: take_bit_eq_mod unat_mod)
  then show "b AND 15 < 16" by (simp add: word_less_nat_alt)
  show "push_bit 4 (drop_bit 4 b) OR (b AND 15) = b"
    unfolding mask by (rule bit_word_eqI) (auto simp: bit_simps)
qed

lemma nibble_join:
  fixes h l :: byte
  assumes "h < 16" and "l < 16"
  shows "drop_bit 4 (push_bit 4 h OR l) = h" and "(push_bit 4 h OR l) AND 15 = l"
  using less_16_cases [OF assms(1)] less_16_cases [OF assms(2)]
  by (auto simp: push_bit_eq_mult drop_bit_eq_div)

section \<open>The codec\<close>

lemma length_encode_pairs [simp]: "length (encode_pairs xs) = 2 * length xs"
  by (induction xs) auto

lemma decode_encode_pairs: "decode_pairs (encode_pairs xs) = Inr xs"
  by (induction xs) (simp_all add: decode_nibble_HEX nibble_parts)

lemma decode_nibble_Some: "decode_nibble b = Some n \<Longrightarrow> n < 16 \<and> b = HEX ! unat n"
  using lower_hex_cases [of b] decode_nibble_HEX decode_nibble_None [of b] by fastforce

lemma encode_decode_pairs:
  "decode_pairs t = Inr xs \<Longrightarrow> even (length t) \<Longrightarrow> encode_pairs xs = t \<and> 2 * length xs = length t"
proof (induction t arbitrary: xs rule: decode_pairs.induct)
  case (1 h l rest)
  then obtain high low ys where parts: "decode_nibble h = Some high" "decode_nibble l = Some low"
      "decode_pairs rest = Inr ys" "xs = (push_bit 4 high OR low) # ys"
    by (auto split: option.splits sum.splits)
  moreover have "encode_pairs ys = rest \<and> 2 * length ys = length rest"
    using 1 parts by simp
  ultimately show ?case
    using decode_nibble_Some [of h high] decode_nibble_Some [of l low] nibble_join [of high low]
    by simp
qed auto

interpretation sid: text_codec parse_bytes session_to_string session_wf
proof
  fix v
  assume "session_wf v"
  then show "parse_bytes (session_to_string v) = Inr v"
    by (cases v) (simp add: parse_bytes_def session_to_string_def session_wf_def decode_encode_pairs)
next
  fix t v
  assume "parse_bytes t = Inr v"
  then obtain xs where "length t = 32" "decode_pairs t = Inr xs" "v = SessionId xs"
    by (auto simp: parse_bytes_def split: if_splits sum.splits)
  then show "session_wf v \<and> session_to_string v = t"
    using encode_decode_pairs [of t xs] by (simp add: session_wf_def session_to_string_def)
qed

lemma decode_pairs_Inr_iff:
  "even (length t) \<Longrightarrow> (\<exists>xs. decode_pairs t = Inr xs) \<longleftrightarrow> (\<forall>b \<in> set t. lower_hex b)"
proof (induction t rule: decode_pairs.induct)
  case (1 h l rest)
  then show ?case
    using decode_nibble_None [of h] decode_nibble_None [of l]
    by (auto split: option.splits sum.splits)
qed auto

lemma length_session_to_string: "session_wf s \<Longrightarrow> length (session_to_string s) = 32"
  by (simp add: session_to_string_def session_wf_def)

lemma session_to_string_lower_hex: "session_wf s \<Longrightarrow> b \<in> set (session_to_string s) \<Longrightarrow> lower_hex b"
  using decode_pairs_Inr_iff [of "session_to_string s"] decode_encode_pairs
  by (auto simp: session_to_string_def)

section \<open>Properties\<close>

text \<open>
  C33: The parser accepts exactly the 32-byte strings of lowercase hexadecimal digits; what it
  returns for such a string is the one identifier that prints as that string, so parsing
  and printing are inverse to each other and no two strings name the same session.
\<close>

theorem session_id_text_is_canonical:
  "(parse_bytes t = Inr s \<longleftrightarrow> session_wf s \<and> session_to_string s = t) \<and>
   ((\<exists>s. parse_bytes t = Inr s) \<longleftrightarrow> length t = 32 \<and> list_all lower_hex t)"
proof
  show "parse_bytes t = Inr s \<longleftrightarrow> session_wf s \<and> session_to_string s = t"
    using sid.parse_Inr_iff [of t s] by auto
  have "(\<exists>s. parse_bytes t = Inr s) \<longleftrightarrow> length t = 32 \<and> (\<exists>xs. decode_pairs t = Inr xs)"
    by (auto simp: parse_bytes_def split: sum.splits)
  then show "(\<exists>s. parse_bytes t = Inr s) \<longleftrightarrow> length t = 32 \<and> list_all lower_hex t"
    using decode_pairs_Inr_iff [of t] by (auto simp: list_all_iff)
qed

end
