(* ===== verification/Limits.thy ===== *)
theory Limits
  imports Prelude
begin

text \<open>
  The constants of src/limits.rs, each with the arithmetic the source writes.  The
  collection \<open>limits\<close> unfolds them, so that a bound is settled by linear arithmetic.
\<close>

definition IPC_HEADER_BYTES :: nat where
  "IPC_HEADER_BYTES = 5"

definition MAX_IPC_PAYLOAD_BYTES :: nat where
  "MAX_IPC_PAYLOAD_BYTES = 64 * 1024"

definition MAX_IPC_RECORD_BYTES :: nat where
  "MAX_IPC_RECORD_BYTES = IPC_HEADER_BYTES + MAX_IPC_PAYLOAD_BYTES"

definition MAX_ATTACHMENT_QUEUE_BYTES :: nat where
  "MAX_ATTACHMENT_QUEUE_BYTES = 1024 * 1024"

definition OUTPUT_TAIL_BYTES :: nat where
  "OUTPUT_TAIL_BYTES = 256 * 1024"

definition MAX_METADATA_BYTES :: nat where
  "MAX_METADATA_BYTES = 64 * 1024"

definition MAX_TERMINAL_DIMENSION :: u16 where
  "MAX_TERMINAL_DIMENSION = 4096"

definition MAX_SESSION_LIST_ENTRIES :: nat where
  "MAX_SESSION_LIST_ENTRIES = 1024"

definition MAX_COMMAND_ARGUMENTS :: nat where
  "MAX_COMMAND_ARGUMENTS = 256"

definition MAX_COMMAND_BYTES :: nat where
  "MAX_COMMAND_BYTES = 64 * 1024"

definition MAX_PTY_BYTES_PER_TICK :: nat where
  "MAX_PTY_BYTES_PER_TICK = 256 * 1024"

definition COMPLETED_RETENTION_SECONDS :: u64 where
  "COMPLETED_RETENTION_SECONDS = 24 * 60 * 60"

definition STOP_GRACE_SECONDS :: u64 where
  "STOP_GRACE_SECONDS = 5"

definition UNIX_SOCKET_PATH_BYTES :: nat where
  "UNIX_SOCKET_PATH_BYTES = 103"

text \<open>\<open>IO_CHUNK_BYTES\<close> of src/runner.rs and src/attach.rs\<close>

definition IO_CHUNK_BYTES :: nat where
  "IO_CHUNK_BYTES = 16 * 1024"

declare IPC_HEADER_BYTES_def [limits] MAX_IPC_PAYLOAD_BYTES_def [limits]
  MAX_IPC_RECORD_BYTES_def [limits] MAX_ATTACHMENT_QUEUE_BYTES_def [limits]
  OUTPUT_TAIL_BYTES_def [limits] MAX_METADATA_BYTES_def [limits]
  MAX_TERMINAL_DIMENSION_def [limits] MAX_SESSION_LIST_ENTRIES_def [limits]
  MAX_COMMAND_ARGUMENTS_def [limits] MAX_COMMAND_BYTES_def [limits]
  MAX_PTY_BYTES_PER_TICK_def [limits] COMPLETED_RETENTION_SECONDS_def [limits]
  STOP_GRACE_SECONDS_def [limits] UNIX_SOCKET_PATH_BYTES_def [limits]
  IO_CHUNK_BYTES_def [limits]

end
