(* ===== verification/Cli.thy ===== *)
theory Cli
  imports Identity Limits
begin

text \<open>
  src/cli.rs: the command line.  Arguments are byte strings; every rejection is a value of
  \<open>parse_error\<close>.  The grammar \<open>command_args\<close> prints the canonical arguments of a command,
  and the parser is shown to accept exactly the printed command lines (and the two short
  options).
\<close>

datatype command =
    Help
  | Version
  | Cmd_Session session_id bool "os_string list"
  | Cmd_Sessions bool
  | Cmd_Stop session_id
  | HiddenRunner session_id
  | HiddenChild "os_string list"

datatype parse_error =
    MissingCommand | UnsupportedCommand | InvalidId | InvalidArguments | CommandTooLarge

definition parse_session_id :: "os_string \<Rightarrow> parse_error + session_id" where
  "parse_session_id value =
     (case parse_bytes value of Inl _ \<Rightarrow> Inl InvalidId | Inr session \<Rightarrow> Inr session)"

text \<open>The \<open>try_fold\<close> with \<open>checked_add\<close>\<close>

fun checked_total :: "nat \<Rightarrow> os_string list \<Rightarrow> nat option" where
  "checked_total acc [] = Some acc"
| "checked_total acc (argument # rest) =
     (case usize_checked_add acc (length argument) of
        None \<Rightarrow> None
      | Some acc' \<Rightarrow> checked_total acc' rest)"

definition validate_command :: "os_string list \<Rightarrow> parse_error + unit" where
  "validate_command command =
     (if MAX_COMMAND_ARGUMENTS < length command then Inl CommandTooLarge
      else case checked_total 0 command of
        Some len \<Rightarrow> if len \<le> MAX_COMMAND_BYTES then Inr () else Inl CommandTooLarge
      | None \<Rightarrow> Inl CommandTooLarge)"

definition split_trace :: "os_string list \<Rightarrow> bool \<times> os_string list" where
  "split_trace arguments =
     (case arguments of
        option # remaining \<Rightarrow> if option = bs ''--trace'' then (True, remaining) else (False, arguments)
      | [] \<Rightarrow> (False, []))"

definition parse_session :: "os_string list \<Rightarrow> parse_error + command" where
  "parse_session arguments =
     (case arguments of
        [] \<Rightarrow> Inl InvalidArguments
      | first # rest \<Rightarrow>
          (case parse_session_id first of
             Inl e \<Rightarrow> Inl e
           | Inr session \<Rightarrow>
               (let (trace, remaining) = split_trace rest in
                case remaining of
                  [] \<Rightarrow> Inr (Cmd_Session session trace [])
                | separator # command \<Rightarrow>
                    if separator = bs ''--'' \<and> command \<noteq> [] then
                      (case validate_command command of
                         Inl e \<Rightarrow> Inl e
                       | Inr _ \<Rightarrow> Inr (Cmd_Session session trace command))
                    else Inl InvalidArguments)))"

definition parse_session_command ::
    "os_string list \<Rightarrow> (session_id \<Rightarrow> command) \<Rightarrow> parse_error + command" where
  "parse_session_command arguments command =
     (case arguments of
        [session] \<Rightarrow>
          (case parse_session_id session of Inl e \<Rightarrow> Inl e | Inr s \<Rightarrow> Inr (command s))
      | _ \<Rightarrow> Inl InvalidArguments)"

definition parse_sessions :: "os_string list \<Rightarrow> parse_error + command" where
  "parse_sessions arguments =
     (case arguments of
        [] \<Rightarrow> Inr (Cmd_Sessions False)
      | [option] \<Rightarrow> if option = bs ''--json'' then Inr (Cmd_Sessions True) else Inl InvalidArguments
      | _ \<Rightarrow> Inl InvalidArguments)"

definition parse_hidden_child :: "os_string list \<Rightarrow> parse_error + command" where
  "parse_hidden_child arguments =
     (if arguments = [] then Inl InvalidArguments
      else case validate_command arguments of
        Inl e \<Rightarrow> Inl e
      | Inr _ \<Rightarrow> Inr (HiddenChild arguments))"

definition parse :: "os_string list \<Rightarrow> parse_error + command" where
  "parse arguments =
     (case arguments of
        [] \<Rightarrow> Inl MissingCommand
      | first # rest \<Rightarrow>
          if (first = bs ''--help'' \<or> first = bs ''-h'') \<and> length arguments = 1 then Inr Help
          else if (first = bs ''--version'' \<or> first = bs ''-V'') \<and> length arguments = 1
          then Inr Version
          else if first = bs ''session'' then parse_session rest
          else if first = bs ''sessions'' then parse_sessions rest
          else if first = bs ''stop'' then parse_session_command rest Cmd_Stop
          else if first = bs ''__runner'' then parse_session_command rest HiddenRunner
          else if first = bs ''__child'' then parse_hidden_child rest
          else Inl UnsupportedCommand)"

section \<open>The bounds on a command\<close>

definition command_fits :: "os_string list \<Rightarrow> bool" where
  "command_fits command \<longleftrightarrow>
     length command \<le> MAX_COMMAND_ARGUMENTS \<and> length (concat command) \<le> MAX_COMMAND_BYTES"

lemma checked_total_eq:
  "checked_total acc args =
     (if args = [] \<or> acc + length (concat args) \<le> usize_max
      then Some (acc + length (concat args)) else None)"
proof (induction args arbitrary: acc)
  case Nil
  then show ?case by simp
next
  case (Cons a args)
  then show ?case
    by (cases "args = []") (auto simp: usize_checked_add_def add.assoc)
qed

lemma validate_command_Inr [simp]: "validate_command command = Inr u \<longleftrightarrow> command_fits command"
  by (auto simp: validate_command_def command_fits_def checked_total_eq limits usize_max_def)

lemma validate_command_fits [simp]: "command_fits command \<Longrightarrow> validate_command command = Inr ()"
  by (simp only: validate_command_Inr)

lemma validate_command_Inl:
  "validate_command command = Inl e \<longleftrightarrow> \<not> command_fits command \<and> e = CommandTooLarge"
  by (auto simp: validate_command_def command_fits_def checked_total_eq limits usize_max_def)

section \<open>The grammar\<close>

text \<open>The canonical command line of a command.\<close>

definition trace_args :: "bool \<Rightarrow> os_string list" where
  "trace_args trace = (if trace then [bs ''--trace''] else [])"

definition command_tail :: "os_string list \<Rightarrow> os_string list" where
  "command_tail command = (if command = [] then [] else bs ''--'' # command)"

fun command_args :: "command \<Rightarrow> os_string list" where
  "command_args Help = [bs ''--help'']"
| "command_args Version = [bs ''--version'']"
| "command_args (Cmd_Session session trace command) =
     [bs ''session'', session_to_string session] @ trace_args trace @ command_tail command"
| "command_args (Cmd_Sessions json) = bs ''sessions'' # (if json then [bs ''--json''] else [])"
| "command_args (Cmd_Stop session) = [bs ''stop'', session_to_string session]"
| "command_args (HiddenRunner session) = [bs ''__runner'', session_to_string session]"
| "command_args (HiddenChild command) = bs ''__child'' # command"

text \<open>The commands that have one: identifiers of sixteen bytes, command vectors in bounds.\<close>

fun command_wf :: "command \<Rightarrow> bool" where
  "command_wf Help = True"
| "command_wf Version = True"
| "command_wf (Cmd_Session session trace command) = (session_wf session \<and> command_fits command)"
| "command_wf (Cmd_Sessions json) = True"
| "command_wf (Cmd_Stop session) = session_wf session"
| "command_wf (HiddenRunner session) = session_wf session"
| "command_wf (HiddenChild command) = (command \<noteq> [] \<and> command_fits command)"

lemma parse_session_id_Inr: "parse_session_id value = Inr s \<longleftrightarrow> session_wf s \<and> value = session_to_string s"
  using sid.parse_Inr_iff [of "value" s]
  by (auto simp: parse_session_id_def split: sum.splits)

lemma parse_session_id_print [simp]:
  "session_wf s \<Longrightarrow> parse_session_id (session_to_string s) = Inr s"
  by (simp add: parse_session_id_Inr)

lemma session_to_string_inject [simp]:
  "session_wf v \<Longrightarrow> session_wf w \<Longrightarrow> session_to_string v = session_to_string w \<longleftrightarrow> v = w"
  by (rule sid.print_inject)

lemma command_fits_Nil [simp]: "command_fits []"
  by (simp add: command_fits_def)

lemma split_trace_print: "split_trace (trace_args t @ command_tail command) = (t, command_tail command)"
proof -
  have "bs ''--'' \<noteq> bs ''--trace''" by (simp add: bs_def)
  then show ?thesis by (simp add: split_trace_def trace_args_def command_tail_def)
qed

lemma split_trace_Pair: "split_trace rest = (t, remaining) \<Longrightarrow> rest = trace_args t @ remaining"
  by (auto simp: split_trace_def trace_args_def split: list.splits if_splits)

lemma parse_session_print:
  assumes "session_wf s" and "command_fits command"
  shows "parse_session (session_to_string s # trace_args t @ command_tail command) =
    Inr (Cmd_Session s t command)"
  unfolding parse_session_def
  by (simp add: assms split_trace_print) (simp add: assms command_tail_def)

lemma parse_session_Inr:
  assumes "parse_session args = Inr c"
  shows "\<exists>s t command. c = Cmd_Session s t command \<and> session_wf s \<and> command_fits command \<and>
    args = session_to_string s # trace_args t @ command_tail command"
proof (cases args)
  case Nil
  with assms show ?thesis by (simp add: parse_session_def)
next
  case (Cons first rest)
  with assms obtain s where s: "parse_session_id first = Inr s"
    by (cases "parse_session_id first") (simp_all add: parse_session_def)
  obtain t remaining where split: "split_trace rest = (t, remaining)" by fastforce
  have "\<exists>command. c = Cmd_Session s t command \<and> command_fits command \<and>
      remaining = command_tail command"
    using assms Cons s split
    by (cases remaining)
      (auto simp: parse_session_def command_tail_def split: sum.splits if_splits)
  with Cons s split_trace_Pair [OF split] show ?thesis
    unfolding parse_session_id_Inr by blast
qed

lemma parse_session_command_Inr:
  "parse_session_command args f = Inr c \<longleftrightarrow> (\<exists>s. session_wf s \<and> args = [session_to_string s] \<and> c = f s)"
  by (auto simp: parse_session_command_def parse_session_id_Inr split: list.splits sum.splits)

lemma parse_sessions_Inr:
  "parse_sessions args = Inr c \<longleftrightarrow> (\<exists>json. c = Cmd_Sessions json \<and> bs ''sessions'' # args = command_args c)"
  by (auto simp: parse_sessions_def split: list.splits if_splits)

lemma parse_hidden_child_Inr:
  "parse_hidden_child args = Inr c \<longleftrightarrow> (args \<noteq> [] \<and> command_fits args \<and> c = HiddenChild args)"
  by (auto simp: parse_hidden_child_def validate_command_Inl split: sum.splits)


lemma parse_keyword:
  "parse [bs ''--help''] = Inr Help" "parse [bs ''-h''] = Inr Help"
  "parse [bs ''--version''] = Inr Version" "parse [bs ''-V''] = Inr Version"
  "parse (bs ''session'' # rest) = parse_session rest"
  "parse (bs ''sessions'' # rest) = parse_sessions rest"
  "parse (bs ''stop'' # rest) = parse_session_command rest Cmd_Stop"
  "parse (bs ''__runner'' # rest) = parse_session_command rest HiddenRunner"
  "parse (bs ''__child'' # rest) = parse_hidden_child rest"
  by (simp_all add: parse_def bs_def)

lemma parse_cases:
  "args = [] \<and> parse args = Inl MissingCommand \<or>
   args = [bs ''--help''] \<or> args = [bs ''-h''] \<or> args = [bs ''--version''] \<or> args = [bs ''-V''] \<or>
   (\<exists>rest. args = bs ''session'' # rest) \<or> (\<exists>rest. args = bs ''sessions'' # rest) \<or>
   (\<exists>rest. args = bs ''stop'' # rest) \<or> (\<exists>rest. args = bs ''__runner'' # rest) \<or>
   (\<exists>rest. args = bs ''__child'' # rest) \<or> parse args = Inl UnsupportedCommand"
  by (cases args) (auto simp: parse_def)

lemma parse_accepts: "command_wf c \<Longrightarrow> parse (command_args c) = Inr c"
proof (cases c)
  case (Cmd_Session s t command)
  moreover assume "command_wf c"
  ultimately show ?thesis by (simp add: parse_keyword parse_session_print)
next
  case (Cmd_Sessions json)
  then have "parse_sessions (tl (command_args c)) = Inr c"
    using parse_sessions_Inr [of "tl (command_args c)" c] by simp
  with Cmd_Sessions show ?thesis by (simp add: parse_keyword)
qed (simp_all add: parse_keyword parse_session_command_Inr parse_hidden_child_Inr)

lemma parse_Inr:
  assumes "parse args = Inr c"
  shows "command_wf c \<and>
    (args = command_args c \<or> c = Help \<and> args = [bs ''-h''] \<or> c = Version \<and> args = [bs ''-V''])"
proof -
  from parse_cases [of args] assms
  consider "args = [bs ''--help'']" | "args = [bs ''-h'']" | "args = [bs ''--version'']"
    | "args = [bs ''-V'']" | rest where "args = bs ''session'' # rest"
    | rest where "args = bs ''sessions'' # rest" | rest where "args = bs ''stop'' # rest"
    | rest where "args = bs ''__runner'' # rest" | rest where "args = bs ''__child'' # rest"
    by (elim disjE exE conjE) simp_all
  then show ?thesis
  proof cases
    case (5 rest)
    with assms have "parse_session rest = Inr c" by (simp add: parse_keyword)
    with 5 show ?thesis using parse_session_Inr [of rest c] by auto
  next
    case (6 rest)
    with assms have "parse_sessions rest = Inr c" by (simp add: parse_keyword)
    with 6 show ?thesis using parse_sessions_Inr [of rest c] by auto
  next
    case (7 rest)
    with assms show ?thesis by (auto simp: parse_keyword parse_session_command_Inr)
  next
    case (8 rest)
    with assms show ?thesis by (auto simp: parse_keyword parse_session_command_Inr)
  next
    case (9 rest)
    with assms show ?thesis by (auto simp: parse_keyword parse_hidden_child_Inr)
  qed (use assms in \<open>auto simp: parse_keyword\<close>)
qed

section \<open>Properties\<close>

text \<open>
  C32: The parser accepts exactly the documented command lines: a result is a well-formed
  command (a canonical identifier, a command vector within 256 arguments and 64 KiB) and the
  arguments are its canonical form, or one of the two short options; and every well-formed
  command is parsed back from its canonical form.
\<close>

theorem parse_accepts_the_grammar:
  "parse args = Inr c \<longleftrightarrow>
     command_wf c \<and>
     (args = command_args c \<or> (c = Help \<and> args = [bs ''-h'']) \<or>
      (c = Version \<and> args = [bs ''-V'']))"
  using parse_Inr [of args c] parse_accepts [of c] parse_keyword(2,4) by auto

end
