(* ===== verification/Std_Io.thy ===== *)
theory Std_Io
  imports Prelude
begin

text \<open>
  The parts of the Rust standard library the program is written against.

  \<^item> \<open>io_error\<close>: an \<open>io::Error\<close> by its kind and raw OS code; the message text is never
    inspected or printed by the program and is left out.
  \<^item> \<open>('s, 'a) io\<close>: an operation on a state \<open>'s\<close> that returns \<open>io::Result\<close>.  \<open>io_try\<close> is
    the \<open>?\<close> operator, \<open>io_match\<close> a \<open>match\<close> on the result, \<open>io_ignore\<close> is \<open>let _ = ...\<close>.
  \<^item> \<open>writer\<close> and \<open>reader\<close>: an \<open>impl Write\<close> or \<open>impl Read\<close> together with the finite list of
    responses its environment gives to the coming calls (short writes, errors, data in
    pieces).  A writer whose plan is used up takes everything it is offered; a reader
    whose plan is used up reports end of file, or would block.
  \<^item> \<open>deque\<close>: a \<open>VecDeque\<close> as the two slices \<open>as_slices\<close> returns.
\<close>

section \<open>Errors and the ? operator\<close>

datatype error_kind =
    NotFound | PermissionDenied | ConnectionRefused | ConnectionReset | ConnectionAborted
  | NotConnected | BrokenPipe | AlreadyExists | WouldBlock | InvalidInput | InvalidData
  | TimedOut | WriteZero | Interrupted | UnexpectedEof | OutOfMemory | AddrInUse
  | Uncategorized | Other

record io_error =
  err_kind :: error_kind
  raw_os_error :: "int option"

type_synonym 'a io_result = "io_error + 'a"

type_synonym ('s, 'a) io = "'s \<Rightarrow> 'a io_result \<times> 's"

text \<open>\<open>io::Error::new(kind, message)\<close>\<close>

definition io_error_new :: "error_kind \<Rightarrow> io_error" where
  "io_error_new k = \<lparr>err_kind = k, raw_os_error = None\<rparr>"

definition io_ok :: "'a \<Rightarrow> ('s, 'a) io" where
  "io_ok a = (\<lambda>s. (Inr a, s))"

definition io_fail :: "io_error \<Rightarrow> ('s, 'a) io" where
  "io_fail e = (\<lambda>s. (Inl e, s))"

definition io_match ::
  "('s, 'a) io \<Rightarrow> (io_error \<Rightarrow> ('s, 'b) io) \<Rightarrow> ('a \<Rightarrow> ('s, 'b) io) \<Rightarrow> ('s, 'b) io" where
  "io_match m h f = (\<lambda>s. case m s of (Inl e, s') \<Rightarrow> h e s' | (Inr a, s') \<Rightarrow> f a s')"

definition io_try :: "('s, 'a) io \<Rightarrow> ('a \<Rightarrow> ('s, 'b) io) \<Rightarrow> ('s, 'b) io" where
  "io_try m f = io_match m io_fail f"

definition io_ignore :: "('s, 'a) io \<Rightarrow> ('s, 'b) io \<Rightarrow> ('s, 'b) io" where
  "io_ignore m f = io_match m (\<lambda>_. f) (\<lambda>_. f)"

definition is_ok :: "'a io_result \<Rightarrow> bool" where
  "is_ok r = (case r of Inl _ \<Rightarrow> False | Inr _ \<Rightarrow> True)"

lemma io_error_new_kind [simp]: "err_kind (io_error_new k) = k"
  by (simp add: io_error_new_def)

lemma io_error_new_os [simp]: "raw_os_error (io_error_new k) = None"
  by (simp add: io_error_new_def)

lemma is_ok_simps [simp]: "is_ok (Inl e) = False" "is_ok (Inr a) = True"
  by (simp_all add: is_ok_def)

lemma io_ok_apply [io_simps]: "io_ok a s = (Inr a, s)"
  by (simp add: io_ok_def)

lemma io_fail_apply [io_simps]: "io_fail e s = (Inl e, s)"
  by (simp add: io_fail_def)

lemma io_match_apply [io_simps]:
  "io_match m h f s = (case m s of (Inl e, s') \<Rightarrow> h e s' | (Inr a, s') \<Rightarrow> f a s')"
  by (simp add: io_match_def)

lemma io_try_apply [io_simps]:
  "io_try m f s = (case m s of (Inl e, s') \<Rightarrow> (Inl e, s') | (Inr a, s') \<Rightarrow> f a s')"
  by (simp add: io_try_def io_match_def io_fail_def split: prod.splits sum.splits)

lemma io_ignore_apply [io_simps]: "io_ignore m f s = f (snd (m s))"
  by (auto simp: io_ignore_def io_match_def split: prod.splits sum.splits)

lemma io_try_Inr:
  "io_try m f s = (Inr b, s'') \<longleftrightarrow> (\<exists>a s'. m s = (Inr a, s') \<and> f a s' = (Inr b, s''))"
  by (auto simp: io_try_apply split: prod.splits sum.splits)

section \<open>Writers\<close>

datatype write_response = Took nat | Write_fails io_error

record writer =
  sink :: "byte list"
  write_plan :: "write_response list"
  flushed :: nat
  flush_plan :: "io_error option list"

text \<open>The writer of a \<open>Vec<u8>\<close>, and of any stream that takes all it is offered.\<close>

definition vec_writer :: writer where
  "vec_writer = \<lparr>sink = [], write_plan = [], flushed = 0, flush_plan = []\<rparr>"

text \<open>One call of \<open>write\<close>: the number of bytes taken is at most the length of the slice.\<close>

definition write_once :: "byte list \<Rightarrow> (writer, nat) io" where
  "write_once xs w =
     (case write_plan w of
        [] \<Rightarrow> (Inr (length xs), w\<lparr>sink := sink w @ xs\<rparr>)
      | Took n # p \<Rightarrow>
          (Inr (min n (length xs)), w\<lparr>sink := sink w @ take n xs, write_plan := p\<rparr>)
      | Write_fails e # p \<Rightarrow> (Inl e, w\<lparr>write_plan := p\<rparr>))"

definition flush_once :: "(writer, unit) io" where
  "flush_once w =
     (case flush_plan w of
        [] \<Rightarrow> (Inr (), w\<lparr>flushed := length (sink w)\<rparr>)
      | None # p \<Rightarrow> (Inr (), w\<lparr>flushed := length (sink w), flush_plan := p\<rparr>)
      | Some e # p \<Rightarrow> (Inl e, w\<lparr>flush_plan := p\<rparr>))"

lemma write_once_measure:
  "write_once xs w = (r, w') \<Longrightarrow> xs \<noteq> [] \<Longrightarrow>
   length (write_plan w') < length (write_plan w) \<or>
   (write_plan w = [] \<and> write_plan w' = [] \<and> r = Inr (length xs))"
  by (auto simp: write_once_def split: list.splits write_response.splits)

lemma write_once_Inr:
  "write_once xs w = (Inr n, w') \<Longrightarrow> n \<le> length xs \<and> sink w' = sink w @ take n xs"
  by (auto simp: write_once_def min_def split: list.splits write_response.splits)

lemma write_once_Inl: "write_once xs w = (Inl e, w') \<Longrightarrow> sink w' = sink w"
  by (auto simp: write_once_def split: list.splits write_response.splits)

text \<open>\<open>Write::write_all\<close>\<close>

function write_all :: "byte list \<Rightarrow> (writer, unit) io" where
  "write_all xs w =
     (if xs = [] then (Inr (), w)
      else case write_once xs w of
        (Inl e, w') \<Rightarrow> if err_kind e = Interrupted then write_all xs w' else (Inl e, w')
      | (Inr n, w') \<Rightarrow>
          if n = 0 then (Inl (io_error_new WriteZero), w') else write_all (drop n xs) w')"
  by pat_completeness auto
termination
  by (relation "measure (\<lambda>(xs, w). length xs + length (write_plan w))")
    (auto dest!: sym [of "(_, _)"] write_once_measure dest: write_once_Inr)

declare write_all.simps [simp del]

lemma write_all_Nil [simp]: "write_all [] w = (Inr (), w)"
  by (simp add: write_all.simps)

lemma write_all_vec:
  "write_plan w = [] \<Longrightarrow> write_all xs w = (Inr (), w\<lparr>sink := sink w @ xs\<rparr>)"
  by (subst write_all.simps) (simp add: write_once_def)

lemma write_all_sink:
  "write_all xs w = (r, w') \<Longrightarrow>
   \<exists>n \<le> length xs. sink w' = sink w @ take n xs \<and> (is_ok r \<longrightarrow> n = length xs)"
proof (induction xs w arbitrary: r w' rule: write_all.induct)
  case (1 xs w)
  show ?case
  proof (cases "xs = []")
    case True
    with "1.prems" show ?thesis by simp
  next
    case False
    obtain q w1 where q: "write_once xs w = (q, w1)" by fastforce
    show ?thesis
    proof (cases q)
      case (Inl e)
      with "1.IH"(1) [OF False q [symmetric] Inl] "1.prems" False q write_once_Inl [of xs w e w1]
      show ?thesis
        by (fastforce simp: write_all.simps [of xs w] split: if_splits)
    next
      case (Inr n)
      show ?thesis
      proof (cases "n = 0")
        case True
        with "1.prems" False q Inr write_once_Inr [of xs w n w1] show ?thesis
          by (auto simp: write_all.simps [of xs w])
      next
        case n: False
        with "1.prems" False q Inr have "write_all (drop n xs) w1 = (r, w')"
          by (simp add: write_all.simps [of xs w])
        from "1.IH"(2) [OF False q [symmetric] Inr n this] obtain m
          where m: "m \<le> length (drop n xs)" "sink w' = sink w1 @ take m (drop n xs)"
            "is_ok r \<longrightarrow> m = length (drop n xs)" by blast
        have "n \<le> length xs" "sink w1 = sink w @ take n xs"
          using write_once_Inr [of xs w n w1] q Inr by simp_all
        with m show ?thesis
          by (intro exI [of _ "n + m"]) (auto simp: take_add)
      qed
    qed
  qed
qed

section \<open>Readers\<close>

datatype read_response = Data "byte list" | Read_fails io_error

text \<open>What a reader answers when its plan is used up: \<open>Ok(0)\<close>, or \<open>WouldBlock\<close>.\<close>

datatype dry = At_eof | Would_block

record reader =
  read_plan :: "read_response list"
  when_dry :: dry

fun response_size :: "read_response \<Rightarrow> nat" where
  "response_size (Data xs) = Suc (length xs)"
| "response_size (Read_fails e) = 1"

text \<open>The work left in a reader: the measure of every loop that reads from one.\<close>

instantiation reader_ext :: (type) size
begin

definition size_reader_ext :: "('a::type) reader_ext \<Rightarrow> nat" where
  "size_reader_ext r = sum_list (map response_size (read_plan r))"

instance ..

end

text \<open>One call of \<open>read\<close> with a buffer of \<open>n\<close> bytes; the empty list is \<open>Ok(0)\<close>.\<close>

definition read_once :: "nat \<Rightarrow> (reader, byte list) io" where
  "read_once n r =
     (case read_plan r of
        [] \<Rightarrow> (case when_dry r of
                At_eof \<Rightarrow> (Inr [], r)
              | Would_block \<Rightarrow> (Inl (io_error_new WouldBlock), r))
      | Data xs # p \<Rightarrow>
          if length xs \<le> n then (Inr xs, r\<lparr>read_plan := p\<rparr>)
          else (Inr (take n xs), r\<lparr>read_plan := Data (drop n xs) # p\<rparr>)
      | Read_fails e # p \<Rightarrow> (Inl e, r\<lparr>read_plan := p\<rparr>))"

lemma read_once_length: "read_once n r = (Inr xs, r') \<Longrightarrow> length xs \<le> n"
  by (auto simp: read_once_def split: list.splits read_response.splits dry.splits if_splits)

lemma read_once_data_measure:
  "read_once n r = (Inr xs, r') \<Longrightarrow> xs \<noteq> [] \<Longrightarrow> size r' < size r"
  by (auto simp: read_once_def size_reader_ext_def
      split: list.splits read_response.splits dry.splits if_splits)

lemma read_once_error_measure:
  "read_once n r = (Inl e, r') \<Longrightarrow> err_kind e \<noteq> WouldBlock \<Longrightarrow> size r' < size r"
  by (auto simp: read_once_def size_reader_ext_def
      split: list.splits read_response.splits dry.splits if_splits)

text \<open>\<open>Read::read_exact\<close> into a buffer of \<open>n\<close> bytes\<close>

function read_exact :: "nat \<Rightarrow> (reader, byte list) io" where
  "read_exact n r =
     (if n = 0 then (Inr [], r)
      else case read_once n r of
        (Inl e, r') \<Rightarrow> if err_kind e = Interrupted then read_exact n r' else (Inl e, r')
      | (Inr xs, r') \<Rightarrow>
          if xs = [] then (Inl (io_error_new UnexpectedEof), r')
          else (case read_exact (n - length xs) r' of
                  (Inl e, r'') \<Rightarrow> (Inl e, r'')
                | (Inr ys, r'') \<Rightarrow> (Inr (xs @ ys), r'')))"
  by pat_completeness auto
termination
  by (relation "measure (\<lambda>(n, r). size r)")
    (auto dest!: sym [of "(_, _)"] intro: read_once_data_measure read_once_error_measure)

declare read_exact.simps [simp del]

text \<open>
  A reader that delivers \<open>xs\<close>: the plan holds these bytes in any number of non-empty
  pieces, with any number of interrupted calls between them.
\<close>

fun plan_bytes :: "read_response list \<Rightarrow> byte list" where
  "plan_bytes [] = []"
| "plan_bytes (Data xs # p) = xs @ plan_bytes p"
| "plan_bytes (Read_fails e # p) = plan_bytes p"

fun undisturbed :: "read_response list \<Rightarrow> bool" where
  "undisturbed [] = True"
| "undisturbed (Data xs # p) = (xs \<noteq> [] \<and> undisturbed p)"
| "undisturbed (Read_fails e # p) = (err_kind e = Interrupted \<and> undisturbed p)"

definition delivers :: "reader \<Rightarrow> byte list \<Rightarrow> bool" where
  "delivers r xs \<longleftrightarrow> undisturbed (read_plan r) \<and> plan_bytes (read_plan r) = xs"

lemma delivers_read_once_Inr:
  "delivers r zs \<Longrightarrow> read_once n r = (Inr xs, r') \<Longrightarrow> 0 < n \<Longrightarrow> zs \<noteq> [] \<Longrightarrow>
   \<exists>ys. zs = xs @ ys \<and> xs \<noteq> [] \<and> length xs \<le> n \<and> delivers r' ys"
  by (cases "read_plan r" rule: undisturbed.cases)
    (auto simp: read_once_def delivers_def split: if_splits dry.splits)

lemma delivers_read_once_Inl:
  "delivers r zs \<Longrightarrow> read_once n r = (Inl e, r') \<Longrightarrow> zs \<noteq> [] \<Longrightarrow>
   err_kind e = Interrupted \<and> delivers r' zs"
  by (cases "read_plan r" rule: undisturbed.cases)
    (auto simp: read_once_def delivers_def split: if_splits dry.splits)

lemma read_exact_delivers:
  "delivers r (xs @ ys) \<Longrightarrow> length xs = n \<Longrightarrow>
   \<exists>r'. read_exact n r = (Inr xs, r') \<and> delivers r' ys"
proof (induction n r arbitrary: xs rule: read_exact.induct)
  case (1 n r)
  show ?case
  proof (cases "n = 0")
    case True
    with "1.prems" show ?thesis by (simp add: read_exact.simps)
  next
    case False
    with "1.prems" have ne: "xs @ ys \<noteq> []" by auto
    obtain q r1 where q: "read_once n r = (q, r1)" by fastforce
    show ?thesis
    proof (cases q)
      case (Inl e)
      with delivers_read_once_Inl [OF "1.prems"(1) _ ne] q
      have e: "err_kind e = Interrupted" "delivers r1 (xs @ ys)" by auto
      from "1.IH"(1) [OF False q [symmetric] Inl e(1) e(2) "1.prems"(2)] False q Inl e
      show ?thesis by (simp add: read_exact.simps [of n r])
    next
      case (Inr us)
      with delivers_read_once_Inr [OF "1.prems"(1) _ _ ne] q False
      obtain vs where vs: "xs @ ys = us @ vs" "us \<noteq> []" "length us \<le> n" "delivers r1 vs"
        by blast
      then have xs: "xs = us @ drop (length us) xs" "vs = drop (length us) xs @ ys"
        using "1.prems"(2) by (auto simp: append_eq_append_conv2)
      with vs "1.prems"(2) obtain r2
        where "read_exact (n - length us) r1 = (Inr (drop (length us) xs), r2)" "delivers r2 ys"
        using "1.IH"(2) [OF False q [symmetric] Inr vs(2), of "drop (length us) xs"] by auto
      with False q Inr vs(2) xs(1) show ?thesis
        by (simp add: read_exact.simps [of n r])
    qed
  qed
qed

lemma read_exact_length: "read_exact n r = (Inr xs, r') \<Longrightarrow> length xs = n"
proof (induction n r arbitrary: xs r' rule: read_exact.induct)
  case (1 n r)
  show ?case
  proof (cases "n = 0")
    case True
    with "1.prems" show ?thesis by (simp add: read_exact.simps)
  next
    case False
    obtain q r1 where q: "read_once n r = (q, r1)" by fastforce
    show ?thesis
    proof (cases q)
      case (Inl e)
      with "1.IH"(1) [OF False q [symmetric] Inl] "1.prems" False q show ?thesis
        by (simp add: read_exact.simps [of n r] split: if_splits)
    next
      case (Inr us)
      with "1.prems" False q obtain ys where "us \<noteq> []"
        "read_exact (n - length us) r1 = (Inr ys, r')" "xs = us @ ys"
        by (auto simp: read_exact.simps [of n r] split: if_splits prod.splits sum.splits)
      with "1.IH"(2) [OF False q [symmetric] Inr] read_once_length [of n r us r1] q Inr
      show ?thesis by force
    qed
  qed
qed

section \<open>VecDeque\<close>

record 'a deque =
  dq_first :: "'a list"
  dq_second :: "'a list"

definition dq_new :: "'a deque" where
  "dq_new = \<lparr>dq_first = [], dq_second = []\<rparr>"

definition dq_contents :: "'a deque \<Rightarrow> 'a list" where
  "dq_contents d = dq_first d @ dq_second d"

definition dq_len :: "'a deque \<Rightarrow> nat" where
  "dq_len d = length (dq_first d) + length (dq_second d)"

definition dq_is_empty :: "'a deque \<Rightarrow> bool" where
  "dq_is_empty d \<longleftrightarrow> dq_len d = 0"

text \<open>New elements go behind the last one; they start a second slice only once there is one.\<close>

definition dq_extend :: "'a deque \<Rightarrow> 'a list \<Rightarrow> 'a deque" where
  "dq_extend d xs =
     (if dq_second d = [] then d\<lparr>dq_first := dq_first d @ xs\<rparr>
      else d\<lparr>dq_second := dq_second d @ xs\<rparr>)"

text \<open>\<open>drain(..n)\<close>, for \<open>n\<close> at most the length\<close>

definition dq_drain :: "nat \<Rightarrow> 'a deque \<Rightarrow> 'a deque" where
  "dq_drain n d =
     (if n < length (dq_first d) then d\<lparr>dq_first := drop n (dq_first d)\<rparr>
      else \<lparr>dq_first = drop (n - length (dq_first d)) (dq_second d), dq_second = []\<rparr>)"

lemma dq_contents_new [simp]: "dq_contents dq_new = []"
  by (simp add: dq_contents_def dq_new_def)

lemma dq_len_contents [simp]: "dq_len d = length (dq_contents d)"
  by (simp add: dq_len_def dq_contents_def)

lemma dq_is_empty_contents [simp]: "dq_is_empty d \<longleftrightarrow> dq_contents d = []"
  by (simp add: dq_is_empty_def)

lemma dq_contents_extend [simp]: "dq_contents (dq_extend d xs) = dq_contents d @ xs"
  by (simp add: dq_contents_def dq_extend_def)

lemma dq_contents_drain [simp]: "dq_contents (dq_drain n d) = drop n (dq_contents d)"
  by (simp add: dq_contents_def dq_drain_def)

end
