(* ===== verification/Platform_Unix.thy ===== *)
theory Platform_Unix
  imports Std_Io Limits
begin

text \<open>
  src/platform/unix.rs: the checks and conversions around the terminal calls of rustix and
  rustix_openpty.  Those calls are not part of the repository.  Their responses are data of
  the terminal they act on (\<open>pty_resize_plan\<close>, \<open>tm_fails\<close>), \<open>openpty\<close> and \<open>make_raw\<close> are
  parameters, and a successful call has the documented effect on the size, the attributes
  or the flags of its terminal.
\<close>

section \<open>OS error codes\<close>

text \<open>\<open>io::Error::from(Errno)\<close> on Linux\<close>

definition EINTR :: int where "EINTR = 4"
definition EIO :: int where "EIO = 5"
definition ENODEV :: int where "ENODEV = 19"
definition ENOTTY :: int where "ENOTTY = 25"

definition decode_error_kind :: "int \<Rightarrow> error_kind" where
  "decode_error_kind code =
     (if code = 2 then NotFound else if code = 1 \<or> code = 13 then PermissionDenied
      else if code = 4 then Interrupted else if code = 11 then WouldBlock
      else if code = 12 then OutOfMemory else if code = 17 then AlreadyExists
      else if code = 22 then InvalidInput else if code = 32 then BrokenPipe
      else if code = 98 then AddrInUse else if code = 103 then ConnectionAborted
      else if code = 104 then ConnectionReset else if code = 107 then NotConnected
      else if code = 110 then TimedOut else if code = 111 then ConnectionRefused
      else Uncategorized)"

definition io_error_from_errno :: "int \<Rightarrow> io_error" where
  "io_error_from_errno code = \<lparr>err_kind = decode_error_kind code, raw_os_error = Some code\<rparr>"

section \<open>The other end of a socket\<close>

text \<open>\<open>unix_cred::get_peer_ids\<close> reports the user and the group of the peer, or fails.\<close>

definition peer_uid :: "(u32 \<times> u32) io_result \<Rightarrow> u32 io_result" where
  "peer_uid ids = (case ids of Inl e \<Rightarrow> Inl e | Inr (user, _) \<Rightarrow> Inr user)"

lemma peer_uid_simps [simp]: "peer_uid (Inr (user, gid)) = Inr user" "peer_uid (Inl e) = Inl e"
  by (simp_all add: peer_uid_def)

section \<open>Window sizes\<close>

record winsize =
  ws_row :: u16
  ws_col :: u16
  ws_xpixel :: u16
  ws_ypixel :: u16

definition validate_dimensions :: "u16 \<Rightarrow> u16 \<Rightarrow> unit io_result" where
  "validate_dimensions rows columns =
     (if 1 \<le> rows \<and> rows \<le> MAX_TERMINAL_DIMENSION \<and> 1 \<le> columns \<and> columns \<le> MAX_TERMINAL_DIMENSION
      then Inr () else Inl (io_error_new InvalidInput))"

text \<open>The controlling side of a pseudo-terminal: what it reads, takes, and its size.\<close>

record pty =
  pty_in :: reader
  pty_out :: writer
  pty_size :: winsize
  pty_resize_plan :: "int option list"

definition tcsetwinsize :: "winsize \<Rightarrow> (pty, unit) io" where
  "tcsetwinsize sz p =
     (case pty_resize_plan p of
        [] \<Rightarrow> (Inr (), p\<lparr>pty_size := sz\<rparr>)
      | None # plan \<Rightarrow> (Inr (), p\<lparr>pty_size := sz, pty_resize_plan := plan\<rparr>)
      | Some code # plan \<Rightarrow> (Inl (io_error_from_errno code), p\<lparr>pty_resize_plan := plan\<rparr>))"

definition set_window_size :: "u16 \<Rightarrow> u16 \<Rightarrow> (pty, unit) io" where
  "set_window_size rows columns p =
     (case validate_dimensions rows columns of
        Inl e \<Rightarrow> (Inl e, p)
      | Inr _ \<Rightarrow> tcsetwinsize \<lparr>ws_row = rows, ws_col = columns, ws_xpixel = 0, ws_ypixel = 0\<rparr> p)"

definition create_pty :: "(winsize \<Rightarrow> int + pty) \<Rightarrow> u16 \<Rightarrow> u16 \<Rightarrow> pty io_result" where
  "create_pty openpty rows columns =
     (case validate_dimensions rows columns of
        Inl e \<Rightarrow> Inl e
      | Inr _ \<Rightarrow>
          (case openpty \<lparr>ws_row = rows, ws_col = columns, ws_xpixel = 0, ws_ypixel = 0\<rparr> of
             Inl code \<Rightarrow> Inl (io_error_from_errno code)
           | Inr p \<Rightarrow> Inr p))"

section \<open>The terminal of an attachment\<close>

datatype terminal_call = Tc_getwinsize | Tc_getattr | Tc_setattr | Tc_dup | Fc_getfl | Fc_setfl

record 'attr terminal =
  tm_attrs :: 'attr
  tm_size :: winsize
  tm_flags :: u32
  tm_fails :: "terminal_call \<Rightarrow> int option"

definition terminal_call ::
    "terminal_call \<Rightarrow> ('attr terminal \<Rightarrow> 'b \<times> 'attr terminal) \<Rightarrow> 'attr terminal \<Rightarrow> (int + 'b) \<times> 'attr terminal" where
  "terminal_call c f t =
     (case tm_fails t c of Some code \<Rightarrow> (Inl code, t) | None \<Rightarrow> (case f t of (b, t') \<Rightarrow> (Inr b, t')))"

definition from_errno ::
    "('attr terminal \<Rightarrow> (int + 'b) \<times> 'attr terminal) \<Rightarrow> ('attr terminal, 'b) io" where
  "from_errno m t = (case m t of (Inl code, t') \<Rightarrow> (Inl (io_error_from_errno code), t') | (Inr b, t') \<Rightarrow> (Inr b, t'))"

definition window_size :: "('attr terminal, u16 \<times> u16) io" where
  "window_size =
     io_try (from_errno (terminal_call Tc_getwinsize (\<lambda>t. (tm_size t, t)))) (\<lambda>sz t.
       case validate_dimensions (ws_row sz) (ws_col sz) of
         Inl e \<Rightarrow> (Inl e, t)
       | Inr _ \<Rightarrow> (Inr (ws_row sz, ws_col sz), t))"

definition NONBLOCK :: u32 where
  "NONBLOCK = 2048"

definition set_nonblocking :: "('attr terminal, u32) io" where
  "set_nonblocking =
     io_try (from_errno (terminal_call Fc_getfl (\<lambda>t. (tm_flags t, t)))) (\<lambda>previous.
     io_try (from_errno (terminal_call Fc_setfl (\<lambda>t. ((), t\<lparr>tm_flags := previous OR NONBLOCK\<rparr>)))) (\<lambda>_.
     io_ok previous))"

record 'attr raw_terminal =
  original :: "'attr option"

definition raw_enter :: "('attr \<Rightarrow> 'attr) \<Rightarrow> ('attr terminal, 'attr raw_terminal) io" where
  "raw_enter make_raw =
     io_try (from_errno (terminal_call Tc_dup (\<lambda>t. ((), t)))) (\<lambda>_ t.
       case terminal_call Tc_getattr (\<lambda>t. (tm_attrs t, t)) t of
         (Inr attrs, t) \<Rightarrow>
           io_try (from_errno (terminal_call Tc_setattr (\<lambda>t. ((), t\<lparr>tm_attrs := make_raw attrs\<rparr>)))) (\<lambda>_.
           io_ok \<lparr>original = Some attrs\<rparr>) t
       | (Inl code, t) \<Rightarrow>
           if code = ENOTTY \<or> code = ENODEV then (Inr \<lparr>original = None\<rparr>, t)
           else (Inl (io_error_from_errno code), t))"

definition raw_drop :: "'attr raw_terminal \<Rightarrow> 'attr terminal \<Rightarrow> 'attr terminal" where
  "raw_drop raw t =
     (case original raw of
        None \<Rightarrow> t
      | Some attrs \<Rightarrow> snd (terminal_call Tc_setattr (\<lambda>t. ((), t\<lparr>tm_attrs := attrs\<rparr>)) t))"

section \<open>Facts\<close>

lemma validate_dimensions_iff:
  "validate_dimensions rows columns = Inr u \<longleftrightarrow>
     1 \<le> rows \<and> rows \<le> MAX_TERMINAL_DIMENSION \<and> 1 \<le> columns \<and> columns \<le> MAX_TERMINAL_DIMENSION"
  by (simp add: validate_dimensions_def)

lemma tcsetwinsize_keeps:
  "tcsetwinsize sz p = (r, p') \<Longrightarrow> pty_in p' = pty_in p \<and> pty_out p' = pty_out p"
  by (auto simp: tcsetwinsize_def split: list.splits option.splits)

lemma set_window_size_keeps:
  "set_window_size rows columns p = (r, p') \<Longrightarrow> pty_in p' = pty_in p \<and> pty_out p' = pty_out p"
  by (auto simp: set_window_size_def split: sum.splits dest: tcsetwinsize_keeps)

section \<open>Properties\<close>

text \<open>
  An attachment's raw mode is always undone: entering it fails with the attributes as
  they were, or succeeds, and dropping the guard later, in whatever state the attributes
  are by then, restores the original ones unless the system call fails; a standard input
  that is no terminal is left alone, and the file status flags are never touched.
\<close>

theorem raw_mode_is_undone:
  assumes "raw_enter make_raw t = (r, t1)" and "tm_fails later Tc_setattr = None"
  shows "tm_flags t1 = tm_flags t \<and> tm_flags (raw_drop raw later) = tm_flags later \<and>
    (case r of
       Inl e \<Rightarrow> tm_attrs t1 = tm_attrs t
     | Inr raw \<Rightarrow>
         (case original raw of
            None \<Rightarrow> tm_attrs t1 = tm_attrs t \<and> raw_drop raw later = later
          | Some attrs \<Rightarrow> tm_attrs t1 = make_raw (tm_attrs t) \<and> tm_attrs (raw_drop raw later) = tm_attrs t))"
  using assms
  by (auto simp: raw_enter_def raw_drop_def from_errno_def terminal_call_def io_simps
      split: option.splits sum.splits if_splits prod.splits)

lemma raw_mode_is_undone_witness:
  "let t = \<lparr>tm_attrs = 3 :: nat, tm_size = \<lparr>ws_row = 24, ws_col = 80, ws_xpixel = 0, ws_ypixel = 0\<rparr>,
       tm_flags = 2, tm_fails = (\<lambda>_. None)\<rparr> in
   \<exists>raw t1. raw_enter (\<lambda>n. n + 1) t = (Inr raw, t1) \<and> tm_attrs t1 = 4 \<and> tm_attrs (raw_drop raw t1) = 3"
proof -
  let ?t = "\<lparr>tm_attrs = 3 :: nat, tm_size = \<lparr>ws_row = 24, ws_col = 80, ws_xpixel = 0, ws_ypixel = 0\<rparr>,
       tm_flags = 2, tm_fails = (\<lambda>_. None)\<rparr>"
  have r: "raw_enter (\<lambda>n. n + 1) ?t = (Inr \<lparr>original = Some 3\<rparr>, ?t\<lparr>tm_attrs := 4\<rparr>)"
    by (simp add: raw_enter_def from_errno_def terminal_call_def io_simps)
  have f: "tm_fails (?t\<lparr>tm_attrs := 4\<rparr>) Tc_setattr = None" by simp
  from raw_mode_is_undone [OF r f, of "\<lparr>original = Some 3\<rparr>"] r show ?thesis by simp
qed

end
