(* ===== verification/Byte_Queue.thy ===== *)
theory Byte_Queue
  imports Std_Io Limits
begin

text \<open>
  src/byte_queue.rs: the bounded first-in first-out queue of bytes that stands between the
  event loops and their sockets.  \<open>bounded_queue\<close> is the contract the runner and the
  attachment rely on when they queue encoded records; \<open>bq_push\<close> provides it.
\<close>

section \<open>Interface: a bounded queue\<close>

text \<open>Pushing pieces one after the other until one does not fit.\<close>

fun push_all :: "('q \<Rightarrow> 'a list \<Rightarrow> bool \<times> 'q) \<Rightarrow> 'q \<Rightarrow> 'a list list \<Rightarrow> bool \<times> 'q" where
  "push_all push q [] = (True, q)"
| "push_all push q (xs # xss) =
     (case push q xs of
        (True, q') \<Rightarrow> push_all push q' xss
      | (False, q') \<Rightarrow> (False, q'))"

locale bounded_queue =
  fixes contents :: "'q \<Rightarrow> 'a list"
    and limit :: "'q \<Rightarrow> nat"
    and push :: "'q \<Rightarrow> 'a list \<Rightarrow> bool \<times> 'q"
  assumes push_fits:
      "length (contents q) + length xs \<le> limit q \<Longrightarrow>
       \<exists>q'. push q xs = (True, q') \<and> contents q' = contents q @ xs \<and> limit q' = limit q"
    and push_full:
      "length (contents q) \<le> limit q \<Longrightarrow> limit q < length (contents q) + length xs \<Longrightarrow>
       push q xs = (False, q)"
begin

lemma push_True:
  assumes "push q xs = (True, q')" and "length (contents q) \<le> limit q"
  shows "contents q' = contents q @ xs \<and> limit q' = limit q \<and> length (contents q') \<le> limit q'"
proof (cases "length (contents q) + length xs \<le> limit q")
  case True
  with push_fits [OF True] assms(1) show ?thesis by auto
next
  case False
  with push_full [of q xs] assms show ?thesis by simp
qed

lemma push_False:
  assumes "push q xs = (False, q')" and "length (contents q) \<le> limit q"
  shows "q' = q \<and> limit q < length (contents q) + length xs"
proof (cases "length (contents q) + length xs \<le> limit q")
  case True
  with push_fits [OF True] assms(1) show ?thesis by auto
next
  case False
  with push_full [of q xs] assms show ?thesis by simp
qed

lemma push_all_fits:
  "length (contents q) + length (concat xss) \<le> limit q \<Longrightarrow>
   \<exists>q'. push_all push q xss = (True, q') \<and> contents q' = contents q @ concat xss \<and>
     limit q' = limit q"
proof (induction xss arbitrary: q)
  case Nil
  then show ?case by simp
next
  case (Cons xs xss)
  then have "length (contents q) + length xs \<le> limit q" by simp
  from push_fits [OF this] obtain q1
    where q1: "push q xs = (True, q1)" "contents q1 = contents q @ xs" "limit q1 = limit q"
    by blast
  moreover have "length (contents q1) + length (concat xss) \<le> limit q1"
    using Cons.prems q1 by simp
  from Cons.IH [OF this] obtain q2 where "push_all push q1 xss = (True, q2)"
    "contents q2 = contents q1 @ concat xss" "limit q2 = limit q1" by blast
  ultimately show ?case by simp
qed

lemma push_all_bounded:
  "push_all push q xss = (b, q') \<Longrightarrow> length (contents q) \<le> limit q \<Longrightarrow>
   limit q' = limit q \<and> length (contents q') \<le> limit q' \<and>
   (\<exists>yss zss. xss = yss @ zss \<and> contents q' = contents q @ concat yss \<and> (b \<longleftrightarrow> zss = []))"
proof (induction xss arbitrary: q)
  case Nil
  then show ?case by (intro conjI exI [of _ "[]"]) simp_all
next
  case (Cons xs xss)
  obtain c q1 where c: "push q xs = (c, q1)" by fastforce
  show ?case
  proof (cases c)
    case True
    with Cons.prems c have "push_all push q1 xss = (b, q')" by simp
    moreover have *: "contents q1 = contents q @ xs" "limit q1 = limit q"
        "length (contents q1) \<le> limit q1"
      using push_True [of q xs q1] c True Cons.prems(2) by auto
    ultimately obtain yss zss where "limit q' = limit q1" "length (contents q') \<le> limit q'"
        "xss = yss @ zss" "contents q' = contents q1 @ concat yss" "b \<longleftrightarrow> zss = []"
      using Cons.IH [of q1] by blast
    with * show ?thesis
      by (intro conjI exI [of _ "xs # yss"] exI [of _ zss]) simp_all
  next
    case False
    with c Cons.prems push_False [of q xs q1] have "q' = q" "\<not> b" by auto
    with Cons.prems show ?thesis
      by (intro conjI exI [of _ "[]"] exI [of _ "xs # xss"]) simp_all
  qed
qed

lemma push_all_True_iff:
  assumes "length (contents q) \<le> limit q"
  shows "fst (push_all push q xss) \<longleftrightarrow> length (contents q) + length (concat xss) \<le> limit q"
proof
  assume "length (contents q) + length (concat xss) \<le> limit q"
  from push_all_fits [OF this] show "fst (push_all push q xss)" by auto
next
  assume *: "fst (push_all push q xss)"
  obtain b q' where b: "push_all push q xss = (b, q')" by fastforce
  with * have "b" by simp
  then show "length (contents q) + length (concat xss) \<le> limit q"
    using push_all_bounded [OF b assms] by auto
qed

end

section \<open>ByteQueue\<close>

record byte_queue =
  q_bytes :: "byte deque"
  q_limit :: nat

definition bq_new :: "nat \<Rightarrow> byte_queue" where
  "bq_new limit = \<lparr>q_bytes = dq_new, q_limit = limit\<rparr>"

definition bq_push :: "byte_queue \<Rightarrow> byte list \<Rightarrow> bool \<times> byte_queue" where
  "bq_push q bytes =
     (if usize_saturating_sub (q_limit q) (dq_len (q_bytes q)) < length bytes then (False, q)
      else (True, q\<lparr>q_bytes := dq_extend (q_bytes q) bytes\<rparr>))"

definition bq_slice :: "byte_queue \<Rightarrow> byte list" where
  "bq_slice q =
     (if dq_first (q_bytes q) = [] then dq_second (q_bytes q) else dq_first (q_bytes q))"

definition bq_is_empty :: "byte_queue \<Rightarrow> bool" where
  "bq_is_empty q = dq_is_empty (q_bytes q)"

definition bq_contents :: "byte_queue \<Rightarrow> byte list" where
  "bq_contents q = dq_contents (q_bytes q)"

definition bq_wf :: "byte_queue \<Rightarrow> bool" where
  "bq_wf q \<longleftrightarrow> length (bq_contents q) \<le> q_limit q"

lemma bq_slice_prefix: "\<exists>rest. bq_contents q = bq_slice q @ rest"
  by (auto simp: bq_contents_def bq_slice_def dq_contents_def)

lemma bq_slice_nonempty: "bq_contents q \<noteq> [] \<Longrightarrow> bq_slice q \<noteq> []"
  by (simp add: bq_contents_def bq_slice_def dq_contents_def)

lemma bq_contents_drain:
  "bq_contents (q\<lparr>q_bytes := dq_drain n (q_bytes q)\<rparr>) = drop n (bq_contents q)"
  by (simp add: bq_contents_def)

lemma bq_is_empty_iff [simp]: "bq_is_empty q \<longleftrightarrow> bq_contents q = []"
  by (simp add: bq_is_empty_def bq_contents_def)

function bq_flush :: "(byte_queue \<times> writer, unit) io" where
  "bq_flush (q, output) =
     (if bq_is_empty q then (Inr (), (q, output))
      else case write_once (bq_slice q) output of
        (Inr written, output') \<Rightarrow>
          if written = 0 then (Inl (io_error_new WriteZero), (q, output'))
          else bq_flush (q\<lparr>q_bytes := dq_drain written (q_bytes q)\<rparr>, output')
      | (Inl e, output') \<Rightarrow>
          if err_kind e = WouldBlock then (Inr (), (q, output'))
          else if err_kind e = Interrupted then bq_flush (q, output')
          else (Inl e, (q, output')))"
  by pat_completeness auto
termination
proof (relation "measure (\<lambda>(q, w). length (bq_contents q) + length (write_plan w))", goal_cases)
  case (2 q w p w')
  then show ?case
    using write_once_measure [of "bq_slice q" w p w'] bq_slice_nonempty [of q]
    by (auto dest: sym)
next
  case (3 q w p w')
  then show ?case
    using write_once_measure [of "bq_slice q" w p w'] bq_slice_nonempty [of q]
    by (auto simp: bq_contents_drain dest: sym)
qed simp

declare bq_flush.simps [simp del]

section \<open>Laws\<close>

lemma bq_contents_new [simp]: "bq_contents (bq_new n) = []"
  by (simp add: bq_contents_def bq_new_def)

lemma q_limit_new [simp]: "q_limit (bq_new n) = n"
  by (simp add: bq_new_def)

lemma bq_wf_new [simp]: "bq_wf (bq_new n)"
  by (simp add: bq_wf_def)

lemma bq_push_eq:
  "bq_push q xs =
     (if q_limit q - length (bq_contents q) < length xs then (False, q)
      else (True, q\<lparr>q_bytes := dq_extend (q_bytes q) xs\<rparr>))"
  by (simp add: bq_push_def bq_contents_def)

lemma bq_contents_push: "bq_contents (q\<lparr>q_bytes := dq_extend (q_bytes q) xs\<rparr>) = bq_contents q @ xs"
  by (simp add: bq_contents_def)

interpretation bq: bounded_queue bq_contents q_limit bq_push
  by unfold_locales (auto simp: bq_push_eq bq_contents_push)

text \<open>One call of \<open>flush\<close> moves a prefix of the queue to the writer and keeps the rest.\<close>

lemma bq_flush_moves:
  "bq_flush (q, w) = (r, (q', w')) \<Longrightarrow>
   \<exists>n \<le> length (bq_contents q). bq_contents q' = drop n (bq_contents q) \<and>
     sink w' = sink w @ take n (bq_contents q) \<and> q_limit q' = q_limit q"
proof (induction "(q, w)" arbitrary: q w rule: bq_flush.induct)
  case (1 q w)
  show ?case
  proof (cases "bq_contents q = []")
    case True
    with "1.prems" show ?thesis by (simp add: bq_flush.simps [of q w])
  next
    case False
    obtain p w1 where p: "write_once (bq_slice q) w = (p, w1)" by fastforce
    show ?thesis
    proof (cases p)
      case (Inl e)
      then have "sink w1 = sink w" using p write_once_Inl by blast
      with "1.hyps"(1) [OF _ p [symmetric] Inl] "1.prems" False p Inl show ?thesis
        by (cases "err_kind e = WouldBlock"; cases "err_kind e = Interrupted")
          (auto simp: bq_flush.simps [of q w] intro!: exI [of _ 0])
    next
      case (Inr n)
      with p have n: "n \<le> length (bq_slice q)" "sink w1 = sink w @ take n (bq_slice q)"
        using write_once_Inr by blast+
      obtain rest where rest: "bq_contents q = bq_slice q @ rest"
        using bq_slice_prefix by blast
      show ?thesis
      proof (cases "n = 0")
        case True
        with "1.prems" False p Inr n show ?thesis
          by (auto simp: bq_flush.simps [of q w])
      next
        case n0: False
        let ?q = "q\<lparr>q_bytes := dq_drain n (q_bytes q)\<rparr>"
        from "1.prems" False p Inr n0 have "bq_flush (?q, w1) = (r, (q', w'))"
          by (simp add: bq_flush.simps [of q w])
        then obtain m where m: "m \<le> length (bq_contents ?q)"
            "bq_contents q' = drop m (bq_contents ?q)"
            "sink w' = sink w1 @ take m (bq_contents ?q)" "q_limit q' = q_limit ?q"
          using "1.hyps"(2) [OF _ p [symmetric] Inr n0] False by auto
        then show ?thesis
          using n rest
          by (intro exI [of _ "n + m"]) (auto simp: bq_contents_drain take_add add.commute [of m n])
      qed
    qed
  qed
qed

lemma bq_flush_conserves:
  "bq_flush (q, w) = (r, (q', w')) \<Longrightarrow> sink w' @ bq_contents q' = sink w @ bq_contents q"
  using bq_flush_moves [of q w r q' w'] by auto

lemma bq_flush_wf: "bq_flush (q, w) = (r, (q', w')) \<Longrightarrow> bq_wf q \<Longrightarrow> bq_wf q'"
  using bq_flush_moves [of q w r q' w'] by (auto simp: bq_wf_def)

text \<open>A writer that only ever takes something, or is interrupted, gets the whole queue.\<close>

fun accepting :: "write_response list \<Rightarrow> bool" where
  "accepting [] = True"
| "accepting (Took n # p) = (0 < n \<and> accepting p)"
| "accepting (Write_fails e # p) = (err_kind e = Interrupted \<and> accepting p)"

lemma write_once_accepting:
  "write_once xs w = (r, w') \<Longrightarrow> accepting (write_plan w) \<Longrightarrow> xs \<noteq> [] \<Longrightarrow>
   accepting (write_plan w') \<and>
   (case r of Inl e \<Rightarrow> err_kind e = Interrupted | Inr n \<Rightarrow> 0 < n)"
  by (auto simp: write_once_def split: list.splits write_response.splits)

lemma bq_flush_accepting:
  "accepting (write_plan w) \<Longrightarrow>
   \<exists>q' w'. bq_flush (q, w) = (Inr (), (q', w')) \<and> bq_contents q' = [] \<and>
     sink w' = sink w @ bq_contents q"
proof (induction "(q, w)" arbitrary: q w rule: bq_flush.induct)
  case (1 q w)
  show ?case
  proof (cases "bq_contents q = []")
    case True
    then show ?thesis by (simp add: bq_flush.simps [of q w])
  next
    case False
    obtain p w1 where p: "write_once (bq_slice q) w = (p, w1)" by fastforce
    note acc = write_once_accepting [OF p "1.prems" bq_slice_nonempty [OF False]]
    show ?thesis
    proof (cases p)
      case (Inl e)
      with acc have "err_kind e = Interrupted" "accepting (write_plan w1)" by auto
      with "1.hyps"(1) [OF _ p [symmetric] Inl] False p Inl write_once_Inl [of "bq_slice q" w e w1]
      show ?thesis by (simp add: bq_flush.simps [of q w])
    next
      case (Inr n)
      with acc have n: "n \<noteq> 0" "accepting (write_plan w1)" by auto
      obtain q' w' where f: "bq_flush (q\<lparr>q_bytes := dq_drain n (q_bytes q)\<rparr>, w1) = (Inr (), (q', w'))"
        and e: "bq_contents q' = []"
        using "1.hyps"(2) [OF _ p [symmetric] Inr n(1) n(2)] False by auto
      then have "bq_flush (q, w) = (Inr (), (q', w'))"
        using False p Inr n by (simp add: bq_flush.simps [of q w])
      with bq_flush_conserves [OF this] e show ?thesis by auto
    qed
  qed
qed

lemma bq_flush_vec:
  assumes "write_plan w = []"
  shows "\<exists>q' w'. bq_flush (q, w) = (Inr (), (q', w')) \<and> bq_contents q' = [] \<and>
     sink w' = sink w @ bq_contents q"
  using assms by (intro bq_flush_accepting) simp


lemma write_once_Inl_plan: "write_once xs w = (Inl e, w') \<Longrightarrow> Write_fails e \<in> set (write_plan w)"
  by (auto simp: write_once_def split: list.splits write_response.splits)

lemma write_once_plan: "write_once xs w = (r, w') \<Longrightarrow> set (write_plan w') \<subseteq> set (write_plan w)"
  by (auto simp: write_once_def split: list.splits write_response.splits)

lemma bq_flush_result:
  "bq_flush (q, w) = (r, (q', w')) \<Longrightarrow>
   (case r of
      Inr _ \<Rightarrow> bq_contents q' = [] \<or>
        (\<exists>e. Write_fails e \<in> set (write_plan w) \<and> err_kind e = WouldBlock)
    | Inl e \<Rightarrow> e = io_error_new WriteZero \<or>
        (Write_fails e \<in> set (write_plan w) \<and> err_kind e \<noteq> WouldBlock \<and>
         err_kind e \<noteq> Interrupted))"
proof (induction "(q, w)" arbitrary: q w rule: bq_flush.induct)
  case (1 q w)
  show ?case
  proof (cases "bq_contents q = []")
    case True
    with "1.prems" show ?thesis by (auto simp: bq_flush.simps [of q w])
  next
    case False
    obtain p w1 where p: "write_once (bq_slice q) w = (p, w1)" by fastforce
    note plan = write_once_plan [OF p]
    show ?thesis
    proof (cases p)
      case (Inl e)
      note now = write_once_Inl_plan [of "bq_slice q" w e w1]
      show ?thesis
      proof (cases "err_kind e = Interrupted")
        case True
        with "1.prems" False p Inl have "bq_flush (q, w1) = (r, (q', w'))"
          by (simp add: bq_flush.simps [of q w])
        with "1.hyps"(1) [OF _ p [symmetric] Inl] False True plan show ?thesis
          by (fastforce split: sum.splits)
      next
        case int: False
        with "1.prems" False p Inl now show ?thesis
          by (auto simp: bq_flush.simps [of q w] split: if_splits)
      qed
    next
      case (Inr n)
      show ?thesis
      proof (cases "n = 0")
        case True
        with "1.prems" False p Inr show ?thesis by (auto simp: bq_flush.simps [of q w])
      next
        case n: False
        with "1.prems" False p Inr
        have "bq_flush (q\<lparr>q_bytes := dq_drain n (q_bytes q)\<rparr>, w1) = (r, (q', w'))"
          by (simp add: bq_flush.simps [of q w])
        with "1.hyps"(2) [OF _ p [symmetric] Inr n] False plan show ?thesis
          by (fastforce split: sum.splits)
      qed
    qed
  qed
qed

section \<open>Any sequence of pushes and flushes\<close>

datatype queue_op = Push "byte list" | Flush

text \<open>The third component collects the pushes the queue accepted.\<close>

fun bq_run :: "queue_op list \<Rightarrow> byte_queue \<Rightarrow> writer \<Rightarrow> byte list \<Rightarrow> byte_queue \<times> writer \<times> byte list" where
  "bq_run [] q w acc = (q, w, acc)"
| "bq_run (Push xs # ops) q w acc =
     (let (ok, q') = bq_push q xs in bq_run ops q' w (if ok then acc @ xs else acc))"
| "bq_run (Flush # ops) q w acc =
     (let (r, (q', w')) = bq_flush (q, w) in bq_run ops q' w' acc)"

lemma bq_run_fifo:
  "bq_run ops q w acc = (q', w', acc') \<Longrightarrow> bq_wf q \<Longrightarrow> sink w @ bq_contents q = pre @ acc \<Longrightarrow>
   sink w' @ bq_contents q' = pre @ acc' \<and> bq_wf q' \<and> q_limit q' = q_limit q"
proof (induction ops q w acc rule: bq_run.induct)
  case (1 q w acc)
  then show ?case by simp
next
  case (2 xs ops q w acc)
  obtain ok q1 where b: "bq_push q xs = (ok, q1)" by fastforce
  show ?case
  proof (cases ok)
    case True
    with bq.push_True [of q xs q1] b 2(3)
    have *: "bq_contents q1 = bq_contents q @ xs" "q_limit q1 = q_limit q" "bq_wf q1"
      by (auto simp: bq_wf_def)
    with 2(1) [OF b [symmetric]] 2(2,4) b True show ?thesis by simp
  next
    case False
    with bq.push_False [of q xs q1] b 2(3) have "q1 = q" by (auto simp: bq_wf_def)
    with 2(1) [OF b [symmetric]] 2(2-) b False show ?thesis by simp
  qed
next
  case (3 ops q w acc)
  obtain r q1 w1 where f: "bq_flush (q, w) = (r, (q1, w1))" by (metis prod.exhaust)
  have "sink w1 @ bq_contents q1 = pre @ acc" "bq_wf q1"
    using bq_flush_conserves [OF f] bq_flush_wf [OF f] 3 by auto
  moreover have "q_limit q1 = q_limit q"
    using bq_flush_moves [OF f] by blast
  ultimately show ?case using 3(1) [OF f [symmetric] refl refl] 3(2) f by simp
qed

section \<open>Properties\<close>

text \<open>
  C31: Through any sequence of pushes and flushes, with any short writes, interruptions and
  errors of the writer, the bytes written out followed by the bytes still queued are the
  accepted pushes in order, and the queue never holds more than its limit.
\<close>

theorem queue_is_bounded_fifo:
  "case bq_run ops (bq_new n) w [] of (q', w', accepted) \<Rightarrow>
     sink w' @ bq_contents q' = sink w @ accepted \<and> length (bq_contents q') \<le> n"
proof (cases "bq_run ops (bq_new n) w []")
  case (fields q' w' accepted)
  from bq_run_fifo [OF this, of "sink w"] show ?thesis
    by (simp add: fields bq_wf_def)
qed

text \<open>
  A push is all or nothing: it succeeds exactly when the bytes fit below the limit, and a
  refused push leaves the queue as it was.
\<close>

theorem push_all_or_nothing:
  assumes "length (bq_contents q) \<le> q_limit q"
  shows "\<exists>ok q'. bq_push q xs = (ok, q') \<and>
    (ok \<longleftrightarrow> length (bq_contents q) + length xs \<le> q_limit q) \<and>
    bq_contents q' = (if ok then bq_contents q @ xs else bq_contents q) \<and>
    q_limit q' = q_limit q"
  using bq.push_fits [of q xs] bq.push_full [of q xs] assms
  by (cases "length (bq_contents q) + length xs \<le> q_limit q") auto

theorem push_all_or_nothing_witness:
  "\<exists>ok q'. bq_push (bq_new 2) [7, 8, 9] = (ok, q') \<and>
    (ok \<longleftrightarrow> length (bq_contents (bq_new 2)) + length [7 :: byte, 8, 9] \<le> q_limit (bq_new 2)) \<and>
    bq_contents q' = (if ok then bq_contents (bq_new 2) @ [7, 8, 9] else bq_contents (bq_new 2)) \<and>
    q_limit q' = q_limit (bq_new 2)"
  by (rule push_all_or_nothing) simp

text \<open>
  What a flush reports.  \<open>Ok\<close> means that the queue is empty or the writer would block;
  an error is the writer's own, and neither \<open>WouldBlock\<close> nor \<open>Interrupted\<close>, or
  \<open>WriteZero\<close>; in every case the bytes written are the front of the queue and the rest is
  kept.
\<close>

theorem flush_outcome:
  assumes "bq_flush (q, w) = (r, (q', w'))"
  shows "\<exists>n. n \<le> length (bq_contents q) \<and> sink w' = sink w @ take n (bq_contents q) \<and>
     bq_contents q' = drop n (bq_contents q) \<and>
     (case r of
        Inr _ \<Rightarrow> bq_contents q' = [] \<or>
          (\<exists>e. Write_fails e \<in> set (write_plan w) \<and> err_kind e = WouldBlock)
      | Inl e \<Rightarrow> e = io_error_new WriteZero \<or>
          (Write_fails e \<in> set (write_plan w) \<and> err_kind e \<noteq> WouldBlock \<and>
           err_kind e \<noteq> Interrupted))"
  using bq_flush_moves [OF assms] bq_flush_result [OF assms] by blast

theorem flush_outcome_witness:
  "\<exists>n. n \<le> 3 \<and>
     [1, 2] = [] @ take n [1, 2, 3 :: byte] \<and> [3] = drop n [1, 2, 3 :: byte]"
proof -
  let ?q = "\<lparr>q_bytes = \<lparr>dq_first = [1], dq_second = [2, 3]\<rparr>, q_limit = 4\<rparr>"
  let ?q' = "\<lparr>q_bytes = \<lparr>dq_first = [3], dq_second = []\<rparr>, q_limit = 4\<rparr>"
  let ?plan = "[Took 5, Write_fails (io_error_new Interrupted), Took 1,
      Write_fails (io_error_new WouldBlock)]"
  let ?w = "vec_writer\<lparr>write_plan := ?plan\<rparr>"
  have "bq_flush (?q, ?w) = (Inr (), (?q', vec_writer\<lparr>sink := [1, 2]\<rparr>))"
    by (simp add: bq_flush.simps write_once_def bq_slice_def dq_drain_def bq_contents_def
        dq_contents_def vec_writer_def)
  from flush_outcome [OF this] obtain n where "n \<le> length (bq_contents ?q)"
    "sink (vec_writer\<lparr>sink := [1, 2]\<rparr>) = sink ?w @ take n (bq_contents ?q)"
    "bq_contents ?q' = drop n (bq_contents ?q)" by blast
  then show ?thesis
    by (intro exI [of _ n]) (simp add: bq_contents_def dq_contents_def vec_writer_def)
qed

end
