(* ===== verification/Startup.thy ===== *)
theory Startup
  imports Cli Platform_Unix Byte_Queue
begin

text \<open>
  src/runner.rs, what the launcher and the new runner say to each other over the socket that
  is the runner's standard input: the startup configuration and the one-byte response.
\<close>

section \<open>The configuration\<close>

record startup_config =
  sc_trace :: bool
  sc_command :: "os_string list"
  sc_rows :: u16
  sc_columns :: u16

definition STARTUP_READY :: byte where "STARTUP_READY = 0"
definition STARTUP_EXISTS :: byte where "STARTUP_EXISTS = 1"
definition STARTUP_FAILED :: byte where "STARTUP_FAILED = 2"

fun write_arguments :: "os_string list \<Rightarrow> (writer, unit) io" where
  "write_arguments [] = io_ok ()"
| "write_arguments (argument # command) =
     (if 2 ^ 32 \<le> length argument then io_fail (io_error_new InvalidInput)
      else
        io_try (write_all (u32_to_be_bytes (word_of_nat (length argument)))) (\<lambda>_.
        io_try (write_all argument) (\<lambda>_.
        write_arguments command)))"

definition write_startup_config :: "bool \<Rightarrow> os_string list \<Rightarrow> u16 \<Rightarrow> u16 \<Rightarrow> (writer, unit) io" where
  "write_startup_config trace command rows columns =
     (if 2 ^ 16 \<le> length command then io_fail (io_error_new InvalidInput)
      else
        io_try (write_all (u16_to_be_bytes rows)) (\<lambda>_.
        io_try (write_all (u16_to_be_bytes columns)) (\<lambda>_.
        io_try (write_all [if trace then 1 else 0]) (\<lambda>_.
        io_try (write_all (u16_to_be_bytes (word_of_nat (length command)))) (\<lambda>_.
        io_try (write_arguments command) (\<lambda>_.
        flush_once))))))"

definition read_u8 :: "(reader, byte) io" where
  "read_u8 = io_try (read_exact 1) (\<lambda>bytes. io_ok (bytes ! 0))"

definition read_u16 :: "(reader, u16) io" where
  "read_u16 = io_try (read_exact 2) (\<lambda>bytes. io_ok (u16_from_be_bytes (bytes ! 0) (bytes ! 1)))"

definition read_u32 :: "(reader, u32) io" where
  "read_u32 = io_try (read_exact 4) (\<lambda>bytes.
     io_ok (u32_from_be_bytes (bytes ! 0) (bytes ! 1) (bytes ! 2) (bytes ! 3)))"

fun read_arguments :: "nat \<Rightarrow> nat \<Rightarrow> os_string list \<Rightarrow> (reader, os_string list) io" where
  "read_arguments 0 aggregate command = io_ok command"
| "read_arguments (Suc n) aggregate command =
     io_try read_u32 (\<lambda>len.
       case usize_checked_add aggregate (unat len) of
         None \<Rightarrow> io_fail (io_error_new InvalidData)
       | Some amount \<Rightarrow>
           if MAX_COMMAND_BYTES < amount then io_fail (io_error_new InvalidData)
           else io_try (read_exact (unat len)) (\<lambda>bytes. read_arguments n amount (command @ [bytes])))"

definition read_startup_config :: "(reader, startup_config) io" where
  "read_startup_config =
     io_try read_u16 (\<lambda>rows.
     io_try read_u16 (\<lambda>columns.
     io_try read_u8 (\<lambda>option.
       if option \<noteq> 0 \<and> option \<noteq> 1 then io_fail (io_error_new InvalidData)
       else if rows = 0 \<or> columns = 0 \<or> 4096 < rows \<or> 4096 < columns
       then io_fail (io_error_new InvalidData)
       else io_try read_u16 (\<lambda>count.
         if MAX_COMMAND_ARGUMENTS < unat count then io_fail (io_error_new InvalidData)
         else io_try (read_arguments (unat count) 0 []) (\<lambda>command.
           io_ok \<lparr>sc_trace = (option = 1), sc_command = command, sc_rows = rows, sc_columns = columns\<rparr>)))))"

text \<open>\<open>write\_startup\_response\<close> writes to the descriptor itself and goes on after \<open>EINTR\<close>.\<close>

function write_response_bytes :: "byte list \<Rightarrow> (writer, unit) io" where
  "write_response_bytes remaining w =
     (if remaining = [] then (Inr (), w)
      else case write_once remaining w of
        (Inr n, w') \<Rightarrow>
          if n = 0 then (Inl (io_error_new WriteZero), w') else write_response_bytes (drop n remaining) w'
      | (Inl e, w') \<Rightarrow>
          if raw_os_error e = Some EINTR then write_response_bytes remaining w' else (Inl e, w'))"
  by pat_completeness auto
termination
  by (relation "measure (\<lambda>(xs, w). length xs + length (write_plan w))")
    (auto dest!: sym [of "(_, _)"] write_once_measure dest: write_once_Inr)

declare write_response_bytes.simps [simp del]

definition write_startup_response :: "byte \<Rightarrow> (writer, unit) io" where
  "write_startup_response response = write_response_bytes [response]"

section \<open>What is written\<close>

definition argument_bytes :: "os_string list \<Rightarrow> byte list" where
  "argument_bytes command = concat (map (\<lambda>a. u32_to_be_bytes (word_of_nat (length a)) @ a) command)"

definition config_bytes :: "startup_config \<Rightarrow> byte list" where
  "config_bytes c =
     u16_to_be_bytes (sc_rows c) @ u16_to_be_bytes (sc_columns c) @ [if sc_trace c then 1 else 0] @
     u16_to_be_bytes (word_of_nat (length (sc_command c))) @ argument_bytes (sc_command c)"

definition config_ok :: "startup_config \<Rightarrow> bool" where
  "config_ok c \<longleftrightarrow> command_fits (sc_command c) \<and>
     1 \<le> sc_rows c \<and> sc_rows c \<le> 4096 \<and> 1 \<le> sc_columns c \<and> sc_columns c \<le> 4096"

lemma write_all_Inr: "write_all xs w = (Inr u, w') \<Longrightarrow> sink w' = sink w @ xs"
  using write_all_sink [of xs w "Inr u" w'] by auto

lemma flush_once_sink: "flush_once w = (r, w') \<Longrightarrow> sink w' = sink w"
  by (auto simp: flush_once_def split: list.splits option.splits)

lemma write_arguments_Inr:
  "write_arguments command w = (Inr u, w') \<Longrightarrow> sink w' = sink w @ argument_bytes command"
  by (induction command arbitrary: w)
    (auto simp: io_simps argument_bytes_def split: if_splits sum.splits prod.splits dest!: write_all_Inr)

lemma write_startup_config_Inr:
  assumes "write_startup_config trace command rows columns w = (Inr u, w')"
  shows "sink w' = sink w @ config_bytes \<lparr>sc_trace = trace, sc_command = command, sc_rows = rows, sc_columns = columns\<rparr>"
  using assms
  by (auto simp: write_startup_config_def config_bytes_def io_simps split: if_splits sum.splits prod.splits
      dest!: write_all_Inr write_arguments_Inr flush_once_sink)

text \<open>A writer that takes everything gets the whole configuration.\<close>

lemma write_arguments_vec:
  "write_plan w = [] \<Longrightarrow> \<forall>a \<in> set command. length a < 2 ^ 32 \<Longrightarrow>
   write_arguments command w = (Inr (), w\<lparr>sink := sink w @ argument_bytes command\<rparr>)"
  by (induction command arbitrary: w) (auto simp: io_simps argument_bytes_def write_all_vec not_le)

lemma command_fits_small:
  assumes "command_fits command" and "a \<in> set command"
  shows "length a \<le> MAX_COMMAND_BYTES"
proof -
  have "length a \<le> length (concat command)"
    using assms(2) by (induction command) auto
  then show ?thesis using assms(1) by (simp add: command_fits_def)
qed

lemma write_startup_config_vec:
  assumes "write_plan w = []" and "flush_plan w = []" and "command_fits command"
  shows "\<exists>w'. write_startup_config trace command rows columns w = (Inr (), w') \<and> write_plan w' = []"
proof -
  have "length command < 2 ^ 16" "\<forall>a \<in> set command. length a < 2 ^ 32"
    using assms(3) command_fits_small [OF assms(3)] by (fastforce simp: command_fits_def limits)+
  then show ?thesis
    using assms(1,2)
    by (simp add: write_startup_config_def io_simps write_all_vec write_arguments_vec flush_once_def not_le)
qed

section \<open>What is read\<close>

lemma read_u8_delivers:
  assumes "delivers rd ([b] @ rest)"
  obtains rd' where "read_u8 rd = (Inr b, rd')" "delivers rd' rest"
  using read_exact_delivers [OF assms, of 1] by (auto simp: read_u8_def io_simps)

lemma read_u16_delivers:
  assumes "delivers rd (u16_to_be_bytes w @ rest)"
  obtains rd' where "read_u16 rd = (Inr w, rd')" "delivers rd' rest"
  using read_exact_delivers [OF assms, of 2] u16_be_roundtrip [of w]
  by (auto simp: read_u16_def io_simps u16_to_be_bytes_def)

lemma read_u32_delivers:
  assumes "delivers rd (u32_to_be_bytes w @ rest)"
  obtains rd' where "read_u32 rd = (Inr w, rd')" "delivers rd' rest"
proof -
  obtain rd' where "read_exact 4 rd = (Inr (u32_to_be_bytes w), rd')" "delivers rd' rest"
    using read_exact_delivers [OF assms, of 4] by auto
  then show thesis
    using that u32_be_roundtrip [of w] by (simp add: read_u32_def io_simps u32_to_be_bytes_def)
qed

lemma read_arguments_delivers:
  "delivers rd (argument_bytes command @ rest) \<Longrightarrow> aggregate + length (concat command) \<le> MAX_COMMAND_BYTES \<Longrightarrow>
   \<exists>rd'. read_arguments (length command) aggregate before rd = (Inr (before @ command), rd') \<and> delivers rd' rest"
proof (induction command arbitrary: rd aggregate before)
  case Nil
  then show ?case by (simp add: io_simps argument_bytes_def)
next
  case (Cons a command)
  let ?n = "word_of_nat (length a) :: u32"
  have len: "unat ?n = length a" "length a \<le> MAX_COMMAND_BYTES" "aggregate + length a \<le> MAX_COMMAND_BYTES"
    using Cons.prems(2) by (auto simp: unat_of_nat limits take_bit_nat_eq_self)
  then have add: "usize_checked_add aggregate (length a) = Some (aggregate + length a)"
    by (simp add: usize_checked_add_def usize_max_def limits)
  have "delivers rd (u32_to_be_bytes ?n @ (a @ (argument_bytes command @ rest)))"
    using Cons.prems(1) by (simp add: argument_bytes_def)
  then obtain rd1 where rd1: "read_u32 rd = (Inr ?n, rd1)" "delivers rd1 (a @ (argument_bytes command @ rest))"
    by (rule read_u32_delivers)
  obtain rd2 where rd2: "read_exact (length a) rd1 = (Inr a, rd2)" "delivers rd2 (argument_bytes command @ rest)"
    using read_exact_delivers [OF rd1(2) refl] by blast
  have "aggregate + length a + length (concat command) \<le> MAX_COMMAND_BYTES" using Cons.prems(2) by simp
  from Cons.IH [OF rd2(2) this, of "before @ [a]"] rd1(1) rd2(1) len add show ?case
    by (simp add: io_simps)
qed

lemma read_config_delivers:
  assumes "delivers rd (config_bytes c @ rest)" and "config_ok c"
  obtains rd' where "read_startup_config rd = (Inr c, rd')" "delivers rd' rest"
proof -
  let ?n = "word_of_nat (length (sc_command c)) :: u16"
  let ?t = "if sc_trace c then 1 else 0 :: byte"
  have n: "unat ?n = length (sc_command c)" "length (sc_command c) \<le> MAX_COMMAND_ARGUMENTS"
    "0 + length (concat (sc_command c)) \<le> MAX_COMMAND_BYTES"
    using assms(2) by (auto simp: config_ok_def command_fits_def unat_of_nat limits take_bit_nat_eq_self)
  have "delivers rd (u16_to_be_bytes (sc_rows c) @ (u16_to_be_bytes (sc_columns c) @ ([?t] @
      (u16_to_be_bytes ?n @ (argument_bytes (sc_command c) @ rest)))))"
    using assms(1) by (simp add: config_bytes_def)
  then obtain r1 where r1: "read_u16 rd = (Inr (sc_rows c), r1)" "delivers r1 (u16_to_be_bytes (sc_columns c) @ ([?t] @
      (u16_to_be_bytes ?n @ (argument_bytes (sc_command c) @ rest))))"
    by (rule read_u16_delivers)
  obtain r2 where r2: "read_u16 r1 = (Inr (sc_columns c), r2)" "delivers r2 ([?t] @
      (u16_to_be_bytes ?n @ (argument_bytes (sc_command c) @ rest)))"
    by (rule read_u16_delivers [OF r1(2)])
  obtain r3 where r3: "read_u8 r2 = (Inr ?t, r3)" "delivers r3 (u16_to_be_bytes ?n @ (argument_bytes (sc_command c) @ rest))"
    by (rule read_u8_delivers [OF r2(2)])
  obtain r4 where r4: "read_u16 r3 = (Inr ?n, r4)" "delivers r4 (argument_bytes (sc_command c) @ rest)"
    by (rule read_u16_delivers [OF r3(2)])
  obtain r5 where r5: "read_arguments (length (sc_command c)) 0 [] r4 = (Inr ([] @ sc_command c), r5)" "delivers r5 rest"
    using read_arguments_delivers [OF r4(2) n(3), of "[]"] by blast
  have dims: "\<not> (sc_rows c = 0 \<or> sc_columns c = 0 \<or> 4096 < sc_rows c \<or> 4096 < sc_columns c)"
    using assms(2) by (auto simp: config_ok_def)
  have "read_startup_config rd = (Inr c, r5)"
    using r1(1) r2(1) r3(1) r4(1) r5(1) n dims
    by (cases c; cases "sc_trace c") (simp_all add: read_startup_config_def io_simps)
  then show thesis using that r5(2) by blast
qed

text \<open>Whatever was sent, what is accepted is within the limits.\<close>

lemma read_arguments_bounds:
  "read_arguments n aggregate before rd = (Inr command, rd') \<Longrightarrow> aggregate \<le> MAX_COMMAND_BYTES \<Longrightarrow>
   \<exists>new. command = before @ new \<and> length new = n \<and> aggregate + length (concat new) \<le> MAX_COMMAND_BYTES"
proof (induction n arbitrary: aggregate before rd)
  case 0
  then show ?case by (simp add: io_simps)
next
  case (Suc n)
  obtain len rd1 bytes rd2 amount where rd: "read_u32 rd = (Inr len, rd1)" "read_exact (unat len) rd1 = (Inr bytes, rd2)"
    "usize_checked_add aggregate (unat len) = Some amount" "amount \<le> MAX_COMMAND_BYTES"
    "read_arguments n amount (before @ [bytes]) rd2 = (Inr command, rd')"
    using Suc.prems(1) by (auto simp: io_simps not_less split: prod.splits sum.splits option.splits if_splits)
  from Suc.IH [OF rd(5,4)] obtain new where "command = (before @ [bytes]) @ new" "length new = n"
    "amount + length (concat new) \<le> MAX_COMMAND_BYTES" by blast
  moreover have "amount = aggregate + length bytes"
    using rd(3) read_exact_length [OF rd(2)] by (simp add: usize_checked_add_def split: if_splits)
  ultimately show ?case by (intro exI [of _ "bytes # new"]) simp
qed

lemma one_le_word: "w \<noteq> 0 \<Longrightarrow> 1 \<le> (w :: u16)"
  using unat_eq_zero [of w] by (simp add: word_le_nat_alt)

lemma read_config_ok:
  assumes "read_startup_config rd = (Inr c, rd')"
  shows "config_ok c"
proof -
  obtain count r1 command where a: "read_arguments (unat count) 0 [] r1 = (Inr command, rd')"
    "unat (count :: u16) \<le> MAX_COMMAND_ARGUMENTS" "command = sc_command c"
    "sc_rows c \<noteq> 0 \<and> sc_rows c \<le> 4096 \<and> sc_columns c \<noteq> 0 \<and> sc_columns c \<le> 4096"
    using assms
    by (auto simp: read_startup_config_def io_simps not_less
        split: prod.splits sum.splits if_splits)
  have "length command \<le> MAX_COMMAND_ARGUMENTS \<and> length (concat command) \<le> MAX_COMMAND_BYTES"
    using read_arguments_bounds [OF a(1)] a(2) by auto
  then show ?thesis using a(3,4) by (simp add: config_ok_def command_fits_def one_le_word)
qed


section \<open>The response\<close>

lemma decode_EINTR: "decode_error_kind code = Interrupted \<longleftrightarrow> code = EINTR"
  by (simp add: decode_error_kind_def EINTR_def)

text \<open>Errors of a descriptor, which come from \<open>errno\<close>.\<close>

definition errno_plan :: "write_response list \<Rightarrow> bool" where
  "errno_plan p \<longleftrightarrow> (\<forall>e. Write_fails e \<in> set p \<longrightarrow> (\<exists>code. e = io_error_from_errno code))"

lemma write_once_errno:
  assumes "write_once xs w = (r, w')" and "errno_plan (write_plan w)"
  shows "errno_plan (write_plan w') \<and> (\<forall>e. r = Inl e \<longrightarrow> (raw_os_error e = Some EINTR \<longleftrightarrow> err_kind e = Interrupted))"
proof -
  have "errno_plan (write_plan w')"
    using write_once_plan [OF assms(1)] assms(2) by (auto simp: errno_plan_def)
  moreover have "raw_os_error e = Some EINTR \<longleftrightarrow> err_kind e = Interrupted" if r: "r = Inl e" for e
  proof -
    obtain code where "e = io_error_from_errno code"
      using write_once_Inl_plan [of xs w e w'] assms r by (auto simp: errno_plan_def)
    then show ?thesis by (simp add: io_error_from_errno_def decode_EINTR)
  qed
  ultimately show ?thesis by blast
qed

lemma write_response_bytes_all:
  "errno_plan (write_plan w) \<Longrightarrow> write_response_bytes xs w = write_all xs w"
proof (induction xs w rule: write_response_bytes.induct)
  case (1 xs w)
  show ?case
  proof (cases "xs = []")
    case True
    then show ?thesis by (simp add: write_response_bytes.simps [of "[]" w])
  next
    case False
    obtain q w1 where q: "write_once xs w = (q, w1)" by fastforce
    note e = write_once_errno [OF q "1.prems"]
    show ?thesis
    proof (cases q)
      case (Inl err)
      then show ?thesis
        using e "1.IH"(1) [OF False q [symmetric] Inl] False q
        by (simp add: write_response_bytes.simps [of xs w] write_all.simps [of xs w])
    next
      case (Inr n)
      then show ?thesis
        using e "1.IH"(2) [OF False q [symmetric] Inr] False q
        by (cases "n = 0") (simp_all add: write_response_bytes.simps [of xs w] write_all.simps [of xs w])
    qed
  qed
qed

section \<open>Properties\<close>

text \<open>
  C39: The configuration a launcher has written comes out of the new runner as it was, in
  whatever pieces the socket delivers it and however often the reads are interrupted, for
  every command and size within the limits.
\<close>

theorem startup_config_round_trip:
  assumes "write_startup_config trace command rows columns w = (Inr (), w')"
    and "delivers rd (drop (length (sink w)) (sink w') @ rest)"
    and "command_fits command" and "1 \<le> rows" "rows \<le> 4096" "1 \<le> columns" "columns \<le> 4096"
  shows "\<exists>rd'. read_startup_config rd =
      (Inr \<lparr>sc_trace = trace, sc_command = command, sc_rows = rows, sc_columns = columns\<rparr>, rd') \<and> delivers rd' rest"
proof -
  let ?c = "\<lparr>sc_trace = trace, sc_command = command, sc_rows = rows, sc_columns = columns\<rparr>"
  have "delivers rd (config_bytes ?c @ rest)"
    using assms(2) write_startup_config_Inr [OF assms(1)] by simp
  moreover have "config_ok ?c" using assms(3-7) by (simp add: config_ok_def)
  ultimately show ?thesis using read_config_delivers by blast
qed

text \<open>
  Whatever bytes the runner is given, a configuration it accepts has a command within
  the argument limits and terminal dimensions from 1 to 4096.
\<close>

theorem accepted_config_is_within_limits:
  assumes "read_startup_config rd = (Inr c, rd')"
  shows "length (sc_command c) \<le> 256 \<and> length (concat (sc_command c)) \<le> 65536 \<and>
    1 \<le> sc_rows c \<and> sc_rows c \<le> 4096 \<and> 1 \<le> sc_columns c \<and> sc_columns c \<le> 4096"
  using read_config_ok [OF assms] by (simp add: config_ok_def command_fits_def limits)

text \<open>
  Writing the response by hand comes to the same as \<open>write_all\<close> on every descriptor,
  partial writes, interruptions and errors included.
\<close>

theorem startup_response_is_write_all:
  assumes "errno_plan (write_plan w)"
  shows "write_startup_response response w = write_all [response] w"
  using write_response_bytes_all [OF assms] by (simp add: write_startup_response_def)

section \<open>Samples\<close>

definition sample_config :: startup_config where
  "sample_config = \<lparr>sc_trace = True, sc_command = [[108, 115], []], sc_rows = 24, sc_columns = 80\<rparr>"

lemma sample_config_ok: "config_ok sample_config"
  by (simp add: config_ok_def sample_config_def command_fits_def limits)

lemma startup_config_round_trip_witness:
  "\<exists>w' rd'. write_startup_config True [[108, 115], []] 24 80 vec_writer = (Inr (), w') \<and>
     read_startup_config \<lparr>read_plan = [Data (sink w')], when_dry = At_eof\<rparr> = (Inr sample_config, rd')"
proof -
  have fits: "command_fits [[108, 115], []]" by (simp add: command_fits_def limits)
  obtain w' where w: "write_startup_config True [[108, 115], []] 24 80 vec_writer = (Inr (), w')"
    using write_startup_config_vec [OF _ _ fits, of vec_writer True 24 80] by (auto simp: vec_writer_def)
  have "sink w' \<noteq> []" using write_startup_config_Inr [OF w] by (simp add: config_bytes_def)
  then have d: "delivers \<lparr>read_plan = [Data (sink w')], when_dry = At_eof\<rparr> (drop (length (sink vec_writer)) (sink w') @ [])"
    by (simp add: delivers_def vec_writer_def)
  show ?thesis
    using startup_config_round_trip [OF w d fits] w by (auto simp: sample_config_def)
qed

lemma accepted_config_is_within_limits_witness:
  "\<exists>c rd'. read_startup_config \<lparr>read_plan = [Data (config_bytes sample_config)], when_dry = At_eof\<rparr> = (Inr c, rd') \<and>
     length (sc_command c) \<le> 256"
proof -
  have "delivers \<lparr>read_plan = [Data (config_bytes sample_config)], when_dry = At_eof\<rparr> (config_bytes sample_config @ [])"
    by (simp add: delivers_def config_bytes_def)
  then obtain rd' where r: "read_startup_config \<lparr>read_plan = [Data (config_bytes sample_config)], when_dry = At_eof\<rparr> = (Inr sample_config, rd')"
    using read_config_delivers [OF _ sample_config_ok] by blast
  from accepted_config_is_within_limits [OF r] r show ?thesis by blast
qed

lemma startup_response_is_write_all_witness:
  "write_startup_response 0 (vec_writer\<lparr>write_plan := [Write_fails (io_error_from_errno EINTR), Took 0]\<rparr>) =
     write_all [0] (vec_writer\<lparr>write_plan := [Write_fails (io_error_from_errno EINTR), Took 0]\<rparr>)"
  by (rule startup_response_is_write_all) (auto simp: errno_plan_def)

end
