(* ===== verification/Output_Tail.thy ===== *)
theory Output_Tail
  imports Std_Io Limits
begin

text \<open>
  src/output_tail.rs: the ring that keeps the last \<open>capacity\<close> bytes of a session's output
  and remembers whether anything was lost.  \<open>bounded_tail\<close> is its contract; the theory
  proves that the ring refines the abstract history of all bytes ever written.
\<close>

section \<open>Interface: a bounded tail of a history\<close>

text \<open>The abstract specification: the last \<open>n\<close> bytes of the history, and whether it was longer.\<close>

definition last_bytes :: "nat \<Rightarrow> 'a list \<Rightarrow> 'a list" where
  "last_bytes n history = drop (length history - n) history"

locale bounded_tail =
  fixes cap :: "'t \<Rightarrow> nat"
    and add :: "'t \<Rightarrow> 'a list \<Rightarrow> 't"
    and shows_tail :: "'t \<Rightarrow> 'a list"
    and lost :: "'t \<Rightarrow> bool"
    and ok :: "'t \<Rightarrow> bool"
  assumes cap_add: "ok t \<Longrightarrow> cap (add t xs) = cap t"
    and ok_add: "ok t \<Longrightarrow> ok (add t xs)"
    and tail_add: "ok t \<Longrightarrow>
      shows_tail (add t xs) = last_bytes (cap t) (shows_tail t @ xs)"
    and lost_add: "ok t \<Longrightarrow>
      lost (add t xs) \<longleftrightarrow> lost t \<or> cap t < length (shows_tail t) + length xs"
begin

text \<open>The tail stands for a history: it shows its end, and \<open>lost\<close> says whether more was seen.\<close>

definition stands_for :: "'t \<Rightarrow> 'a list \<Rightarrow> bool" where
  "stands_for t h \<longleftrightarrow>
     shows_tail t = last_bytes (cap t) h \<and> (lost t \<longleftrightarrow> cap t < length h)"

lemma stands_for_add:
  assumes "ok t" and "stands_for t h"
  shows "stands_for (add t xs) (h @ xs)"
proof -
  have "last_bytes (cap t) (last_bytes (cap t) h @ xs) = last_bytes (cap t) (h @ xs)"
    by (cases "length h \<le> cap t") (auto simp: last_bytes_def add.commute)
  moreover have "cap t < length h \<or> cap t < length (last_bytes (cap t) h) + length xs \<longleftrightarrow>
      cap t < length (h @ xs)"
    by (auto simp: last_bytes_def)
  ultimately show ?thesis
    using assms cap_add tail_add lost_add by (simp add: stands_for_def)
qed

lemma stands_for_adds:
  "ok t \<Longrightarrow> stands_for t h \<Longrightarrow>
   stands_for (foldl add t xss) (h @ concat xss) \<and> ok (foldl add t xss) \<and>
   cap (foldl add t xss) = cap t"
proof (induction xss arbitrary: t h)
  case Nil
  then show ?case by simp
next
  case (Cons xs xss)
  with Cons.IH [of "add t xs" "h @ xs"] show ?case
    using stands_for_add [of t h xs] ok_add [of t xs] cap_add [of t xs] by simp
qed

end

section \<open>OutputTail\<close>

definition TRUNCATION_MARKER :: "byte list" where
  "TRUNCATION_MARKER =
     [13, 10] @ bs ''[afk: earlier terminal output was truncated]'' @ [13, 10]"

record output_tail =
  t_bytes :: "byte list"
  t_capacity :: nat
  t_truncated :: bool

definition tail_new :: "nat \<Rightarrow> output_tail" where
  "tail_new capacity = \<lparr>t_bytes = [], t_capacity = capacity, t_truncated = False\<rparr>"

definition tail_extend :: "output_tail \<Rightarrow> byte list \<Rightarrow> output_tail" where
  "tail_extend t incoming =
     (if incoming = [] then t
      else if t_capacity t = 0 then t\<lparr>t_truncated := True\<rparr>
      else if t_capacity t \<le> length incoming then
        t\<lparr>t_truncated := t_truncated t \<or> t_bytes t \<noteq> [] \<or> t_capacity t < length incoming,
          t_bytes := drop (length incoming - t_capacity t) incoming\<rparr>
      else
        let overflow = usize_saturating_sub
              (usize_saturating_add (length (t_bytes t)) (length incoming)) (t_capacity t);
            t' = (if overflow \<noteq> 0
                  then t\<lparr>t_bytes := drop overflow (t_bytes t), t_truncated := True\<rparr> else t)
        in t'\<lparr>t_bytes := t_bytes t' @ incoming\<rparr>)"

definition tail_snapshot :: "output_tail \<Rightarrow> byte list" where
  "tail_snapshot t = t_bytes t"

definition tail_len :: "output_tail \<Rightarrow> nat" where
  "tail_len t = length (t_bytes t)"

definition tail_is_truncated :: "output_tail \<Rightarrow> bool" where
  "tail_is_truncated t = t_truncated t"

definition tail_wf :: "output_tail \<Rightarrow> bool" where
  "tail_wf t \<longleftrightarrow> length (t_bytes t) \<le> t_capacity t \<and> t_capacity t \<le> isize_max"

section \<open>The ring provides the contract\<close>

lemma t_capacity_extend [simp]: "t_capacity (tail_extend t xs) = t_capacity t"
  by (simp add: tail_extend_def Let_def)

lemma tail_overflow:
  "tail_wf t \<Longrightarrow> length xs < t_capacity t \<Longrightarrow>
   usize_saturating_add (length (t_bytes t)) (length xs) = length (t_bytes t) + length xs"
  by (rule usize_saturating_add_small) (auto simp: tail_wf_def)

lemma tail_extend_bytes:
  "tail_wf t \<Longrightarrow> t_bytes (tail_extend t xs) = last_bytes (t_capacity t) (t_bytes t @ xs)"
  using tail_overflow [of t xs]
  by (auto simp: tail_extend_def last_bytes_def tail_wf_def Let_def)

lemma tail_extend_truncated:
  "tail_wf t \<Longrightarrow> t_truncated (tail_extend t xs) \<longleftrightarrow>
     t_truncated t \<or> t_capacity t < length (t_bytes t) + length xs"
  using tail_overflow [of t xs]
  by (cases "t_bytes t") (auto simp: tail_extend_def tail_wf_def Let_def)

lemma tail_wf_new [simp]: "n \<le> isize_max \<Longrightarrow> tail_wf (tail_new n)"
  by (simp add: tail_new_def tail_wf_def)

lemma tail_wf_extend [simp]: "tail_wf t \<Longrightarrow> tail_wf (tail_extend t xs)"
  using tail_extend_bytes [of t xs] by (auto simp: tail_wf_def last_bytes_def)

lemma t_capacity_new [simp]: "t_capacity (tail_new n) = n"
  by (simp add: tail_new_def)

interpretation tail: bounded_tail t_capacity tail_extend tail_snapshot tail_is_truncated tail_wf
  by unfold_locales
    (simp_all add: tail_snapshot_def tail_is_truncated_def tail_extend_bytes tail_extend_truncated)

lemma tail_new_stands_for: "tail.stands_for (tail_new n) []"
  by (simp add: tail.stands_for_def tail_new_def tail_snapshot_def tail_is_truncated_def
      last_bytes_def)

lemma length_TRUNCATION_MARKER: "length TRUNCATION_MARKER = 48"
  by (simp add: TRUNCATION_MARKER_def bs_def)

section \<open>Properties\<close>

text \<open>
  C27: The ring refines the history of the session's output: after any sequence of writes it
  shows exactly the last \<open>capacity\<close> bytes of everything written, and it reports truncation
  exactly when more than \<open>capacity\<close> bytes were written.
\<close>

theorem tail_refines_history:
  assumes "capacity \<le> isize_max"
  shows "tail_snapshot (foldl tail_extend (tail_new capacity) writes) =
      last_bytes capacity (concat writes) \<and>
    (tail_is_truncated (foldl tail_extend (tail_new capacity) writes) \<longleftrightarrow>
      capacity < length (concat writes))"
  using tail.stands_for_adds [of "tail_new capacity" "[]" writes] assms tail_new_stands_for
  by (simp add: tail.stands_for_def)

theorem tail_refines_history_witness:
  "tail_snapshot (foldl tail_extend (tail_new 6) [[1, 2, 3, 4], [], [5, 6, 7]]) =
      last_bytes 6 (concat [[1, 2, 3, 4], [], [5, 6, 7]]) \<and>
    (tail_is_truncated (foldl tail_extend (tail_new 6) [[1, 2, 3, 4], [], [5, 6, 7]]) \<longleftrightarrow>
      6 < length (concat [[1, 2, 3, 4 :: byte], [], [5, 6, 7]]))"
  by (rule tail_refines_history) (simp add: isize_max_def)

end
