(* ===== verification/Ipc.thy ===== *)
theory Ipc
  imports Std_Io Limits "HOL-Library.Sublist"
begin

text \<open>
  src/ipc.rs: the records the runner and an attachment exchange over the Unix socket, their
  encoding (one byte of kind, four of length, the payload) and the incremental decoder.
  \<open>framed_stream\<close> is the contract of a decoder of self-delimiting frames: whatever the
  pieces the bytes arrive in, the records come out unchanged and in order.
\<close>

section \<open>Interface: frames in a byte stream\<close>

text \<open>Feeding a decoder piece by piece, collecting the records, until it reports an error.\<close>

fun feed_all ::
    "('b list \<Rightarrow> ('e + 'r list) \<times> 'b list) \<Rightarrow> 'b list \<Rightarrow> 'b list list \<Rightarrow> ('e + 'r list) \<times> 'b list" where
  "feed_all drain b [] = (Inr [], b)"
| "feed_all drain b (xs # xss) =
     (case drain (b @ xs) of
        (Inl e, b') \<Rightarrow> (Inl e, b')
      | (Inr rs, b') \<Rightarrow>
          (case feed_all drain b' xss of
             (Inl e, b'') \<Rightarrow> (Inl e, b'')
           | (Inr rs', b'') \<Rightarrow> (Inr (rs @ rs'), b'')))"

locale framed_stream =
  fixes frame :: "'r \<Rightarrow> 'b list"
    and good :: "'r \<Rightarrow> bool"
    and next_frame :: "'b list \<Rightarrow> 'e + ('r \<times> 'b list) option"
    and drain :: "'b list \<Rightarrow> ('e + 'r list) \<times> 'b list"
  assumes frame_nonempty: "frame r \<noteq> []"
    and next_nil: "next_frame [] = Inr None"
    and next_whole: "good r \<Longrightarrow> next_frame (frame r @ ys) = Inr (Some (r, ys))"
    and next_partial: "good r \<Longrightarrow> strict_prefix p (frame r) \<Longrightarrow> next_frame p = Inr None"
    and drain_none: "next_frame b = Inr None \<Longrightarrow> drain b = (Inr [], b)"
    and drain_some: "next_frame b = Inr (Some (r, b')) \<Longrightarrow>
      drain b = (case drain b' of (Inl e, c) \<Rightarrow> (Inl e, c) | (Inr rs, c) \<Rightarrow> (Inr (r # rs), c))"
begin

lemma drain_append:
  "\<forall>r \<in> set rs. good r \<Longrightarrow>
   drain (concat (map frame rs) @ b) =
     (case drain b of (Inl e, c) \<Rightarrow> (Inl e, c) | (Inr rs', c) \<Rightarrow> (Inr (rs @ rs'), c))"
proof (induction rs)
  case Nil
  then show ?case by (auto split: prod.split sum.split)
next
  case (Cons r rs)
  have "next_frame (frame r @ (concat (map frame rs) @ b)) = Inr (Some (r, concat (map frame rs) @ b))"
    using Cons.prems by (intro next_whole) simp
  with Cons show ?case by (simp add: drain_some split: prod.split sum.split)
qed

lemma drain_frames:
  "\<forall>r \<in> set rs. good r \<Longrightarrow> next_frame p = Inr None \<Longrightarrow>
   drain (concat (map frame rs) @ p) = (Inr rs, p)"
  by (simp add: drain_append drain_none)

text \<open>Any beginning of a stream of frames is some whole frames and an incomplete one.\<close>

lemma stream_prefix:
  "\<forall>r \<in> set rs. good r \<Longrightarrow> concat (map frame rs) = xs @ ys \<Longrightarrow>
   \<exists>rs1 rs2 p. rs = rs1 @ rs2 \<and> xs = concat (map frame rs1) @ p \<and> next_frame p = Inr None \<and>
     p @ ys = concat (map frame rs2)"
proof (induction rs arbitrary: xs)
  case Nil
  then show ?case by (simp add: next_nil)
next
  case (Cons r rs)
  then have eq: "frame r @ concat (map frame rs) = xs @ ys" and good: "good r" by simp_all
  show ?case
  proof (cases "strict_prefix xs (frame r)")
    case True
    with eq good next_partial show ?thesis
      by (intro exI [of _ "[]"] exI [of _ "r # rs"] exI [of _ xs]) simp
  next
    case False
    have "prefix xs (frame r @ concat (map frame rs))"
      using eq by (metis prefixI)
    with False obtain zs where zs: "xs = frame r @ zs"
      by (auto simp: prefix_append strict_prefix_def)
    with eq have "concat (map frame rs) = zs @ ys" by simp
    with Cons.IH [of zs] Cons.prems(1) obtain rs1 rs2 p where
      "rs = rs1 @ rs2" "zs = concat (map frame rs1) @ p" "next_frame p = Inr None"
      "p @ ys = concat (map frame rs2)" by auto
    with zs show ?thesis
      by (intro exI [of _ "r # rs1"] exI [of _ rs2] exI [of _ p]) simp
  qed
qed

lemma drain_prefix:
  assumes "\<forall>r \<in> set rs. good r" and "concat (map frame rs) = xs @ ys"
  shows "\<exists>rs1 rs2 p. rs = rs1 @ rs2 \<and> drain xs = (Inr rs1, p) \<and> next_frame p = Inr None \<and>
     p @ ys = concat (map frame rs2)"
proof -
  from stream_prefix [OF assms] obtain rs1 rs2 p where split: "rs = rs1 @ rs2"
    "xs = concat (map frame rs1) @ p" "next_frame p = Inr None" "p @ ys = concat (map frame rs2)"
    by blast
  with drain_frames [of rs1 p] assms(1) show ?thesis by auto
qed

theorem feed_all_frames:
  "\<forall>r \<in> set rs. good r \<Longrightarrow> b @ concat xss = concat (map frame rs) \<Longrightarrow> next_frame b = Inr None \<Longrightarrow>
   feed_all drain b xss = (Inr rs, [])"
proof (induction xss arbitrary: b rs)
  case Nil
  then have "rs = []"
  proof (cases rs)
    case (Cons r rs')
    with Nil have "next_frame b = Inr (Some (r, concat (map frame rs')))"
      using next_whole by simp
    with Nil show ?thesis by simp
  qed
  with Nil show ?case by simp
next
  case (Cons xs xss)
  then have "concat (map frame rs) = (b @ xs) @ concat xss" by simp
  from drain_prefix [OF Cons.prems(1) this] obtain rs1 rs2 p where split: "rs = rs1 @ rs2"
    "drain (b @ xs) = (Inr rs1, p)" "next_frame p = Inr None"
    "p @ concat xss = concat (map frame rs2)" by blast
  with Cons.IH [of rs2 p] Cons.prems(1) show ?case by simp
qed

end

section \<open>Records\<close>

datatype process_exit = Code byte | Signal byte

datatype ipc_record =
    Attach u16 u16
  | Input "byte list"
  | Output "byte list"
  | Resize u16 u16
  | Stop
  | Exit process_exit

definition ATTACH :: byte where "ATTACH = 1"
definition INPUT :: byte where "INPUT = 2"
definition OUTPUT :: byte where "OUTPUT = 3"
definition RESIZE :: byte where "RESIZE = 4"
definition STOP :: byte where "STOP = 5"
definition EXIT :: byte where "EXIT = 6"

named_theorems record_kinds "the kind bytes"

declare ATTACH_def [record_kinds] INPUT_def [record_kinds] OUTPUT_def [record_kinds]
  RESIZE_def [record_kinds] STOP_def [record_kinds] EXIT_def [record_kinds]

fun status_code :: "process_exit \<Rightarrow> byte" where
  "status_code (Code code) = code"
| "status_code (Signal signal) = saturating_add 128 signal"

datatype decode_error = BufferLimit | PayloadTooLarge | UnknownKind | InvalidPayload
  | TrailingData | Truncated

section \<open>Encoding\<close>

fun encoded_shape :: "ipc_record \<Rightarrow> byte \<times> nat" where
  "encoded_shape (Attach _ _) = (ATTACH, 4)"
| "encoded_shape (Input bytes) = (INPUT, length bytes)"
| "encoded_shape (Output bytes) = (OUTPUT, length bytes)"
| "encoded_shape (Resize _ _) = (RESIZE, 4)"
| "encoded_shape Stop = (STOP, 0)"
| "encoded_shape (Exit _) = (EXIT, 2)"

fun write_payload :: "ipc_record \<Rightarrow> (writer, unit) io" where
  "write_payload (Attach rows columns) =
     io_try (write_all (u16_to_be_bytes rows)) (\<lambda>_. write_all (u16_to_be_bytes columns))"
| "write_payload (Resize rows columns) =
     io_try (write_all (u16_to_be_bytes rows)) (\<lambda>_. write_all (u16_to_be_bytes columns))"
| "write_payload (Input bytes) =
     (if MAX_IPC_PAYLOAD_BYTES < length bytes then io_fail (io_error_new InvalidInput)
      else write_all bytes)"
| "write_payload (Output bytes) =
     (if MAX_IPC_PAYLOAD_BYTES < length bytes then io_fail (io_error_new InvalidInput)
      else write_all bytes)"
| "write_payload Stop = io_ok ()"
| "write_payload (Exit (Code code)) = write_all [0, code]"
| "write_payload (Exit (Signal signal)) = write_all [1, signal]"

definition write_record :: "ipc_record \<Rightarrow> (writer, unit) io" where
  "write_record r =
     (let (kind, payload_length) = encoded_shape r in
      if 2 ^ 32 \<le> payload_length then io_fail (io_error_new InvalidInput)
      else io_try (write_all [kind]) (\<lambda>_.
           io_try (write_all (u32_to_be_bytes (word_of_nat payload_length))) (\<lambda>_.
           write_payload r)))"

definition encode :: "ipc_record \<Rightarrow> byte list io_result" where
  "encode r =
     (let (_, payload_length) = encoded_shape r in
      if MAX_IPC_PAYLOAD_BYTES < payload_length then Inl (io_error_new InvalidInput)
      else case write_record r vec_writer of
        (Inl e, _) \<Rightarrow> Inl e
      | (Inr _, encoded) \<Rightarrow> Inr (sink encoded))"

section \<open>Decoding\<close>

definition valid_dimension :: "u16 \<Rightarrow> bool" where
  "valid_dimension n \<longleftrightarrow> 1 \<le> n \<and> n \<le> MAX_TERMINAL_DIMENSION"

fun decode_dimensions :: "byte list \<Rightarrow> decode_error + u16 \<times> u16" where
  "decode_dimensions [row_high, row_low, column_high, column_low] =
     (let rows = u16_from_be_bytes row_high row_low;
          columns = u16_from_be_bytes column_high column_low
      in if \<not> valid_dimension rows \<or> \<not> valid_dimension columns then Inl InvalidPayload
         else Inr (rows, columns))"
| "decode_dimensions _ = Inl InvalidPayload"

fun decode_exit :: "byte list \<Rightarrow> decode_error + process_exit" where
  "decode_exit [reason, value] =
     (if reason = 0 then Inr (Code value)
      else if reason = 1 \<and> 1 \<le> value \<and> value \<le> 127 then Inr (Signal value)
      else Inl InvalidPayload)"
| "decode_exit _ = Inl InvalidPayload"

definition decode_payload :: "byte \<Rightarrow> byte list \<Rightarrow> decode_error + ipc_record" where
  "decode_payload kind payload =
     (if kind = ATTACH then
        (case decode_dimensions payload of
           Inl e \<Rightarrow> Inl e | Inr (rows, columns) \<Rightarrow> Inr (Attach rows columns))
      else if kind = INPUT then Inr (Input payload)
      else if kind = OUTPUT then Inr (Output payload)
      else if kind = RESIZE then
        (case decode_dimensions payload of
           Inl e \<Rightarrow> Inl e | Inr (rows, columns) \<Rightarrow> Inr (Resize rows columns))
      else if kind = STOP then (if payload = [] then Inr Stop else Inl InvalidPayload)
      else if kind = EXIT then
        (case decode_exit payload of Inl e \<Rightarrow> Inl e | Inr status \<Rightarrow> Inr (Exit status))
      else Inl UnknownKind)"

record decoder =
  buffer :: "byte list"

definition decoder_default :: decoder where
  "decoder_default = \<lparr>buffer = []\<rparr>"

definition remaining_capacity :: "decoder \<Rightarrow> nat" where
  "remaining_capacity d = usize_saturating_sub MAX_IPC_RECORD_BYTES (length (buffer d))"

definition decoder_push :: "decoder \<Rightarrow> byte list \<Rightarrow> (decode_error + unit) \<times> decoder" where
  "decoder_push d bytes =
     (if remaining_capacity d < length bytes then (Inl BufferLimit, d)
      else (Inr (), d\<lparr>buffer := buffer d @ bytes\<rparr>))"

definition decoder_next :: "decoder \<Rightarrow> (decode_error + ipc_record option) \<times> decoder" where
  "decoder_next d =
     (if length (buffer d) < IPC_HEADER_BYTES then (Inr None, d)
      else
        let kind = buffer d ! 0;
            payload_length = unat (u32_from_be_bytes
              (buffer d ! 1) (buffer d ! 2) (buffer d ! 3) (buffer d ! 4))
        in if MAX_IPC_PAYLOAD_BYTES < payload_length then (Inl PayloadTooLarge, d)
           else
             let record_length = IPC_HEADER_BYTES + payload_length
             in if length (buffer d) < record_length then (Inr None, d)
                else case decode_payload kind (take payload_length (drop IPC_HEADER_BYTES (buffer d))) of
                  Inl e \<Rightarrow> (Inl e, d)
                | Inr r \<Rightarrow> (Inr (Some r), d\<lparr>buffer := drop record_length (buffer d)\<rparr>))"

lemma decoder_next_shrinks:
  "decoder_next d = (Inr (Some r), d') \<Longrightarrow> length (buffer d') < length (buffer d)"
  by (auto simp: decoder_next_def Let_def IPC_HEADER_BYTES_def split: if_splits sum.splits)

text \<open>The loop \<open>while let Some(record) = decoder.next()?\<close> of both \<open>read_records\<close>\<close>

function decode_all :: "decoder \<Rightarrow> (decode_error + ipc_record list) \<times> decoder" where
  "decode_all d =
     (case decoder_next d of
        (Inl e, d') \<Rightarrow> (Inl e, d')
      | (Inr None, d') \<Rightarrow> (Inr [], d')
      | (Inr (Some r), d') \<Rightarrow>
          (case decode_all d' of
             (Inl e, d'') \<Rightarrow> (Inl e, d'')
           | (Inr rs, d'') \<Rightarrow> (Inr (r # rs), d'')))"
  by pat_completeness auto
termination
  by (relation "measure (\<lambda>d. length (buffer d))") (auto intro: decoder_next_shrinks dest: sym)

declare decode_all.simps [simp del]

text \<open>\<open>decode_exact\<close>, the test-only decoder of one whole record\<close>

definition decode_exact :: "byte list \<Rightarrow> decode_error + ipc_record" where
  "decode_exact bytes =
     (case decoder_push decoder_default bytes of
        (Inl e, _) \<Rightarrow> Inl e
      | (Inr _, d) \<Rightarrow>
          (case decoder_next d of
             (Inl e, _) \<Rightarrow> Inl e
           | (Inr None, _) \<Rightarrow> Inl Truncated
           | (Inr (Some r), d') \<Rightarrow> if buffer d' \<noteq> [] then Inl TrailingData else Inr r))"


section \<open>The encoding of a record\<close>

text \<open>The records a decoder accepts: dimensions, payload and signal in range.\<close>

fun valid_record :: "ipc_record \<Rightarrow> bool" where
  "valid_record (Attach rows columns) = (valid_dimension rows \<and> valid_dimension columns)"
| "valid_record (Resize rows columns) = (valid_dimension rows \<and> valid_dimension columns)"
| "valid_record (Input bytes) = (length bytes \<le> MAX_IPC_PAYLOAD_BYTES)"
| "valid_record (Output bytes) = (length bytes \<le> MAX_IPC_PAYLOAD_BYTES)"
| "valid_record Stop = True"
| "valid_record (Exit (Code _)) = True"
| "valid_record (Exit (Signal signal)) = (1 \<le> signal \<and> signal \<le> 127)"

fun record_payload :: "ipc_record \<Rightarrow> byte list" where
  "record_payload (Attach rows columns) = u16_to_be_bytes rows @ u16_to_be_bytes columns"
| "record_payload (Resize rows columns) = u16_to_be_bytes rows @ u16_to_be_bytes columns"
| "record_payload (Input bytes) = bytes"
| "record_payload (Output bytes) = bytes"
| "record_payload Stop = []"
| "record_payload (Exit (Code code)) = [0, code]"
| "record_payload (Exit (Signal signal)) = [1, signal]"

definition record_frame :: "ipc_record \<Rightarrow> byte list" where
  "record_frame r =
     fst (encoded_shape r) # u32_to_be_bytes (word_of_nat (length (record_payload r))) @
     record_payload r"

lemma length_record_payload: "length (record_payload r) = snd (encoded_shape r)"
  by (cases r rule: record_payload.cases) simp_all

lemma length_record_frame: "length (record_frame r) = IPC_HEADER_BYTES + length (record_payload r)"
  by (simp add: record_frame_def limits)

lemma write_payload_vec:
  "write_plan w = [] \<Longrightarrow> length (record_payload r) \<le> MAX_IPC_PAYLOAD_BYTES \<Longrightarrow>
   write_payload r w = (Inr (), w\<lparr>sink := sink w @ record_payload r\<rparr>)"
  by (cases r rule: record_payload.cases) (simp_all add: write_all_vec io_simps)

lemma encode_frame:
  "encode r =
     (if MAX_IPC_PAYLOAD_BYTES < length (record_payload r) then Inl (io_error_new InvalidInput)
      else Inr (record_frame r))"
proof (cases "MAX_IPC_PAYLOAD_BYTES < length (record_payload r)")
  case True
  then show ?thesis
    by (cases "encoded_shape r") (simp add: encode_def length_record_payload)
next
  case False
  then have small: "snd (encoded_shape r) \<le> MAX_IPC_PAYLOAD_BYTES" "snd (encoded_shape r) < 2 ^ 32"
    by (simp_all add: length_record_payload limits)
  obtain kind len where shape: "encoded_shape r = (kind, len)" by fastforce
  let ?w = "vec_writer\<lparr>sink := [kind] @ u32_to_be_bytes (word_of_nat len)\<rparr>"
  have "write_record r vec_writer = (Inr (), ?w\<lparr>sink := sink ?w @ record_payload r\<rparr>)"
    using shape small write_payload_vec [of ?w r] length_record_payload [of r]
    by (simp add: write_record_def write_all_vec io_simps vec_writer_def)
  then show ?thesis
    using shape small False length_record_payload [of r]
    by (simp add: encode_def record_frame_def)
qed

lemma encode_valid: "valid_record r \<Longrightarrow> encode r = Inr (record_frame r)"
  by (cases r rule: valid_record.cases) (simp_all add: encode_frame limits)

lemma encode_Inr: "encode r = Inr xs \<Longrightarrow> xs = record_frame r \<and> length xs \<le> MAX_IPC_RECORD_BYTES"
  by (auto simp: encode_frame length_record_frame limits split: if_splits)

section \<open>Decoding undoes encoding\<close>

lemma decode_dimensions_be:
  "decode_dimensions (u16_to_be_bytes rows @ u16_to_be_bytes columns) =
     (if valid_dimension rows \<and> valid_dimension columns then Inr (rows, columns)
      else Inl InvalidPayload)"
  by (simp add: u16_to_be_bytes_def u16_be_roundtrip Let_def)

lemma decode_payload_valid:
  "valid_record r \<Longrightarrow> decode_payload (fst (encoded_shape r)) (record_payload r) = Inr r"
  by (cases r rule: valid_record.cases)
    (simp_all add: decode_payload_def decode_dimensions_be record_kinds)

text \<open>A decoded payload is the payload of its record: there is one encoding for each record.\<close>

lemma decode_dimensions_Inr:
  "decode_dimensions p = Inr (rows, columns) \<Longrightarrow>
   p = u16_to_be_bytes rows @ u16_to_be_bytes columns \<and>
   valid_dimension rows \<and> valid_dimension columns"
  by (cases p rule: decode_dimensions.cases) (auto simp: Let_def split: if_splits)

lemma decode_exit_Inr:
  "decode_exit p = Inr status \<Longrightarrow>
   p = record_payload (Exit status) \<and> valid_record (Exit status)"
  by (cases p rule: decode_exit.cases) (auto split: if_splits)

lemma decode_payload_Inr:
  "decode_payload kind p = Inr r \<Longrightarrow> length p \<le> MAX_IPC_PAYLOAD_BYTES \<Longrightarrow>
   kind = fst (encoded_shape r) \<and> p = record_payload r \<and> valid_record r"
  by (auto simp: decode_payload_def split: if_splits sum.splits prod.splits
      dest!: decode_dimensions_Inr decode_exit_Inr)

section \<open>The decoder's steps\<close>

text \<open>The header of a buffer that holds at least five bytes.\<close>

lemma five_bytes:
  "IPC_HEADER_BYTES \<le> length xs \<longleftrightarrow> (\<exists>k a b c d rest. xs = k # a # b # c # d # rest)"
  by (auto simp: limits numeral_eq_Suc Suc_le_length_iff)

lemma unat_length_field:
  "n \<le> MAX_IPC_PAYLOAD_BYTES \<Longrightarrow> unat (word_of_nat n :: u32) = n"
  by (simp add: limits unat_of_nat)

lemma decoder_next_short: "length (buffer d) < IPC_HEADER_BYTES \<Longrightarrow> decoder_next d = (Inr None, d)"
  by (simp add: decoder_next_def)

lemma drop_header: "drop (5 + n) (k # a # b # c # d # xs) = drop n xs"
  by (simp add: numeral_eq_Suc)

lemma decoder_next_header:
  "buffer d = k # u32_to_be_bytes w @ rest \<Longrightarrow>
   decoder_next d =
     (if MAX_IPC_PAYLOAD_BYTES < unat w then (Inl PayloadTooLarge, d)
      else if length rest < unat w then (Inr None, d)
      else case decode_payload k (take (unat w) rest) of
        Inl e \<Rightarrow> (Inl e, d)
      | Inr r \<Rightarrow> (Inr (Some r), d\<lparr>buffer := drop (unat w) rest\<rparr>))"
  by (simp add: decoder_next_def Let_def u32_to_be_bytes_def u32_be_roundtrip limits drop_header
      split: sum.split)

lemma decoder_next_frame:
  assumes "valid_record r" and "buffer d = record_frame r @ rest"
  shows "decoder_next d = (Inr (Some r), d\<lparr>buffer := rest\<rparr>)"
proof -
  have small: "length (record_payload r) \<le> MAX_IPC_PAYLOAD_BYTES"
    using assms(1) by (cases r rule: valid_record.cases) (simp_all add: limits)
  with decoder_next_header [of d "fst (encoded_shape r)"
      "word_of_nat (length (record_payload r))" "record_payload r @ rest"] assms
  show ?thesis
    by (simp add: record_frame_def unat_length_field decode_payload_valid)
qed

lemma decoder_next_strict_prefix:
  assumes "valid_record r" and "strict_prefix (buffer d) (record_frame r)"
  shows "decoder_next d = (Inr None, d)"
proof (cases "length (buffer d) < IPC_HEADER_BYTES")
  case True
  then show ?thesis by (rule decoder_next_short)
next
  case False
  have small: "length (record_payload r) \<le> MAX_IPC_PAYLOAD_BYTES"
    using assms(1) by (cases r rule: valid_record.cases) (simp_all add: limits)
  let ?w = "word_of_nat (length (record_payload r)) :: u32"
  let ?head = "fst (encoded_shape r) # u32_to_be_bytes ?w"
  have frame: "record_frame r = ?head @ record_payload r"
    by (simp add: record_frame_def)
  have "prefix (buffer d) (?head @ record_payload r)"
    using assms(2) frame by (simp add: strict_prefix_def)
  moreover have "length ?head \<le> length (buffer d)"
    using False by (simp add: limits)
  ultimately have "prefix ?head (buffer d)"
    using prefix_length_prefix [of ?head "?head @ record_payload r" "buffer d"] by simp
  then obtain rest where rest: "buffer d = ?head @ rest"
    unfolding prefix_def by blast
  have "length (buffer d) < length (record_frame r)"
    by (rule prefix_length_less [OF assms(2)])
  then have "length rest < length (record_payload r)"
    unfolding rest frame by simp
  then have short: "length rest < unat ?w"
    using small by (simp only: unat_length_field)
  have "\<not> MAX_IPC_PAYLOAD_BYTES < unat ?w"
    using small by (simp only: unat_length_field not_less)
  with short decoder_next_header [of d "fst (encoded_shape r)" ?w rest] rest
  show ?thesis by simp
qed

text \<open>Whatever the decoder accepts is exactly the encoding of what it returns.\<close>

lemma decoder_next_Some:
  assumes "decoder_next d = (Inr (Some r), d')"
  shows "buffer d = record_frame r @ buffer d' \<and> valid_record r"
proof -
  have "IPC_HEADER_BYTES \<le> length (buffer d)"
    using assms decoder_next_short [of d] by (cases "length (buffer d) < IPC_HEADER_BYTES") auto
  then obtain k a b c e rest where buf: "buffer d = k # a # b # c # e # rest"
    unfolding five_bytes by blast
  let ?w = "u32_from_be_bytes a b c e"
  note step = decoder_next_header [of d k ?w rest]
  have small: "unat ?w \<le> MAX_IPC_PAYLOAD_BYTES" and full: "unat ?w \<le> length rest"
    using assms step buf by (auto split: if_splits)
  obtain q where q: "decode_payload k (take (unat ?w) rest) = q" by blast
  have *: "decode_payload k (take (unat ?w) rest) = Inr r" "buffer d' = drop (unat ?w) rest"
    using assms step buf small full q by (cases q; simp)+
  have "length (take (unat ?w) rest) \<le> MAX_IPC_PAYLOAD_BYTES"
    using small by simp
  with decode_payload_Inr [OF *(1)] have r: "k = fst (encoded_shape r)"
      "record_payload r = take (unat ?w) rest" "valid_record r"
    by simp_all
  have "length (record_payload r) = unat ?w"
    using full r(2) by simp
  then have "word_of_nat (length (record_payload r)) = ?w"
    by simp
  then have "record_frame r = k # [a, b, c, e] @ take (unat ?w) rest"
    using r(1,2) unfolding record_frame_def by simp
  with buf *(2) r(3) show ?thesis by simp
qed

lemma decoder_next_None_Inl:
  "decoder_next d = (Inr None, d') \<Longrightarrow> d' = d" "decoder_next d = (Inl e, d') \<Longrightarrow> d' = d"
  by (auto simp: decoder_next_def Let_def split: if_splits sum.splits)

text \<open>An incomplete record leaves room in the buffer for the rest of it.\<close>

lemma decoder_next_None_bound:
  assumes "decoder_next d = (Inr None, d')"
  shows "length (buffer d) < MAX_IPC_RECORD_BYTES"
  using assms
  by (auto simp: decoder_next_def Let_def limits split: if_splits sum.splits)


section \<open>The decoder as a framed stream\<close>

definition ipc_next :: "byte list \<Rightarrow> decode_error + (ipc_record \<times> byte list) option" where
  "ipc_next b =
     (case decoder_next \<lparr>buffer = b\<rparr> of
        (Inl e, _) \<Rightarrow> Inl e
      | (Inr None, _) \<Rightarrow> Inr None
      | (Inr (Some r), d) \<Rightarrow> Inr (Some (r, buffer d)))"

definition ipc_drain :: "byte list \<Rightarrow> (decode_error + ipc_record list) \<times> byte list" where
  "ipc_drain b = (let (result, d) = decode_all \<lparr>buffer = b\<rparr> in (result, buffer d))"

lemma decode_all_ipc_drain:
  "decode_all d = (fst (ipc_drain (buffer d)), \<lparr>buffer = snd (ipc_drain (buffer d))\<rparr>)"
  by (cases d) (simp add: ipc_drain_def split: prod.splits)

lemma ipc_next_Some: "ipc_next b = Inr (Some (r, c)) \<Longrightarrow> decoder_next \<lparr>buffer = b\<rparr> = (Inr (Some r), \<lparr>buffer = c\<rparr>)"
  by (auto simp: ipc_next_def split: prod.splits sum.splits option.splits)

lemma ipc_next_None: "ipc_next b = Inr None \<longleftrightarrow> decoder_next \<lparr>buffer = b\<rparr> = (Inr None, \<lparr>buffer = b\<rparr>)"
  by (auto simp: ipc_next_def split: prod.splits sum.splits option.splits
      dest: decoder_next_None_Inl)

interpretation ipc: framed_stream record_frame valid_record ipc_next ipc_drain
proof
  fix r
  show "record_frame r \<noteq> []" by (simp add: record_frame_def)
next
  show "ipc_next [] = Inr None"
    by (simp add: ipc_next_def decoder_next_short limits)
next
  fix r ys
  assume "valid_record r"
  then show "ipc_next (record_frame r @ ys) = Inr (Some (r, ys))"
    by (simp add: ipc_next_def decoder_next_frame)
next
  fix r p
  assume "valid_record r" and "strict_prefix p (record_frame r)"
  then show "ipc_next p = Inr None"
    by (simp add: ipc_next_None decoder_next_strict_prefix)
next
  fix b
  assume "ipc_next b = Inr None"
  then show "ipc_drain b = (Inr [], b)"
    by (simp add: ipc_next_None ipc_drain_def decode_all.simps)
next
  fix b r b'
  assume "ipc_next b = Inr (Some (r, b'))"
  then show "ipc_drain b =
      (case ipc_drain b' of (Inl e, c) \<Rightarrow> (Inl e, c) | (Inr rs, c) \<Rightarrow> (Inr (r # rs), c))"
    by (simp add: ipc_next_Some ipc_drain_def decode_all.simps [of "\<lparr>buffer = b\<rparr>"]
        split: prod.splits sum.splits)
qed

text \<open>
  A decoder between two reads is settled: it waits for more bytes, and it has room for
  them, so the reads of the event loops always ask for at least one byte.
\<close>

definition decoder_settled :: "decoder \<Rightarrow> bool" where
  "decoder_settled d \<longleftrightarrow> decoder_next d = (Inr None, d)"

lemma decoder_settled_default [simp]: "decoder_settled decoder_default"
  by (simp add: decoder_settled_def decoder_default_def decoder_next_short limits)

lemma decoder_settled_capacity: "decoder_settled d \<Longrightarrow> 0 < remaining_capacity d"
  using decoder_next_None_bound by (auto simp: decoder_settled_def remaining_capacity_def)

lemma decode_all_settled: "decode_all d = (Inr rs, d') \<Longrightarrow> decoder_settled d'"
proof (induction d arbitrary: rs d' rule: decode_all.induct)
  case (1 d)
  then show ?case
    by (subst (asm) (2) decode_all.simps)
      (auto simp: decoder_settled_def split: prod.splits sum.splits option.splits
        dest: decoder_next_None_Inl)
qed

lemma decode_all_Inr:
  "decode_all d = (Inr rs, d') \<Longrightarrow>
   buffer d = concat (map record_frame rs) @ buffer d' \<and> (\<forall>r \<in> set rs. valid_record r)"
proof (induction d arbitrary: rs d' rule: decode_all.induct)
  case (1 d)
  obtain q d1 where q: "decoder_next d = (q, d1)" by fastforce
  show ?case
  proof (cases q)
    case (Inl e)
    with q "1.prems" show ?thesis by (simp add: decode_all.simps [of d])
  next
    case (Inr o')
    show ?thesis
    proof (cases o')
      case None
      with q Inr "1.prems" decoder_next_None_Inl(1) [of d d1] show ?thesis
        by (simp add: decode_all.simps [of d])
    next
      case (Some r)
      with q Inr "1.prems" obtain rs1 where "decode_all d1 = (Inr rs1, d')" "rs = r # rs1"
        by (auto simp: decode_all.simps [of d] split: prod.splits sum.splits)
      with "1.IH" [OF q [symmetric] Inr Some] decoder_next_Some [of d r d1] q Inr Some
      show ?thesis by simp
    qed
  qed
qed

text \<open>A stream of records on the wire, and the input among them.\<close>

definition frames :: "ipc_record list \<Rightarrow> byte list" where
  "frames records = concat (map record_frame records)"

fun typed_of :: "ipc_record \<Rightarrow> byte list" where
  "typed_of (Input bytes) = bytes"
| "typed_of _ = []"

definition typed :: "ipc_record list \<Rightarrow> byte list" where
  "typed records = concat (map typed_of records)"

lemma frames_simps [simp]:
  "frames [] = []" "frames (r # rs) = record_frame r @ frames rs" "frames (rs @ rs') = frames rs @ frames rs'"
  by (simp_all add: frames_def)

lemma typed_simps [simp]:
  "typed [] = []" "typed (r # rs) = typed_of r @ typed rs" "typed (rs @ rs') = typed rs @ typed rs'"
  by (simp_all add: typed_def)

lemma frames_decoded:
  assumes "prefix (frames rs) bytes" and "\<forall>r \<in> set rs. valid_record r" and "decode_all \<lparr>buffer = bytes\<rparr> = (Inr all, d)"
  shows "prefix rs all"
proof -
  obtain left where "bytes = frames rs @ left" using assms(1) by (auto simp: prefix_def)
  then have "ipc_drain (concat (map record_frame rs) @ left) = (Inr all, buffer d)"
    using assms(3) by (auto simp: decode_all_ipc_drain frames_def case_prod_beta prod_eq_iff)
  then show ?thesis
    using ipc.drain_append [OF assms(2), of left] by (auto split: prod.splits sum.splits)
qed

section \<open>Properties\<close>



text \<open>
  C30: Strict decoding: a byte string decodes to a record exactly when it is the encoding of
  that record and the record is valid (dimensions 1 to 4096, payload at most 64 KiB, signal
  1 to 127), so there is one encoding for every record and nothing else is accepted.
\<close>

theorem decode_exact_inverts_encode:
  "decode_exact bytes = Inr r \<longleftrightarrow> valid_record r \<and> encode r = Inr bytes"
proof
  assume "decode_exact bytes = Inr r"
  then obtain d d' where "decoder_push decoder_default bytes = (Inr (), d)"
    "decoder_next d = (Inr (Some r), d')" "buffer d' = []"
    by (auto simp: decode_exact_def split: prod.splits sum.splits option.splits if_splits)
  with decoder_next_Some [of d r d'] show "valid_record r \<and> encode r = Inr bytes"
    by (auto simp: decoder_push_def decoder_default_def encode_valid split: if_splits)
next
  assume *: "valid_record r \<and> encode r = Inr bytes"
  then have "bytes = record_frame r" "length bytes \<le> MAX_IPC_RECORD_BYTES"
    using encode_Inr by blast+
  with * show "decode_exact bytes = Inr r"
    using decoder_next_frame [of r "\<lparr>buffer = bytes\<rparr>" "[]"]
    by (simp add: decode_exact_def decoder_push_def decoder_default_def remaining_capacity_def)
qed

text \<open>
  A truncated record is incomplete, never accepted: every proper beginning of an encoding
  leaves the decoder waiting, with its buffer unchanged and room for the rest.
\<close>

theorem truncated_record_waits:
  assumes "valid_record r" and "encode r = Inr (xs @ ys)" and "ys \<noteq> []"
  shows "decode_exact xs = Inl Truncated \<and>
    decoder_next \<lparr>buffer = xs\<rparr> = (Inr None, \<lparr>buffer = xs\<rparr>) \<and>
    length ys \<le> remaining_capacity \<lparr>buffer = xs\<rparr>"
proof -
  have frame: "record_frame r = xs @ ys" "length (xs @ ys) \<le> MAX_IPC_RECORD_BYTES"
    using encode_Inr [OF assms(2)] by metis+
  with assms(3) have "strict_prefix (buffer \<lparr>buffer = xs\<rparr>) (record_frame r)"
    by (simp add: strict_prefix_def)
  from decoder_next_strict_prefix [OF assms(1) this] frame(2) show ?thesis
    by (simp add: decode_exact_def decoder_push_def decoder_default_def remaining_capacity_def)
qed

theorem truncated_record_waits_witness:
  "decode_exact [6, 0, 0, 0, 2, 1] = Inl Truncated \<and>
    decoder_next \<lparr>buffer = [6, 0, 0, 0, 2, 1]\<rparr> = (Inr None, \<lparr>buffer = [6, 0, 0, 0, 2, 1]\<rparr>) \<and>
    length [15 :: byte] \<le> remaining_capacity \<lparr>buffer = [6, 0, 0, 0, 2, 1]\<rparr>"
proof (rule truncated_record_waits)
  show "valid_record (Exit (Signal 15))" by simp
  show "encode (Exit (Signal 15)) = Inr ([6, 0, 0, 0, 2, 1] @ [15])"
    by (simp add: encode_frame record_frame_def u32_to_be_bytes_def limits record_kinds)
qed simp

end
