(* ===== verification/Child_Process.thy ===== *)
theory Child_Process
  imports Platform_Unix Ipc
begin

text \<open>
  The managed process as src/runner.rs sees it: \<open>try_wait\<close>, \<open>kill_process\<close> and \<open>wait\<close>, the
  conversion of its exit status, and the function \<open>stop_child\<close>.

  A child is given by when it would end: by itself, after SIGTERM (if it does not ignore
  it) and after SIGKILL.  Times are milliseconds of the monotonic clock; the clock moves
  while the runner sleeps or waits.  \<open>ch_fails\<close> lists the errors of the coming calls.
\<close>

datatype signal = SIGTERM | SIGKILL

text \<open>\<open>std::process::ExitStatus\<close> by its \<open>code()\<close> and \<open>signal()\<close>\<close>

record exit_status =
  es_code :: "int option"
  es_signal :: "int option"

record child =
  ch_id :: u32
  ch_natural :: "(nat \<times> exit_status) option"
  ch_on_term :: "(nat \<times> exit_status) option"
  ch_on_kill :: "nat \<times> exit_status"
  ch_signals :: "(nat \<times> signal) list"
  ch_fails :: "io_error option list"

type_synonym process = "child \<times> nat"

section \<open>When a child ends\<close>

definition reaction :: "child \<Rightarrow> nat \<times> signal \<Rightarrow> (nat \<times> exit_status) list" where
  "reaction c = (\<lambda>(sent, sig).
     case sig of
       SIGTERM \<Rightarrow> (case ch_on_term c of None \<Rightarrow> [] | Some (delay, st) \<Rightarrow> [(sent + delay, st)])
     | SIGKILL \<Rightarrow> [(sent + fst (ch_on_kill c), snd (ch_on_kill c))])"

fun earliest :: "(nat \<times> 'a) list \<Rightarrow> (nat \<times> 'a) option" where
  "earliest [] = None"
| "earliest (x # xs) =
     (case earliest xs of None \<Rightarrow> Some x | Some y \<Rightarrow> if fst y < fst x then Some y else Some x)"

definition child_end :: "child \<Rightarrow> (nat \<times> exit_status) option" where
  "child_end c =
     earliest ((case ch_natural c of None \<Rightarrow> [] | Some x \<Rightarrow> [x]) @ concat (map (reaction c) (ch_signals c)))"

definition next_failure :: "(process \<Rightarrow> 'b io_result \<times> process) \<Rightarrow> process \<Rightarrow> 'b io_result \<times> process" where
  "next_failure m = (\<lambda>(c, now).
     case ch_fails c of
       [] \<Rightarrow> m (c, now)
     | None # fs \<Rightarrow> m (c\<lparr>ch_fails := fs\<rparr>, now)
     | Some e # fs \<Rightarrow> (Inl e, (c\<lparr>ch_fails := fs\<rparr>, now)))"

definition try_wait :: "(process, exit_status option) io" where
  "try_wait = next_failure (\<lambda>(c, now).
     (Inr (case child_end c of
        Some (at, st) \<Rightarrow> if at \<le> now then Some st else None
      | None \<Rightarrow> None), (c, now)))"

definition kill_process :: "signal \<Rightarrow> (process, unit) io" where
  "kill_process sig = next_failure (\<lambda>(c, now).
     (Inr (), (c\<lparr>ch_signals := ch_signals c @ [(now, sig)]\<rparr>, now)))"

text \<open>\<open>wait\<close> returns when the child ends; it does not return if that never happens.\<close>

definition wait_child :: "process \<Rightarrow> (exit_status io_result \<times> process) option" where
  "wait_child p =
     (case child_end (fst p) of
        None \<Rightarrow> None
      | Some (at, st) \<Rightarrow> Some (next_failure (\<lambda>(c, now). (Inr st, (c, max now at))) p))"

section \<open>stop\_child\<close>

definition GRACE_MS :: nat where
  "GRACE_MS = unat STOP_GRACE_SECONDS * 1000"

definition NAP_MS :: nat where
  "NAP_MS = 50"

lemma NAP_MS_pos [simp]: "0 < NAP_MS"
  by (simp add: NAP_MS_def)

lemma GRACE_MS_eq: "GRACE_MS = 5000"
  by (simp add: GRACE_MS_def STOP_GRACE_SECONDS_def)

lemma try_wait_now: "try_wait (c, now) = (r, (c', now')) \<Longrightarrow> now' = now"
  by (auto simp: try_wait_def next_failure_def split: list.splits option.splits)

lemma try_wait_now': "(r, (c', now')) = try_wait p \<Longrightarrow> now' = snd p"
  using try_wait_now [of "fst p" "snd p" r c' now'] by simp

function grace_loop :: "nat \<Rightarrow> (process, exit_status option) io" where
  "grace_loop deadline p =
     (if snd p < deadline then
        (case try_wait p of
           (Inl e, p') \<Rightarrow> (Inl e, p')
         | (Inr (Some st), p') \<Rightarrow> (Inr (Some st), p')
         | (Inr None, (c', now')) \<Rightarrow> grace_loop deadline (c', now' + NAP_MS))
      else (Inr None, p))"
  by pat_completeness auto
termination
  by (relation "measure (\<lambda>(deadline, p). deadline - snd p)") (auto simp: NAP_MS_def dest!: try_wait_now')

declare grace_loop.simps [simp del]

definition valid_pid :: "u32 \<Rightarrow> bool" where
  "valid_pid pid \<longleftrightarrow> unat pid < 2 ^ 31 \<and> pid \<noteq> 0"

definition stop_child :: "process \<Rightarrow> (exit_status io_result \<times> process) option" where
  "stop_child p =
     (case try_wait p of
        (Inl e, p) \<Rightarrow> Some (Inl e, p)
      | (Inr (Some st), p) \<Rightarrow> Some (Inr st, p)
      | (Inr None, p) \<Rightarrow>
          if \<not> valid_pid (ch_id (fst p)) then Some (Inl (io_error_new Other), p)
          else (case kill_process SIGTERM p of
            (Inl e, p) \<Rightarrow> Some (Inl e, p)
          | (Inr _, p) \<Rightarrow>
              (case grace_loop (snd p + GRACE_MS) p of
                 (Inl e, p) \<Rightarrow> Some (Inl e, p)
               | (Inr (Some st), p) \<Rightarrow> Some (Inr st, p)
               | (Inr None, p) \<Rightarrow>
                   (case try_wait p of
                      (Inl e, p) \<Rightarrow> Some (Inl e, p)
                    | (Inr (Some _), p) \<Rightarrow> wait_child p
                    | (Inr None, p) \<Rightarrow>
                        (case kill_process SIGKILL p of
                           (Inl e, p) \<Rightarrow> Some (Inl e, p)
                         | (Inr _, p) \<Rightarrow> wait_child p)))))"

section \<open>Exit statuses\<close>

definition as_byte :: "int option \<Rightarrow> byte option" where
  "as_byte n = (case n of Some k \<Rightarrow> if 0 \<le> k \<and> k \<le> 255 then Some (word_of_int k) else None | None \<Rightarrow> None)"

definition process_exit_of :: "exit_status \<Rightarrow> process_exit" where
  "process_exit_of status =
     (case as_byte (es_code status) of
        Some code \<Rightarrow> Code code
      | None \<Rightarrow> (case as_byte (es_signal status) of
          Some sig \<Rightarrow> Signal sig
        | None \<Rightarrow> Code 1))"

section \<open>Facts\<close>

lemma earliest_None [simp]: "earliest xs = None \<longleftrightarrow> xs = []"
  by (cases xs) (auto split: option.splits)

lemma earliest_Some: "earliest xs = Some x \<Longrightarrow> x \<in> set xs \<and> (\<forall>y \<in> set xs. fst x \<le> fst y)"
proof (induction xs arbitrary: x)
  case (Cons a xs)
  then show ?case by (cases "earliest xs") (force split: if_splits)+
qed simp

lemma next_failure_cases:
  assumes "next_failure m (c, now) = (r, p)"
  obtains e fs where "ch_fails c = Some e # fs" "r = Inl e" "p = (c\<lparr>ch_fails := fs\<rparr>, now)"
  | fs where "m (c\<lparr>ch_fails := fs\<rparr>, now) = (r, p)" "fs = tl (ch_fails c)"
proof (cases "ch_fails c")
  case Nil
  then have "c\<lparr>ch_fails := []\<rparr> = c" by (cases c) simp
  with Nil assms that(2) [of "[]"] show thesis by (simp add: next_failure_def)
next
  case (Cons f fs)
  with assms that show thesis by (cases f) (auto simp: next_failure_def)
qed

lemma reaction_fails: "reaction (c\<lparr>ch_fails := fs\<rparr>) = reaction c"
  by (auto simp: reaction_def split: prod.splits signal.splits)

lemma child_end_fails [simp]: "child_end (c\<lparr>ch_fails := fs\<rparr>) = child_end c"
  by (simp add: child_end_def reaction_fails)

text \<open>What a call of \<open>try_wait\<close> can do.\<close>

definition same_child :: "child \<Rightarrow> child \<Rightarrow> bool" where
  "same_child c c' \<longleftrightarrow> (\<exists>fs. c' = c\<lparr>ch_fails := fs\<rparr>)"

lemma same_child_refl [simp]: "same_child c c"
  unfolding same_child_def by (rule exI [of _ "ch_fails c"]) simp

lemma same_child_trans: "same_child c d \<Longrightarrow> same_child d e \<Longrightarrow> same_child c e"
  by (auto simp: same_child_def)

lemma same_child_fields:
  "same_child c d \<Longrightarrow> child_end d = child_end c \<and> ch_signals d = ch_signals c \<and> ch_id d = ch_id c \<and>
     ch_on_kill d = ch_on_kill c \<and> ch_on_term d = ch_on_term c \<and> ch_natural d = ch_natural c"
  by (auto simp: same_child_def)

lemma try_wait_result:
  assumes "try_wait (c, now) = (r, (c', now'))"
  shows "now' = now \<and> same_child c c' \<and>
    (\<forall>st. r = Inr (Some st) \<longrightarrow> (\<exists>at \<le> now. child_end c = Some (at, st))) \<and>
    (r = Inr None \<longrightarrow> (\<forall>at st. child_end c = Some (at, st) \<longrightarrow> now < at))"
  using assms unfolding try_wait_def
  by (elim next_failure_cases) (auto simp: same_child_def split: option.splits if_splits)

lemma grace_loop_result:
  "grace_loop deadline (c, now) = (r, (c', now')) \<Longrightarrow>
   same_child c c' \<and> now \<le> now' \<and> (if now < deadline then now' < deadline + NAP_MS else now' = now) \<and>
   (\<forall>st. r = Inr (Some st) \<longrightarrow> (\<exists>at \<le> now'. child_end c = Some (at, st))) \<and>
   (r = Inr None \<longrightarrow> deadline \<le> now')"
proof (induction deadline "(c, now)" arbitrary: c now rule: grace_loop.induct)
  case (1 deadline c now)
  show ?case
  proof (cases "now < deadline")
    case False
    with 1 show ?thesis by (auto simp: grace_loop.simps [of deadline "(c, now)"])
  next
    case True
    obtain q c1 now1 where t: "try_wait (c, now) = (q, (c1, now1))" by (metis surj_pair)
    note tw = try_wait_result [OF t]
    show ?thesis
    proof (cases q)
      case (Inl e)
      with True t tw 1 show ?thesis by (auto simp: grace_loop.simps [of deadline "(c, now)"])
    next
      case (Inr o1)
      show ?thesis
      proof (cases o1)
        case (Some st)
        with True t tw 1 Inr show ?thesis by (auto simp: grace_loop.simps [of deadline "(c, now)"])
      next
        case None
        with True t Inr "1.prems" have rec: "grace_loop deadline (c1, now1 + NAP_MS) = (r, (c', now'))"
          by (simp add: grace_loop.simps [of deadline "(c, now)"])
        have s: "same_child c c1" "now1 = now" using tw by simp_all
        have "same_child c1 c' \<and> now1 + NAP_MS \<le> now' \<and>
          (if now1 + NAP_MS < deadline then now' < deadline + NAP_MS else now' = now1 + NAP_MS) \<and>
          (\<forall>st. r = Inr (Some st) \<longrightarrow> (\<exists>at \<le> now'. child_end c1 = Some (at, st))) \<and>
          (r = Inr None \<longrightarrow> deadline \<le> now')"
          using "1.hyps" [of "Inr None" "(c1, now1)" None c1 now1] True t Inr None rec by auto
        then show ?thesis
          using True s same_child_trans [of c c1 c'] same_child_fields [OF s(1)] by (auto split: if_splits)
      qed
    qed
  qed
qed

lemma kill_process_result:
  assumes "kill_process sig (c, now) = (r, (c', now'))"
  shows "now' = now \<and> (\<forall>e. r = Inl e \<longrightarrow> same_child c c') \<and>
    (\<forall>u. r = Inr u \<longrightarrow> (\<exists>fs. c' = c\<lparr>ch_fails := fs, ch_signals := ch_signals c @ [(now, sig)]\<rparr>))"
  using assms unfolding kill_process_def
  by (elim next_failure_cases) (auto simp: same_child_def)

lemma wait_child_result:
  assumes "child_end c = Some (at, st)"
  shows "\<exists>r c' now'. wait_child (c, now) = Some (r, (c', now')) \<and> same_child c c' \<and>
    now \<le> now' \<and> now' \<le> max now at \<and> (\<forall>st'. r = Inr st' \<longrightarrow> st' = st \<and> at \<le> now')"
proof -
  obtain r c' now' where w: "next_failure (\<lambda>(c, now). (Inr st, (c, max now at))) (c, now) = (r, (c', now'))"
    by (metis surj_pair)
  then have "same_child c c' \<and> now \<le> now' \<and> now' \<le> max now at \<and> (\<forall>st'. r = Inr st' \<longrightarrow> st' = st \<and> at \<le> now')"
    by (elim next_failure_cases) (auto simp: same_child_def)
  with w assms show ?thesis by (simp add: wait_child_def)
qed

text \<open>After SIGKILL a child ends within the delay of its reaction.\<close>

lemma child_end_killed:
  assumes "(k, SIGKILL) \<in> set (ch_signals c)"
  shows "\<exists>at st. child_end c = Some (at, st) \<and> at \<le> k + fst (ch_on_kill c)"
proof -
  define ends where "ends = (case ch_natural c of None \<Rightarrow> [] | Some x \<Rightarrow> [x]) @ concat (map (reaction c) (ch_signals c))"
  have c: "child_end c = earliest ends" by (simp add: child_end_def ends_def)
  have "(k + fst (ch_on_kill c), snd (ch_on_kill c)) \<in> set (reaction c (k, SIGKILL))"
    by (simp add: reaction_def)
  then have m: "(k + fst (ch_on_kill c), snd (ch_on_kill c)) \<in> set ends"
    using assms unfolding ends_def by (auto intro!: disjI2)
  then have "ends \<noteq> []" by (cases ends) simp_all
  then obtain x where x: "earliest ends = Some x" by (cases "earliest ends") simp_all
  have "fst x \<le> k + fst (ch_on_kill c)"
    using earliest_Some [OF x] m by fastforce
  then show ?thesis using c x by (cases x) simp
qed

text \<open>The signals \<open>stop_child\<close> sends, and why.\<close>

definition with_signals :: "child \<Rightarrow> (nat \<times> signal) list \<Rightarrow> child" where
  "with_signals c sigs = c\<lparr>ch_signals := ch_signals c @ sigs\<rparr>"

definition alive_at :: "child \<Rightarrow> nat \<Rightarrow> bool" where
  "alive_at c now \<longleftrightarrow> (\<forall>at st. child_end c = Some (at, st) \<longrightarrow> now < at)"

definition escalation :: "child \<Rightarrow> nat \<Rightarrow> (nat \<times> signal) list \<Rightarrow> bool" where
  "escalation c now sigs \<longleftrightarrow>
     sigs = [] \<or>
     alive_at c now \<and>
     (sigs = [(now, SIGTERM)] \<or>
      (\<exists>k. now + GRACE_MS \<le> k \<and> k < now + GRACE_MS + NAP_MS \<and>
         sigs = [(now, SIGTERM), (k, SIGKILL)] \<and> alive_at (with_signals c [(now, SIGTERM)]) k))"

definition stopped :: "child \<Rightarrow> nat \<Rightarrow> exit_status io_result \<Rightarrow> process \<Rightarrow> bool" where
  "stopped c now r p \<longleftrightarrow>
     now \<le> snd p \<and> snd p < now + GRACE_MS + NAP_MS + fst (ch_on_kill c) \<and>
     (\<exists>sigs. same_child (with_signals c sigs) (fst p) \<and> escalation c now sigs) \<and>
     (\<forall>st. r = Inr st \<longrightarrow> (\<exists>at \<le> snd p. child_end (fst p) = Some (at, st)))"

lemma with_signals_Nil [simp]: "with_signals c [] = c"
  by (cases c) (simp add: with_signals_def)

lemma with_signals_same:
  "same_child c d \<Longrightarrow> same_child (with_signals c sigs) (d\<lparr>ch_fails := fs, ch_signals := ch_signals d @ sigs\<rparr>)"
  by (cases c) (auto simp: same_child_def with_signals_def)

lemma stopped_now:
  "same_child (with_signals c sigs) d \<Longrightarrow> escalation c now sigs \<Longrightarrow> now \<le> t \<Longrightarrow>
   t < now + GRACE_MS + NAP_MS \<Longrightarrow>
   (\<And>st. r = Inr st \<Longrightarrow> \<exists>at \<le> t. child_end d = Some (at, st)) \<Longrightarrow> stopped c now r (d, t)"
  by (auto simp: stopped_def)

lemma GRACE_NAP_pos: "now < now + GRACE_MS + NAP_MS"
  by (simp add: GRACE_MS_eq)

lemma stop_after_grace:
  assumes d: "same_child (with_signals c [(now, SIGTERM)]) d" and alive: "alive_at c now"
    and k: "now + GRACE_MS \<le> k" "k < now + GRACE_MS + NAP_MS"
  shows "\<exists>r p. (case try_wait (d, k) of
       (Inl e, p) \<Rightarrow> Some (Inl e, p)
     | (Inr (Some _), p) \<Rightarrow> wait_child p
     | (Inr None, p) \<Rightarrow>
         (case kill_process SIGKILL p of (Inl e, p) \<Rightarrow> Some (Inl e, p) | (Inr _, p) \<Rightarrow> wait_child p)) = Some (r, p) \<and>
     stopped c now r p"
proof -
  have esc1: "escalation c now [(now, SIGTERM)]" using alive by (simp add: escalation_def)
  obtain q d1 k1 where t: "try_wait (d, k) = (q, (d1, k1))" by (metis surj_pair)
  note tw = try_wait_result [OF t]
  then have d1: "same_child (with_signals c [(now, SIGTERM)]) d1" "k1 = k"
    using d same_child_trans by blast+
  show ?thesis
  proof (cases q)
    case (Inl e)
    moreover have "stopped c now (Inl e) (d1, k)"
      using k by (intro stopped_now [OF d1(1) esc1]) auto
    ultimately show ?thesis using t d1(2) by simp
  next
    case (Inr o1)
    show ?thesis
    proof (cases o1)
      case (Some st)
      with Inr tw obtain at where at: "at \<le> k" "child_end d = Some (at, st)" by auto
      then have "child_end d1 = Some (at, st)" using tw same_child_fields by auto
      from wait_child_result [OF this, of k] obtain r d2 k2 where w: "wait_child (d1, k) = Some (r, (d2, k2))"
        "same_child d1 d2" "k \<le> k2" "k2 \<le> max k at" "\<forall>st'. r = Inr st' \<longrightarrow> st' = st \<and> at \<le> k2" by blast
      have "child_end d2 = Some (at, st)"
        using w(2) \<open>child_end d1 = Some (at, st)\<close> same_child_fields by auto
      then have "stopped c now r (d2, k2)"
        using k at(1) w same_child_trans [OF d1(1) w(2)] by (intro stopped_now [OF _ esc1]) auto
      with t Some Inr d1(2) w(1) show ?thesis by simp
    next
      case None
      with Inr tw have alive2: "alive_at d k" by (simp add: alive_at_def)
      obtain u d2 k2 where kill: "kill_process SIGKILL (d1, k) = (u, (d2, k2))" by (metis surj_pair)
      note kr = kill_process_result [OF kill]
      show ?thesis
      proof (cases u)
        case (Inl e)
        with kr have d2: "k2 = k" "same_child (with_signals c [(now, SIGTERM)]) d2"
          using d1 same_child_trans by blast+
        have "stopped c now (Inl e) (d2, k)"
          using k by (intro stopped_now [OF d2(2) esc1]) auto
        with t None Inr d1(2) kill d2(1) \<open>u = Inl e\<close> show ?thesis by simp
      next
        case (Inr v)
        with kr obtain fs where d2: "d2 = d1\<lparr>ch_fails := fs, ch_signals := ch_signals d1 @ [(k, SIGKILL)]\<rparr>" "k2 = k"
          by auto
        let ?sigs = "[(now, SIGTERM), (k, SIGKILL)]"
        have same2: "same_child (with_signals c ?sigs) d2"
          using with_signals_same [OF d1(1), of "[(k, SIGKILL)]" fs] d2(1)
          by (simp add: with_signals_def)
        have esc: "escalation c now ?sigs"
          using alive alive2 k same_child_fields [OF d] by (auto simp: escalation_def alive_at_def)
        have kill_delay: "ch_on_kill d2 = ch_on_kill c"
          using same_child_fields [OF same2] by (simp add: with_signals_def)
        have "(k, SIGKILL) \<in> set (ch_signals d2)" by (simp add: d2(1))
        then obtain at st where at: "child_end d2 = Some (at, st)" "at \<le> k + fst (ch_on_kill c)"
          using child_end_killed [of k d2] kill_delay by auto
        from wait_child_result [OF at(1), of k] obtain r d3 k3 where w: "wait_child (d2, k) = Some (r, (d3, k3))"
          "same_child d2 d3" "k \<le> k3" "k3 \<le> max k at" "\<forall>st'. r = Inr st' \<longrightarrow> st' = st \<and> at \<le> k3" by blast
        have "child_end d3 = Some (at, st)" using at(1) same_child_fields [OF w(2)] by simp
        then have "stopped c now r (d3, k3)"
          using k at(2) w same_child_trans [OF same2 w(2)] esc unfolding stopped_def
          by (auto simp: max_def split: if_splits)
        with t None \<open>q = Inr o1\<close> d1(2) kill d2(2) Inr w(1) show ?thesis by simp
      qed
    qed
  qed
qed

lemma stop_child_result: "\<exists>r p. stop_child (c, now) = Some (r, p) \<and> stopped c now r p"
proof -
  have none: "escalation c now []" by (simp add: escalation_def)
  obtain q c1 now1 where t: "try_wait (c, now) = (q, (c1, now1))" by (metis surj_pair)
  note tw = try_wait_result [OF t]
  then have c1: "same_child (with_signals c []) c1" "now1 = now" by simp_all
  have stop1: "stopped c now (Inl e) (c1, now)" for e
    by (rule stopped_now [OF c1(1) none]) (simp_all add: GRACE_NAP_pos)
  show ?thesis
  proof (cases q)
    case (Inl e)
    with t c1 stop1 show ?thesis by (simp add: stop_child_def)
  next
    case (Inr o1)
    show ?thesis
    proof (cases o1)
      case (Some st)
      with Inr tw obtain at where "at \<le> now" "child_end c1 = Some (at, st)"
        using same_child_fields by auto
      then have "stopped c now (Inr st) (c1, now)"
        by (intro stopped_now [OF c1(1) none]) (auto simp: GRACE_NAP_pos)
      with t c1 Some Inr show ?thesis by (simp add: stop_child_def)
    next
      case None
      with Inr tw have alive: "alive_at c now" by (simp add: alive_at_def)
      then have esc1: "escalation c now [(now, SIGTERM)]" by (simp add: escalation_def)
      obtain u c2 now2 where kill: "kill_process SIGTERM (c1, now) = (u, (c2, now2))" by (metis surj_pair)
      note kr = kill_process_result [OF kill]
      show ?thesis
      proof (cases "valid_pid (ch_id c1)")
        case False
        with t c1 None Inr stop1 show ?thesis by (simp add: stop_child_def)
      next
        case valid: True
        show ?thesis
        proof (cases u)
          case (Inl e)
          with kr have c2: "now2 = now" "same_child (with_signals c []) c2"
            using c1 same_child_trans by blast+
          have "stopped c now (Inl e) (c2, now)"
            by (rule stopped_now [OF c2(2) none]) (simp_all add: GRACE_NAP_pos)
          with t c1 None \<open>q = Inr o1\<close> valid kill Inl c2 show ?thesis by (simp add: stop_child_def)
        next
          case (Inr v)
          with kr obtain fs where c2: "c2 = c1\<lparr>ch_fails := fs, ch_signals := ch_signals c1 @ [(now, SIGTERM)]\<rparr>" "now2 = now"
            by auto
          then have same2: "same_child (with_signals c [(now, SIGTERM)]) c2"
            using with_signals_same [of c c1] c1(1) by simp
          obtain g d k where g: "grace_loop (now + GRACE_MS) (c2, now) = (g, (d, k))" by (metis surj_pair)
          note gr = grace_loop_result [OF g]
          have k: "now \<le> k" "k < now + GRACE_MS + NAP_MS"
            using gr by (auto simp: GRACE_MS_eq)
          have d: "same_child (with_signals c [(now, SIGTERM)]) d"
            using gr same_child_trans [OF same2] by blast
          have pre: "stop_child (c, now) = (case (g, (d, k)) of
              (Inl e, p) \<Rightarrow> Some (Inl e, p)
            | (Inr (Some st), p) \<Rightarrow> Some (Inr st, p)
            | (Inr None, p) \<Rightarrow>
               (case try_wait p of
                  (Inl e, p) \<Rightarrow> Some (Inl e, p)
                | (Inr (Some _), p) \<Rightarrow> wait_child p
                | (Inr None, p) \<Rightarrow>
                    (case kill_process SIGKILL p of (Inl e, p) \<Rightarrow> Some (Inl e, p) | (Inr _, p) \<Rightarrow> wait_child p)))"
            using t c1 None \<open>q = Inr o1\<close> valid kill Inr c2(2) g by (simp add: stop_child_def)
          show ?thesis
          proof (cases g)
            case (Inl e)
            moreover have "stopped c now (Inl e) (d, k)"
              using k by (intro stopped_now [OF d esc1]) auto
            ultimately show ?thesis using pre by simp
          next
            case (Inr o2)
            show ?thesis
            proof (cases o2)
              case (Some st)
              have "\<exists>at \<le> k. child_end d = Some (at, st)"
                using gr Some Inr same_child_fields [of c2 d] by auto
              then have "stopped c now (Inr st) (d, k)"
                using k by (intro stopped_now [OF d esc1]) auto
              with pre Some Inr show ?thesis by simp
            next
              case None
              with Inr gr have "now + GRACE_MS \<le> k" by simp
              from stop_after_grace [OF d alive this k(2)] pre None Inr show ?thesis by simp
            qed
          qed
        qed
      qed
    qed
  qed
qed

section \<open>Properties\<close>

text \<open>
  C21: Stopping a child always returns: whatever the child does with SIGTERM and whichever
  call fails, within the grace period, one nap and the child's reaction to SIGKILL; and a
  status it reports is the one the child has ended with.
\<close>

theorem stop_child_returns:
  "\<exists>r c' now'. stop_child (c, now) = Some (r, (c', now')) \<and> now \<le> now' \<and>
     now' < now + 5050 + fst (ch_on_kill c) \<and>
     (case r of Inl _ \<Rightarrow> True | Inr st \<Rightarrow> \<exists>at \<le> now'. child_end c' = Some (at, st))"
proof -
  obtain r p where "stop_child (c, now) = Some (r, p)" "stopped c now r p"
    using stop_child_result by blast
  then show ?thesis
    by (cases p; cases r) (auto simp: stopped_def GRACE_MS_eq NAP_MS_def)
qed

text \<open>
  C20: A child that has ended gets no signal; any other gets SIGTERM at once, and SIGKILL
  only after it has outlived the five seconds of grace.
\<close>

theorem stop_child_escalates:
  assumes "stop_child (c, now) = Some (r, (c', now'))"
  shows "\<exists>sigs. ch_signals c' = ch_signals c @ sigs \<and>
    (sigs = [] \<or>
     alive_at c now \<and>
     (sigs = [(now, SIGTERM)] \<or>
      (\<exists>k. now + 5000 \<le> k \<and> k < now + 5050 \<and> sigs = [(now, SIGTERM), (k, SIGKILL)] \<and>
         alive_at (with_signals c [(now, SIGTERM)]) k)))"
proof -
  have "stopped c now r (c', now')"
    using stop_child_result [of c now] assms by auto
  then obtain sigs where sigs: "same_child (with_signals c sigs) c'" "escalation c now sigs"
    by (auto simp: stopped_def)
  have "ch_signals c' = ch_signals c @ sigs"
    using same_child_fields [OF sigs(1)] by (simp add: with_signals_def)
  with sigs(2) show ?thesis
    by (auto simp: escalation_def GRACE_MS_eq NAP_MS_def)
qed

definition stubborn_child :: child where
  "stubborn_child = \<lparr>ch_id = 7, ch_natural = None, ch_on_term = None,
     ch_on_kill = (3, \<lparr>es_code = None, es_signal = Some 9\<rparr>), ch_signals = [], ch_fails = []\<rparr>"

lemma stop_child_escalates_witness:
  "\<exists>r c' now' sigs. stop_child (stubborn_child, 100) = Some (r, (c', now')) \<and>
     ch_signals c' = ch_signals stubborn_child @ sigs"
proof -
  obtain r c' now' where s: "stop_child (stubborn_child, 100) = Some (r, (c', now'))"
    using stop_child_result [of stubborn_child 100] by fastforce
  then show ?thesis using stop_child_escalates [OF s] by blast
qed

end
