(* ===== verification/Os_Model.thy ===== *)
theory Os_Model
  imports Std_Io "HOL-Library.AList"
begin

text \<open>
  The operating system as the program sees it through \<open>std::fs\<close>, \<open>std::os::unix::net\<close> and
  \<open>std::env\<close>: one process's view of a file system (paths to entries with owner, mode and
  contents), its identity, its clock and its environment variables.

  A path is a byte string and a directory is the set of paths one component below it.
  Every call first consults \<open>faults\<close>, an arbitrary assignment of failures to calls, so that
  a statement about all states covers every I/O error the code can meet; \<open>no_faults\<close> is the
  state in which calls fail only for the reasons modelled here.  An operation runs without
  other processes changing the file system between its calls; \<open>Registry_Race\<close> is about the
  operation for which that matters most, where they do.
\<close>

section \<open>Streams and sockets\<close>

text \<open>A connected \<open>UnixStream\<close>: what it will deliver, and what has been written to it.\<close>

record stream =
  s_in :: reader
  s_out :: writer

text \<open>
  A bound Unix socket: the process that has bound it; why a connection is refused, if it is;
  the credentials \<open>get_peer_ids\<close> reports for the listener; the stream a client gets.
\<close>

record listener =
  l_pid :: u32
  l_refuses :: "io_error option"
  l_peer :: "(u32 \<times> u32) io_result"
  l_stream :: stream

section \<open>Entries\<close>

datatype node = Regular "byte list" | Directory | Symlink path | Socket listener

record entry =
  e_node :: node
  e_uid :: u32
  e_mode :: u32

definition is_file :: "entry \<Rightarrow> bool" where
  "is_file e = (case e_node e of Regular _ \<Rightarrow> True | _ \<Rightarrow> False)"

definition is_dir :: "entry \<Rightarrow> bool" where
  "is_dir e = (case e_node e of Directory \<Rightarrow> True | _ \<Rightarrow> False)"

definition is_symlink :: "entry \<Rightarrow> bool" where
  "is_symlink e = (case e_node e of Symlink _ \<Rightarrow> True | _ \<Rightarrow> False)"

definition is_socket :: "entry \<Rightarrow> bool" where
  "is_socket e = (case e_node e of Socket _ \<Rightarrow> True | _ \<Rightarrow> False)"

definition metadata_len :: "entry \<Rightarrow> nat" where
  "metadata_len e = (case e_node e of Regular xs \<Rightarrow> length xs | _ \<Rightarrow> 0)"

datatype syscall =
    Sys_lstat | Sys_stat | Sys_chmod | Sys_mkdir | Sys_unlink | Sys_open | Sys_create | Sys_read
  | Sys_write | Sys_sync | Sys_rename | Sys_readdir | Sys_bind | Sys_nonblock | Sys_connect

record os =
  files :: "(path \<times> entry) list"
  faults :: "syscall \<Rightarrow> path \<Rightarrow> io_error option"
  os_uid :: u32
  os_gid :: u32
  os_pid :: u32
  os_umask :: u32
  clock :: int
  env_home :: "os_string option"
  env_shell :: "os_string option"

definition look :: "os \<Rightarrow> path \<Rightarrow> entry option" where
  "look s p = map_of (files s) p"

definition set_entry :: "path \<Rightarrow> entry \<Rightarrow> os \<Rightarrow> os" where
  "set_entry p e s = s\<lparr>files := AList.update p e (files s)\<rparr>"

definition del_entry :: "path \<Rightarrow> os \<Rightarrow> os" where
  "del_entry p s = s\<lparr>files := AList.delete p (files s)\<rparr>"

definition syscall :: "syscall \<Rightarrow> path \<Rightarrow> (os, 'a) io \<Rightarrow> (os, 'a) io" where
  "syscall c p m = (\<lambda>s. case faults s c p of Some e \<Rightarrow> (Inl e, s) | None \<Rightarrow> m s)"

definition no_faults :: "os \<Rightarrow> bool" where
  "no_faults s \<longleftrightarrow> faults s = (\<lambda>_ _. None)"

section \<open>Paths\<close>

definition slash :: byte where
  "slash = 47"

definition path_is_absolute :: "path \<Rightarrow> bool" where
  "path_is_absolute p = (case p of [] \<Rightarrow> False | c # _ \<Rightarrow> c = slash)"

definition with_slash :: "path \<Rightarrow> path" where
  "with_slash p = (if p \<noteq> [] \<and> last p = slash then p else p @ [slash])"

text \<open>\<open>Path::join\<close> with a relative name\<close>

definition path_join :: "path \<Rightarrow> byte list \<Rightarrow> path" where
  "path_join p name = with_slash p @ name"

text \<open>\<open>Path::file_name\<close> and \<open>Path::with_file_name\<close> of a path that ends in a name\<close>

definition path_file_name :: "path \<Rightarrow> byte list" where
  "path_file_name p = rev (takeWhile (\<lambda>c. c \<noteq> slash) (rev p))"

definition path_with_file_name :: "path \<Rightarrow> byte list \<Rightarrow> path" where
  "path_with_file_name p name = rev (dropWhile (\<lambda>c. c \<noteq> slash) (rev p)) @ name"

text \<open>The name of \<open>p\<close> in the directory \<open>d\<close>, if it is directly below it\<close>

definition name_in :: "path \<Rightarrow> path \<Rightarrow> byte list option" where
  "name_in d p =
     (let name = drop (length (with_slash d)) p
      in if take (length (with_slash d)) p = with_slash d \<and> name \<noteq> [] \<and> slash \<notin> set name
         then Some name else None)"

section \<open>Calls\<close>

text \<open>\<open>fs::symlink_metadata\<close>\<close>

definition fs_lstat :: "path \<Rightarrow> (os, entry) io" where
  "fs_lstat p = syscall Sys_lstat p (\<lambda>s.
     case look s p of None \<Rightarrow> (Inl (io_error_new NotFound), s) | Some e \<Rightarrow> (Inr e, s))"

text \<open>\<open>fs::metadata\<close>, which follows symbolic links, forty at most\<close>

fun follow :: "nat \<Rightarrow> os \<Rightarrow> path \<Rightarrow> io_error + entry" where
  "follow 0 s p = Inl (io_error_new Uncategorized)"
| "follow (Suc n) s p =
     (case look s p of
        None \<Rightarrow> Inl (io_error_new NotFound)
      | Some e \<Rightarrow> (case e_node e of Symlink target \<Rightarrow> follow n s target | _ \<Rightarrow> Inr e))"

definition fs_stat :: "path \<Rightarrow> (os, entry) io" where
  "fs_stat p = syscall Sys_stat p (\<lambda>s. (follow 41 s p, s))"

text \<open>\<open>fs::set_permissions\<close> on an entry that is not a symbolic link\<close>

definition fs_chmod :: "path \<Rightarrow> u32 \<Rightarrow> (os, unit) io" where
  "fs_chmod p mode = syscall Sys_chmod p (\<lambda>s.
     case look s p of
       None \<Rightarrow> (Inl (io_error_new NotFound), s)
     | Some e \<Rightarrow> (Inr (), set_entry p (e\<lparr>e_mode := mode\<rparr>) s))"

definition new_entry :: "node \<Rightarrow> u32 \<Rightarrow> os \<Rightarrow> entry" where
  "new_entry n mode s = \<lparr>e_node = n, e_uid = os_uid s, e_mode = mode AND NOT (os_umask s)\<rparr>"

text \<open>\<open>DirBuilder::create\<close>\<close>

definition fs_mkdir :: "path \<Rightarrow> u32 \<Rightarrow> (os, unit) io" where
  "fs_mkdir p mode = syscall Sys_mkdir p (\<lambda>s.
     case look s p of
       Some _ \<Rightarrow> (Inl (io_error_new AlreadyExists), s)
     | None \<Rightarrow> (Inr (), set_entry p (new_entry Directory mode s) s))"

text \<open>\<open>fs::remove_file\<close>\<close>

definition fs_remove_file :: "path \<Rightarrow> (os, unit) io" where
  "fs_remove_file p = syscall Sys_unlink p (\<lambda>s.
     case look s p of
       None \<Rightarrow> (Inl (io_error_new NotFound), s)
     | Some e \<Rightarrow> if is_dir e then (Inl (io_error_new Uncategorized), s) else (Inr (), del_entry p s))"

text \<open>\<open>OpenOptions::create_new\<close>\<close>

definition fs_create_new :: "path \<Rightarrow> u32 \<Rightarrow> (os, unit) io" where
  "fs_create_new p mode = syscall Sys_create p (\<lambda>s.
     case look s p of
       Some _ \<Rightarrow> (Inl (io_error_new AlreadyExists), s)
     | None \<Rightarrow> (Inr (), set_entry p (new_entry (Regular []) mode s) s))"

text \<open>\<open>File::open\<close>, and a bounded \<open>read_to_end\<close>\<close>

definition fs_open :: "path \<Rightarrow> (os, unit) io" where
  "fs_open p = syscall Sys_open p (\<lambda>s.
     case follow 41 s p of
       Inl e \<Rightarrow> (Inl e, s)
     | Inr e \<Rightarrow> if is_socket e then (Inl (io_error_new Uncategorized), s) else (Inr (), s))"

definition fs_read_to_end :: "path \<Rightarrow> nat \<Rightarrow> (os, byte list) io" where
  "fs_read_to_end p limit = syscall Sys_read p (\<lambda>s.
     case follow 41 s p of
       Inl e \<Rightarrow> (Inl e, s)
     | Inr e \<Rightarrow> (case e_node e of
         Regular xs \<Rightarrow> (Inr (take limit xs), s) | _ \<Rightarrow> (Inl (io_error_new Uncategorized), s)))"

text \<open>
  \<open>write_all\<close> to a file that is open for appending.  A file whose name is gone takes the
  bytes without any effect on the file system.
\<close>

definition fs_append :: "path \<Rightarrow> byte list \<Rightarrow> (os, unit) io" where
  "fs_append p xs = syscall Sys_write p (\<lambda>s.
     case look s p of
       None \<Rightarrow> (Inr (), s)
     | Some e \<Rightarrow> (case e_node e of
         Regular ys \<Rightarrow> (Inr (), set_entry p (e\<lparr>e_node := Regular (ys @ xs)\<rparr>) s)
       | _ \<Rightarrow> (Inr (), s)))"

definition fs_sync_all :: "path \<Rightarrow> (os, unit) io" where
  "fs_sync_all p = syscall Sys_sync p (io_ok ())"

text \<open>\<open>fs::rename\<close> replaces the target, unless it is a directory.\<close>

definition fs_rename :: "path \<Rightarrow> path \<Rightarrow> (os, unit) io" where
  "fs_rename p q = syscall Sys_rename q (\<lambda>s.
     case look s p of
       None \<Rightarrow> (Inl (io_error_new NotFound), s)
     | Some e \<Rightarrow>
         if (case look s q of Some e' \<Rightarrow> is_dir e' | None \<Rightarrow> False)
         then (Inl (io_error_new Uncategorized), s)
         else (Inr (), set_entry q e (del_entry p s)))"

text \<open>\<open>fs::read_dir\<close>: the names below a directory, in the order the system has them\<close>

definition fs_read_dir :: "path \<Rightarrow> (os, byte list list) io" where
  "fs_read_dir d = syscall Sys_readdir d (\<lambda>s.
     case look s d of
       None \<Rightarrow> (Inl (io_error_new NotFound), s)
     | Some e \<Rightarrow>
         if is_dir e then (Inr (List.map_filter (\<lambda>(p, _). name_in d p) (files s)), s)
         else (Inl (io_error_new Uncategorized), s))"

text \<open>\<open>UnixListener::bind\<close>: the socket gets the mode the umask leaves of 0777.\<close>

definition own_listener :: "os \<Rightarrow> listener" where
  "own_listener s = \<lparr>l_pid = os_pid s, l_refuses = None, l_peer = Inr (os_uid s, os_gid s),
     l_stream = \<lparr>s_in = \<lparr>read_plan = [], when_dry = Would_block\<rparr>, s_out = vec_writer\<rparr>\<rparr>"

definition fs_bind :: "path \<Rightarrow> (os, unit) io" where
  "fs_bind p = syscall Sys_bind p (\<lambda>s.
     case look s p of
       Some _ \<Rightarrow> (Inl (io_error_new AddrInUse), s)
     | None \<Rightarrow> (Inr (), set_entry p (new_entry (Socket (own_listener s)) 511 s) s))"

text \<open>
  Dropping a listener: its socket file stays, and refuses connections.  A socket that another
  process has put in its place does not change.
\<close>

definition fs_close_listener :: "path \<Rightarrow> (os, unit) io" where
  "fs_close_listener p = (\<lambda>s.
     case look s p of
       Some e \<Rightarrow> (case e_node e of
           Socket l \<Rightarrow>
             (Inr (), if l_pid l \<noteq> os_pid s then s
               else set_entry p (e\<lparr>e_node := Socket (l\<lparr>l_refuses := Some (io_error_new ConnectionRefused)\<rparr>)\<rparr>) s)
         | _ \<Rightarrow> (Inr (), s))
     | None \<Rightarrow> (Inr (), s))"

definition fs_set_nonblocking :: "path \<Rightarrow> (os, unit) io" where
  "fs_set_nonblocking p = syscall Sys_nonblock p (io_ok ())"

text \<open>\<open>UnixStream::connect\<close>\<close>

definition fs_connect :: "path \<Rightarrow> (os, listener) io" where
  "fs_connect p = syscall Sys_connect p (\<lambda>s.
     case look s p of
       None \<Rightarrow> (Inl (io_error_new NotFound), s)
     | Some e \<Rightarrow> (case e_node e of
         Socket l \<Rightarrow> (case l_refuses l of Some err \<Rightarrow> (Inl err, s) | None \<Rightarrow> (Inr l, s))
       | _ \<Rightarrow> (Inl (io_error_new ConnectionRefused), s)))"

section \<open>What a call changes\<close>

lemma look_set_entry [simp]: "look (set_entry p e s) = (look s)(p \<mapsto> e)"
  by (simp add: look_def set_entry_def update_conv' fun_eq_iff)

lemma look_del_entry [simp]: "look (del_entry p s) = (look s)(p := None)"
  by (simp add: look_def del_entry_def delete_conv' fun_eq_iff)

text \<open>Everything of the state but the files.\<close>

definition same_process :: "os \<Rightarrow> os \<Rightarrow> bool" where
  "same_process s t \<longleftrightarrow> t = s\<lparr>files := files t\<rparr>"

lemma same_process_refl [simp]: "same_process s s"
  by (simp add: same_process_def)

lemma same_process_trans: "same_process s t \<Longrightarrow> same_process t u \<Longrightarrow> same_process s u"
  by (cases s; cases t; cases u) (simp add: same_process_def)

lemma same_process_set [simp]: "same_process s (set_entry p e s)"
  by (simp add: same_process_def set_entry_def)

lemma same_process_del [simp]: "same_process s (del_entry p s)"
  by (simp add: same_process_def del_entry_def)

lemma same_process_fields:
  assumes "same_process s t"
  shows "faults t = faults s" "os_uid t = os_uid s" "os_pid t = os_pid s" "os_umask t = os_umask s"
    "clock t = clock s" "env_home t = env_home s" "env_shell t = env_shell s" "os_gid t = os_gid s"
  using assms by (cases s; cases t; simp add: same_process_def)+

section \<open>Which paths an operation can change\<close>

definition changes_only :: "path set \<Rightarrow> os \<Rightarrow> os \<Rightarrow> bool" where
  "changes_only P s t \<longleftrightarrow> same_process s t \<and> (\<forall>q. q \<notin> P \<longrightarrow> look t q = look s q)"

definition touches :: "path set \<Rightarrow> (os, 'a) io \<Rightarrow> bool" where
  "touches P m \<longleftrightarrow> (\<forall>s r t. m s = (r, t) \<longrightarrow> changes_only P s t)"

named_theorems touching "the paths an operation can change"

lemma changes_only_refl [simp]: "changes_only P s s"
  by (simp add: changes_only_def)

lemma changes_only_trans: "changes_only P s t \<Longrightarrow> changes_only P t u \<Longrightarrow> changes_only P s u"
  by (auto simp: changes_only_def intro: same_process_trans)

lemma changes_only_mono: "changes_only P s t \<Longrightarrow> P \<subseteq> Q \<Longrightarrow> changes_only Q s t"
  by (auto simp: changes_only_def)

lemma changes_only_empty: "changes_only {} s t \<Longrightarrow> same_process s t \<and> look t = look s"
  by (auto simp: changes_only_def)

lemma changes_only_look: "changes_only P s t \<Longrightarrow> q \<notin> P \<Longrightarrow> look t q = look s q"
  by (simp add: changes_only_def)

lemma touches_mono: "touches P m \<Longrightarrow> P \<subseteq> Q \<Longrightarrow> touches Q m"
  by (auto simp: touches_def intro: changes_only_mono)

lemma touchesD: "touches P m \<Longrightarrow> m s = (r, t) \<Longrightarrow> changes_only P s t"
  by (simp add: touches_def)

lemma touches_io_ok [touching]: "touches P (io_ok a)"
  by (simp add: touches_def io_ok_def)

lemma touches_io_fail [touching]: "touches P (io_fail e)"
  by (simp add: touches_def io_fail_def)

lemma touches_io_match [touching]:
  "touches P m \<Longrightarrow> (\<And>e. touches P (h e)) \<Longrightarrow> (\<And>a. touches P (f a)) \<Longrightarrow> touches P (io_match m h f)"
  by (fastforce simp: touches_def io_match_def split: prod.splits sum.splits
      intro: changes_only_trans)

lemma touches_io_try [touching]:
  "touches P m \<Longrightarrow> (\<And>a. touches P (f a)) \<Longrightarrow> touches P (io_try m f)"
  unfolding io_try_def by (intro touches_io_match touches_io_fail)

lemma touches_io_ignore [touching]: "touches P m \<Longrightarrow> touches P f \<Longrightarrow> touches P (io_ignore m f)"
  unfolding io_ignore_def by (intro touches_io_match)

lemma touches_state: "(\<And>s. touches P (f s)) \<Longrightarrow> touches P (\<lambda>s. f s s)"
  by (simp add: touches_def)

lemma touches_syscall:
  "(\<And>s r t. m s = (r, t) \<Longrightarrow> changes_only P s t) \<Longrightarrow> touches P (syscall c p m)"
  by (auto simp: touches_def syscall_def split: option.splits)

lemma changes_only_set [simp]: "p \<in> P \<Longrightarrow> changes_only P s (set_entry p e s)"
  by (auto simp: changes_only_def)

lemma changes_only_del [simp]: "p \<in> P \<Longrightarrow> changes_only P s (del_entry p s)"
  by (auto simp: changes_only_def)

lemma touches_reads [touching]:
  "touches P (fs_lstat p)" "touches P (fs_stat p)" "touches P (fs_open p)"
  "touches P (fs_read_to_end p n)" "touches P (fs_sync_all p)" "touches P (fs_read_dir p)"
  "touches P (fs_set_nonblocking p)" "touches P (fs_connect p)"
  unfolding fs_lstat_def fs_stat_def fs_open_def fs_read_to_end_def fs_sync_all_def fs_read_dir_def
    fs_set_nonblocking_def fs_connect_def
  by (auto intro!: touches_syscall simp: io_ok_def
      split: option.splits sum.splits node.splits if_splits)

lemma touches_writes [touching]:
  "p \<in> P \<Longrightarrow> touches P (fs_chmod p mode)" "p \<in> P \<Longrightarrow> touches P (fs_mkdir p mode)"
  "p \<in> P \<Longrightarrow> touches P (fs_remove_file p)" "p \<in> P \<Longrightarrow> touches P (fs_create_new p mode)"
  "p \<in> P \<Longrightarrow> touches P (fs_append p xs)" "p \<in> P \<Longrightarrow> touches P (fs_bind p)"
  "p \<in> P \<Longrightarrow> touches P (fs_close_listener p)"
  by (auto simp: fs_chmod_def fs_mkdir_def fs_remove_file_def fs_create_new_def fs_append_def
      fs_bind_def fs_close_listener_def touches_def syscall_def
      split: option.splits node.splits if_splits)

lemma touches_rename [touching]: "p \<in> P \<Longrightarrow> q \<in> P \<Longrightarrow> touches P (fs_rename p q)"
  unfolding fs_rename_def
  by (auto intro!: touches_syscall split: option.splits if_splits
      intro: changes_only_trans [OF changes_only_del changes_only_set])

text \<open>Operations that change nothing at all.\<close>

definition reads :: "(os, 'a) io \<Rightarrow> bool" where
  "reads m \<longleftrightarrow> (\<forall>s. snd (m s) = s)"

named_theorems reading "operations that only read"

lemma readsD: "reads m \<Longrightarrow> m s = (r, t) \<Longrightarrow> t = s"
  by (metis reads_def snd_conv)

lemma reads_touches: "reads m \<Longrightarrow> touches P m"
  by (auto simp: touches_def dest: readsD)

lemma reads_combinators [reading]:
  "reads (io_ok a)" "reads (io_fail e)"
  "reads m \<Longrightarrow> (\<And>e. reads (h e)) \<Longrightarrow> (\<And>b. reads (f b)) \<Longrightarrow> reads (io_match m h f)"
  "reads m \<Longrightarrow> (\<And>b. reads (f b)) \<Longrightarrow> reads (io_try m f)"
  "reads m \<Longrightarrow> reads n \<Longrightarrow> reads (io_ignore m n)"
  by (auto simp: reads_def io_simps split: prod.splits sum.splits) (metis snd_conv)+

lemma reads_calls [reading]:
  "reads (fs_lstat p)" "reads (fs_stat p)" "reads (fs_open p)" "reads (fs_read_to_end p n)"
  "reads (fs_sync_all p)" "reads (fs_read_dir p)" "reads (fs_set_nonblocking p)"
  "reads (fs_connect p)"
  by (auto simp: reads_def fs_lstat_def fs_stat_def fs_open_def fs_read_to_end_def fs_sync_all_def
      fs_read_dir_def fs_set_nonblocking_def fs_connect_def syscall_def io_ok_def
      split: option.splits sum.splits node.splits)

section \<open>Results of the calls\<close>

text \<open>A failed call leaves everything as it was; a successful one did what its name says.\<close>

lemma failed_calls:
  "fs_lstat p s = (Inl e, t) \<Longrightarrow> t = s" "fs_chmod p mode s = (Inl e, t) \<Longrightarrow> t = s"
  "fs_remove_file p s = (Inl e, t) \<Longrightarrow> t = s" "fs_create_new p mode s = (Inl e, t) \<Longrightarrow> t = s"
  "fs_append p xs s = (Inl e, t) \<Longrightarrow> t = s" "fs_rename p q s = (Inl e, t) \<Longrightarrow> t = s"
  "fs_bind p s = (Inl e, t) \<Longrightarrow> t = s"
  by (auto simp: fs_lstat_def fs_chmod_def fs_remove_file_def fs_create_new_def fs_append_def
      fs_rename_def fs_bind_def syscall_def split: option.splits node.splits if_splits)

lemma fs_lstat_Inr: "fs_lstat p s = (Inr e, t) \<Longrightarrow> t = s \<and> look s p = Some e"
  by (auto simp: fs_lstat_def syscall_def split: option.splits)

lemma fs_create_new_Inr:
  "fs_create_new p mode s = (Inr u, t) \<Longrightarrow>
   look s p = None \<and> t = set_entry p (new_entry (Regular []) mode s) s"
  by (auto simp: fs_create_new_def syscall_def split: option.splits)

lemma fs_append_Inr:
  "fs_append p xs s = (Inr u, t) \<Longrightarrow> look s p = Some e \<Longrightarrow> e_node e = Regular ys \<Longrightarrow>
   t = set_entry p (e\<lparr>e_node := Regular (ys @ xs)\<rparr>) s"
  by (auto simp: fs_append_def syscall_def split: option.splits)

lemma fs_rename_Inr:
  "fs_rename p q s = (Inr u, t) \<Longrightarrow>
   \<exists>e. look s p = Some e \<and> t = set_entry q e (del_entry p s)"
  by (auto simp: fs_rename_def syscall_def split: option.splits if_splits)

lemma fs_remove_file_Inr:
  "fs_remove_file p s = (Inr u, t) \<Longrightarrow> t = del_entry p s"
  by (auto simp: fs_remove_file_def syscall_def split: option.splits if_splits)

lemma fs_sync_all_state: "fs_sync_all p s = (r, t) \<Longrightarrow> t = s"
  by (auto simp: fs_sync_all_def syscall_def io_ok_def split: option.splits)

lemma fs_bind_Inr:
  "fs_bind p s = (Inr u, t) \<Longrightarrow>
   look s p = None \<and> t = set_entry p (new_entry (Socket (own_listener s)) 511 s) s"
  by (auto simp: fs_bind_def syscall_def split: option.splits)

lemma fs_chmod_Inr:
  "fs_chmod p mode s = (Inr u, t) \<Longrightarrow>
   \<exists>e. look s p = Some e \<and> t = set_entry p (e\<lparr>e_mode := mode\<rparr>) s"
  by (auto simp: fs_chmod_def syscall_def split: option.splits)

section \<open>Paths below a directory\<close>

lemma path_join_inject [simp]: "path_join d a = path_join d b \<longleftrightarrow> a = b"
  by (simp add: path_join_def)

lemma with_slash_ends: "\<exists>d'. with_slash d = d' @ [slash]"
  by (cases d rule: rev_cases) (auto simp: with_slash_def)

lemma path_file_name_join: "slash \<notin> set name \<Longrightarrow> path_file_name (path_join d name) = name"
  using with_slash_ends [of d]
  by (auto simp: path_file_name_def path_join_def takeWhile_append)

lemma path_with_file_name_join:
  "slash \<notin> set name \<Longrightarrow> path_with_file_name (path_join d name) other = path_join d other"
  using with_slash_ends [of d]
  by (auto simp: path_with_file_name_def path_join_def dropWhile_append)

lemma name_in_join: "name \<noteq> [] \<Longrightarrow> slash \<notin> set name \<Longrightarrow> name_in d (path_join d name) = Some name"
  by (simp add: name_in_def path_join_def)

text \<open>Names that begin with a dot: the temporary files of an atomic replacement.\<close>

definition hidden :: "path \<Rightarrow> bool" where
  "hidden p \<longleftrightarrow> (case path_file_name p of [] \<Rightarrow> False | c # _ \<Rightarrow> c = 46)"

end
