(* ===== verification/Registry.thy ===== *)
theory Registry
  imports Os_Model Identity Ipc Platform_Unix
begin

text \<open>
  src/registry.rs: the owner-only runtime directory \<open>~/.afk/run\<close> with one socket, lock,
  metadata, output and trace file per session.

  The JSON text of a metadata record is produced and read by serde_json, which is not part
  of the repository: \<open>json\<close> is a parameter that holds its two functions, and statements
  that depend on it name the round trip they need for the record at hand.
\<close>

section \<open>Metadata\<close>

datatype exit_metadata = Meta_Code byte | Meta_Signal byte

fun exit_metadata_from :: "process_exit \<Rightarrow> exit_metadata" where
  "exit_metadata_from (Code code) = Meta_Code code"
| "exit_metadata_from (Signal signal) = Meta_Signal signal"

fun process_exit_from :: "exit_metadata \<Rightarrow> process_exit" where
  "process_exit_from (Meta_Code code) = Code code"
| "process_exit_from (Meta_Signal signal) = Signal signal"

record live_session =
  lv_session_id :: "byte list"
  lv_runner_pid :: u32
  lv_child_pid :: u32
  lv_started_at :: u64
  lv_attached :: bool

record completed_session =
  cs_session_id :: "byte list"
  cs_started_at :: u64
  cs_finished_at :: u64
  cs_exit :: exit_metadata
  cs_output_bytes :: nat
  cs_truncated :: bool

datatype session_metadata = Live live_session | Completed completed_session

fun metadata_session_id :: "session_metadata \<Rightarrow> byte list" where
  "metadata_session_id (Live m) = lv_session_id m"
| "metadata_session_id (Completed m) = cs_session_id m"

fun metadata_started_at :: "session_metadata \<Rightarrow> u64" where
  "metadata_started_at (Live m) = lv_started_at m"
| "metadata_started_at (Completed m) = cs_started_at m"

fun is_expired :: "session_metadata \<Rightarrow> u64 \<Rightarrow> bool" where
  "is_expired (Completed m) now = (COMPLETED_RETENTION_SECONDS \<le> saturating_sub now (cs_finished_at m))"
| "is_expired (Live m) now = False"

record json =
  to_vec :: "session_metadata \<Rightarrow> byte list option"
  from_slice :: "byte list \<Rightarrow> session_metadata option"

section \<open>Helpers\<close>

definition invalid :: io_error where
  "invalid = io_error_new InvalidData"

definition now_seconds :: "(os, u64) io" where
  "now_seconds s = (if clock s < 0 then (Inl invalid, s) else (Inr (word_of_int (clock s)), s))"

datatype path_kind = Regular_path | Socket_path

text \<open>\<open>ensure_private_directory\<close> calls itself when another process creates the directory
  in between; \<open>attempts\<close> bounds how often.\<close>

fun ensure_private_directory :: "nat \<Rightarrow> path \<Rightarrow> (os, unit) io" where
  "ensure_private_directory 0 p = io_fail (io_error_new AlreadyExists)"
| "ensure_private_directory (Suc attempts) p =
     io_match (fs_lstat p)
       (\<lambda>e. if err_kind e = NotFound then
              io_match (fs_mkdir p 448)
                (\<lambda>e. if err_kind e = AlreadyExists then ensure_private_directory attempts p
                     else io_fail e)
                (\<lambda>_. io_ok ())
            else io_fail e)
       (\<lambda>metadata s.
          if \<not> is_dir metadata \<or> is_symlink metadata then io_fail invalid s
          else if e_uid metadata \<noteq> os_uid s then io_fail (io_error_new PermissionDenied) s
          else fs_chmod p 448 s)"

definition verify_path :: "path \<Rightarrow> u32 \<Rightarrow> path_kind \<Rightarrow> u32 \<Rightarrow> (os, entry) io" where
  "verify_path p uid kind mode =
     io_try (fs_lstat p) (\<lambda>metadata.
       if is_symlink metadata \<or> e_uid metadata \<noteq> uid then io_fail (io_error_new PermissionDenied)
       else
         let type_matches = (case kind of
               Regular_path \<Rightarrow> is_file metadata | Socket_path \<Rightarrow> is_socket metadata);
             actual_mode = e_mode metadata AND 511;
             mode_matches = (case kind of
               Regular_path \<Rightarrow> actual_mode = mode
             | Socket_path \<Rightarrow> actual_mode = mode \<or> actual_mode = 448)
         in if \<not> type_matches \<or> \<not> mode_matches then io_fail (io_error_new PermissionDenied)
            else io_ok metadata)"

definition read_bounded_file ::
    "path \<Rightarrow> u32 \<Rightarrow> path_kind \<Rightarrow> u32 \<Rightarrow> nat \<Rightarrow> (os, byte list option) io" where
  "read_bounded_file p uid kind mode limit =
     io_match (verify_path p uid kind mode)
       (\<lambda>e. if err_kind e = NotFound then io_ok None else io_fail e)
       (\<lambda>metadata.
          if limit < metadata_len metadata then io_fail invalid
          else io_try (fs_open p) (\<lambda>_.
               io_try (fs_read_to_end p (limit + 1)) (\<lambda>bytes.
               if limit < length bytes then io_fail invalid else io_ok (Some bytes))))"

fun digits :: "nat \<Rightarrow> byte list" where
  "digits n = (if n < 10 then [48 + word_of_nat n]
     else digits (n div 10) @ [48 + word_of_nat (n mod 10)])"

declare digits.simps [simp del]

definition temporary_path :: "path \<Rightarrow> os \<Rightarrow> path" where
  "temporary_path p s =
     path_with_file_name p
       (bs ''.'' @ path_file_name p @ bs ''.tmp.'' @ digits (unat (os_pid s)))"

definition atomic_write :: "path \<Rightarrow> byte list \<Rightarrow> (os, unit) io" where
  "atomic_write p bytes = (\<lambda>s.
     if path_file_name p = [] then io_fail invalid s
     else
       let temporary = temporary_path p s in
       io_try (fs_create_new temporary 384) (\<lambda>_.
         io_match
           (io_try (fs_append temporary bytes) (\<lambda>_.
            io_try (fs_sync_all temporary) (\<lambda>_.
            fs_rename temporary p)))
           (\<lambda>e. io_ignore (fs_remove_file temporary) (io_fail e))
           io_ok) s)"

definition path_entry_exists :: "path \<Rightarrow> (os, bool) io" where
  "path_entry_exists p =
     io_match (fs_lstat p)
       (\<lambda>e. if err_kind e = NotFound then io_ok False else io_fail e)
       (\<lambda>_. io_ok True)"

definition remove_owned_entry_if_present :: "path \<Rightarrow> u32 \<Rightarrow> path_kind \<Rightarrow> u32 \<Rightarrow> (os, unit) io" where
  "remove_owned_entry_if_present p uid kind mode =
     io_match (verify_path p uid kind mode)
       (\<lambda>e. if err_kind e = NotFound then io_ok () else io_fail e)
       (\<lambda>_. fs_remove_file p)"

definition remove_if_present :: "path \<Rightarrow> (os, unit) io" where
  "remove_if_present p =
     io_match (fs_remove_file p)
       (\<lambda>e. if err_kind e = NotFound then io_ok () else io_fail e)
       io_ok"

definition session_from_metadata_name :: "byte list \<Rightarrow> session_id option" where
  "session_from_metadata_name name =
     (if length name \<noteq> 37 \<or> drop 32 name \<noteq> bs ''.json'' then None
      else case parse_bytes (take 32 name) of Inl _ \<Rightarrow> None | Inr session \<Rightarrow> Some session)"

section \<open>The registry\<close>

record registry =
  root :: path
  uid :: u32

record session_paths =
  p_socket :: path
  p_metadata :: path
  p_lock :: path
  p_output :: path
  p_trace :: path

definition paths_of :: "registry \<Rightarrow> session_id \<Rightarrow> session_paths" where
  "paths_of reg session =
     (let prefix = session_to_string session in
      \<lparr>p_socket = path_join (root reg) (prefix @ bs ''.sock''),
       p_metadata = path_join (root reg) (prefix @ bs ''.json''),
       p_lock = path_join (root reg) (prefix @ bs ''.lock''),
       p_output = path_join (root reg) (prefix @ bs ''.out''),
       p_trace = path_join (root reg) (prefix @ bs ''.trace'')\<rparr>)"

definition registry_paths :: "registry \<Rightarrow> session_id \<Rightarrow> (os, session_paths) io" where
  "registry_paths reg session =
     (let paths = paths_of reg session in
      if UNIX_SOCKET_PATH_BYTES < length (p_socket paths) then io_fail invalid else io_ok paths)"

definition connect :: "registry \<Rightarrow> session_id \<Rightarrow> (os, stream) io" where
  "connect reg session =
     io_try (registry_paths reg session) (\<lambda>paths.
     io_try (verify_path (p_socket paths) (uid reg) Socket_path 384) (\<lambda>_.
     io_try (fs_connect (p_socket paths)) (\<lambda>l.
       case peer_uid (l_peer l) of
         Inl e \<Rightarrow> io_fail e
       | Inr peer \<Rightarrow>
           if peer \<noteq> uid reg then io_fail (io_error_new PermissionDenied)
           else io_ok (l_stream l))))"

definition read_metadata ::
    "json \<Rightarrow> registry \<Rightarrow> session_id \<Rightarrow> (os, session_metadata option) io" where
  "read_metadata js reg session =
     io_try (registry_paths reg session) (\<lambda>paths.
     io_try (read_bounded_file (p_metadata paths) (uid reg) Regular_path 384 MAX_METADATA_BYTES)
       (\<lambda>content.
         case content of
           None \<Rightarrow> io_ok None
         | Some bytes \<Rightarrow>
             (case from_slice js bytes of
                None \<Rightarrow> io_fail invalid
              | Some metadata \<Rightarrow>
                  if metadata_session_id metadata \<noteq> session_to_string session then io_fail invalid
                  else io_ok (Some metadata))))"

definition read_output :: "registry \<Rightarrow> session_id \<Rightarrow> (os, byte list option) io" where
  "read_output reg session =
     io_try (registry_paths reg session) (\<lambda>paths.
     read_bounded_file (p_output paths) (uid reg) Regular_path 384 OUTPUT_TAIL_BYTES)"

definition write_metadata :: "json \<Rightarrow> session_paths \<Rightarrow> session_metadata \<Rightarrow> (os, unit) io" where
  "write_metadata js paths metadata =
     (case to_vec js metadata of
        None \<Rightarrow> io_fail invalid
      | Some encoded \<Rightarrow>
          if MAX_METADATA_BYTES < length encoded then io_fail invalid
          else atomic_write (p_metadata paths) encoded)"

definition write_output :: "session_paths \<Rightarrow> byte list \<Rightarrow> (os, unit) io" where
  "write_output paths output =
     (if OUTPUT_TAIL_BYTES < length output then io_fail invalid
      else atomic_write (p_output paths) output)"

text \<open>\<open>remove_live_files\<close>, and the \<open>Drop\<close> of \<open>SessionFiles\<close>, which also closes the listener\<close>

definition remove_live_files :: "session_paths \<Rightarrow> (os, unit) io" where
  "remove_live_files paths =
     io_ignore (fs_remove_file (p_socket paths))
       (io_ignore (fs_remove_file (p_lock paths)) (io_ok ()))"

definition drop_session_files :: "session_paths \<Rightarrow> (os, unit) io" where
  "drop_session_files paths =
     io_ignore (fs_remove_file (p_socket paths))
       (io_ignore (fs_remove_file (p_lock paths))
         (io_ignore (fs_close_listener (p_socket paths)) (io_ok ())))"

definition remove_completed :: "session_paths \<Rightarrow> (os, unit) io" where
  "remove_completed paths =
     io_try (remove_if_present (p_output paths)) (\<lambda>_.
     io_try (remove_if_present (p_trace paths)) (\<lambda>_.
     remove_if_present (p_metadata paths)))"

definition remove_stale_live :: "registry \<Rightarrow> session_paths \<Rightarrow> (os, unit) io" where
  "remove_stale_live reg paths =
     io_try (remove_owned_entry_if_present (p_socket paths) (uid reg) Socket_path 384) (\<lambda>_.
     io_try (remove_owned_entry_if_present (p_lock paths) (uid reg) Regular_path 384) (\<lambda>_.
     io_try (remove_owned_entry_if_present (p_trace paths) (uid reg) Regular_path 384) (\<lambda>_.
     remove_owned_entry_if_present (p_metadata paths) (uid reg) Regular_path 384)))"

text \<open>\<open>bind_session\<close>: first the old entries of the session, then the socket and its lock.\<close>

definition make_room :: "json \<Rightarrow> registry \<Rightarrow> session_id \<Rightarrow> session_paths \<Rightarrow> (os, unit) io" where
  "make_room js reg session paths =
     (let exists = io_fail (io_error_new AlreadyExists);
          unless_reachable = io_match (connect reg session)
            (\<lambda>_. remove_stale_live reg paths) (\<lambda>_. exists)
      in io_try (read_metadata js reg session) (\<lambda>found.
           case found of
             Some metadata \<Rightarrow>
               io_try now_seconds (\<lambda>now.
                 if is_expired metadata now then remove_completed paths
                 else (case metadata of Completed _ \<Rightarrow> exists | Live _ \<Rightarrow> unless_reachable))
           | None \<Rightarrow>
               io_try (path_entry_exists (p_socket paths)) (\<lambda>socket_exists.
                 if socket_exists then unless_reachable
                 else io_try (path_entry_exists (p_lock paths)) (\<lambda>lock_exists.
                   if lock_exists then unless_reachable else io_ok ()))))"

definition bind_listener :: "session_paths \<Rightarrow> (os, unit) io" where
  "bind_listener paths =
     (let closing = (\<lambda>e. io_ignore (fs_close_listener (p_socket paths)) (io_fail e)) in
      io_match (fs_bind (p_socket paths))
        (\<lambda>e. if err_kind e = AddrInUse then io_fail (io_error_new AlreadyExists) else io_fail e)
        (\<lambda>_.
          io_match (fs_chmod (p_socket paths) 384) closing (\<lambda>_.
          io_match (fs_set_nonblocking (p_socket paths)) closing (\<lambda>_.
          io_match (fs_create_new (p_lock paths) 384)
            (\<lambda>e. io_ignore (fs_remove_file (p_socket paths)) (closing e))
            io_ok))))"

definition bind_session :: "json \<Rightarrow> registry \<Rightarrow> session_id \<Rightarrow> (os, session_paths) io" where
  "bind_session js reg session =
     io_try (registry_paths reg session) (\<lambda>paths.
     io_try (make_room js reg session paths) (\<lambda>_.
     io_try (bind_listener paths) (\<lambda>_. io_ok paths)))"

text \<open>\<open>list\<close>: the loop over the directory entries, then the stable sort.\<close>

fun list_entries ::
    "json \<Rightarrow> registry \<Rightarrow> session_metadata list \<Rightarrow> byte list list \<Rightarrow> (os, session_metadata list) io" where
  "list_entries js reg sessions [] = io_ok sessions"
| "list_entries js reg sessions (name # names) =
     (if length sessions = MAX_SESSION_LIST_ENTRIES then io_ok sessions
      else case session_from_metadata_name name of
        None \<Rightarrow> list_entries js reg sessions names
      | Some session \<Rightarrow>
          io_try (read_metadata js reg session) (\<lambda>found.
            case found of
              None \<Rightarrow> list_entries js reg sessions names
            | Some metadata \<Rightarrow> list_entries js reg (sessions @ [metadata]) names))"

definition list_sessions :: "json \<Rightarrow> registry \<Rightarrow> (os, session_metadata list) io" where
  "list_sessions js reg =
     io_try (fs_read_dir (root reg)) (\<lambda>names.
     io_try (list_entries js reg [] names) (\<lambda>sessions.
     io_ok (sort_key metadata_started_at sessions)))"

fun cleanup_entries :: "json \<Rightarrow> registry \<Rightarrow> u64 \<Rightarrow> byte list list \<Rightarrow> (os, unit) io" where
  "cleanup_entries js reg now [] = io_ok ()"
| "cleanup_entries js reg now (name # names) =
     (case session_from_metadata_name name of
        None \<Rightarrow> cleanup_entries js reg now names
      | Some session \<Rightarrow>
          io_try (registry_paths reg session) (\<lambda>paths.
          io_try (read_metadata js reg session) (\<lambda>found.
            if (case found of None \<Rightarrow> False | Some metadata \<Rightarrow> is_expired metadata now)
            then io_try (remove_completed paths) (\<lambda>_. cleanup_entries js reg now names)
            else cleanup_entries js reg now names)))"

definition cleanup_expired :: "json \<Rightarrow> registry \<Rightarrow> (os, unit) io" where
  "cleanup_expired js reg =
     io_try now_seconds (\<lambda>now.
     io_try (fs_read_dir (root reg)) (\<lambda>names.
     cleanup_entries js reg now (take MAX_SESSION_LIST_ENTRIES names)))"

definition ATTEMPTS :: nat where
  "ATTEMPTS = 16"

definition registry_open :: "json \<Rightarrow> (os, registry) io" where
  "registry_open js = (\<lambda>s.
     case env_home s of
       None \<Rightarrow> io_fail invalid s
     | Some home \<Rightarrow>
         if \<not> path_is_absolute home then io_fail invalid s
         else
           let afk = path_join home (bs ''.afk''); run = path_join afk (bs ''run'');
               reg = \<lparr>root = run, uid = os_uid s\<rparr>
           in io_try (ensure_private_directory ATTEMPTS afk) (\<lambda>_.
              io_try (ensure_private_directory ATTEMPTS run) (\<lambda>_.
              io_try (cleanup_expired js reg) (\<lambda>_. io_ok reg))) s)"

end
