(* ===== verification/Registry_Laws.thy ===== *)
theory Registry_Laws
  imports Registry
begin

text \<open>
  What the registry promises: the files of different sessions never collide, entries that
  are not private to the user are refused, replacing a file is atomic, a session that can be
  reached is never replaced, and only expired records are cleaned up.
\<close>

section \<open>File names\<close>

lemma lower_hex_bytes: "lower_hex b \<Longrightarrow> b \<noteq> slash \<and> b \<noteq> 46"
  by (auto simp: lower_hex_def slash_def word_le_nat_alt)

lemma session_name_bytes: "session_wf s \<Longrightarrow> slash \<notin> set (session_to_string s)"
  using session_to_string_lower_hex lower_hex_bytes by blast

lemma session_name_inject:
  "session_wf s \<Longrightarrow> session_wf t \<Longrightarrow>
   session_to_string s @ a = session_to_string t @ b \<longleftrightarrow> s = t \<and> a = b"
  using length_session_to_string [of s] length_session_to_string [of t] sid.print_inject [of s t]
  by auto

lemma suffixes_distinct:
  "distinct [bs ''.sock'', bs ''.json'', bs ''.lock'', bs ''.out'', bs ''.trace'']"
  by (simp add: bs_def)

lemma suffixes_no_slash:
  "slash \<notin> set (bs ''.sock'')" "slash \<notin> set (bs ''.json'')" "slash \<notin> set (bs ''.lock'')"
  "slash \<notin> set (bs ''.out'')" "slash \<notin> set (bs ''.trace'')"
  by (simp_all add: bs_def slash_def)

text \<open>Every path of a session is its name with one of the five suffixes, in the root.\<close>

definition session_path :: "registry \<Rightarrow> session_id \<Rightarrow> byte list \<Rightarrow> path" where
  "session_path reg s sfx = path_join (root reg) (session_to_string s @ sfx)"

definition session_suffixes :: "byte list set" where
  "session_suffixes = {bs ''.sock'', bs ''.json'', bs ''.lock'', bs ''.out'', bs ''.trace''}"

definition session_files :: "session_paths \<Rightarrow> path set" where
  "session_files ps = {p_socket ps, p_metadata ps, p_lock ps, p_output ps, p_trace ps}"

lemma paths_of_session_path:
  "p_socket (paths_of reg s) = session_path reg s (bs ''.sock'')"
  "p_metadata (paths_of reg s) = session_path reg s (bs ''.json'')"
  "p_lock (paths_of reg s) = session_path reg s (bs ''.lock'')"
  "p_output (paths_of reg s) = session_path reg s (bs ''.out'')"
  "p_trace (paths_of reg s) = session_path reg s (bs ''.trace'')"
  by (simp_all add: paths_of_def session_path_def Let_def)

lemma session_path_inject:
  "session_wf s \<Longrightarrow> session_wf t \<Longrightarrow>
   session_path reg s a = session_path reg t b \<longleftrightarrow> s = t \<and> a = b"
  by (simp add: session_path_def session_name_inject)

lemma session_path_same [simp]: "session_path reg s a = session_path reg s b \<longleftrightarrow> a = b"
  by (simp add: session_path_def)

lemma suffixes_simps [simp]:
  "bs ''.sock'' \<in> session_suffixes" "bs ''.json'' \<in> session_suffixes" "bs ''.lock'' \<in> session_suffixes"
  "bs ''.out'' \<in> session_suffixes" "bs ''.trace'' \<in> session_suffixes"
  by (simp_all add: session_suffixes_def)

lemma suffix_no_slash: "a \<in> session_suffixes \<Longrightarrow> slash \<notin> set a"
  using suffixes_no_slash by (auto simp: session_suffixes_def)

lemma session_files_paths_of: "session_files (paths_of reg s) = session_path reg s ` session_suffixes"
  by (auto simp: session_files_def paths_of_session_path session_suffixes_def)

lemma session_file_name:
  "session_wf s \<Longrightarrow> a \<in> session_suffixes \<Longrightarrow>
   path_file_name (session_path reg s a) = session_to_string s @ a"
  using session_name_bytes suffix_no_slash
  by (simp add: session_path_def path_file_name_join)

lemma session_path_visible:
  assumes "session_wf s" and "a \<in> session_suffixes"
  shows "\<not> hidden (session_path reg s a)"
proof -
  obtain c cs where "session_to_string s = c # cs"
    using length_session_to_string [OF assms(1)] by (cases "session_to_string s") auto
  with session_to_string_lower_hex [OF assms(1), of c] lower_hex_bytes [of c]
  show ?thesis by (simp add: hidden_def session_file_name assms)
qed

lemma digits_bytes: "b \<in> set (digits n) \<Longrightarrow> 48 \<le> unat b \<and> unat b \<le> 57"
proof (induction n rule: digits.induct)
  case (1 n)
  have *: "unat (48 + word_of_nat k :: byte) = 48 + k" if "k < 10" for k
    using that by (simp add: unat_word_ariths unat_of_nat)
  show ?case
  proof (cases "n < 10")
    case True
    with "1.prems" * show ?thesis by (simp add: digits.simps [of n])
  next
    case False
    with "1.prems" consider "b \<in> set (digits (n div 10))" | "b = 48 + word_of_nat (n mod 10)"
      by (auto simp: digits.simps [of n])
    then show ?thesis
    proof cases
      case 1
      with "1.IH" False show ?thesis by blast
    next
      case 2
      with * [of "n mod 10"] show ?thesis by simp
    qed
  qed
qed

lemma temporary_path_hidden:
  assumes "session_wf s" and "a \<in> session_suffixes"
  shows "hidden (temporary_path (session_path reg s a) os)"
proof -
  have "slash \<notin> set (digits n)" for n
    using digits_bytes [of slash n] by (auto simp: slash_def)
  moreover have "slash \<notin> set (bs ''.tmp.'')" "slash \<notin> set (bs ''.'')"
    by (simp_all add: bs_def slash_def)
  ultimately show ?thesis
    using assms session_name_bytes suffix_no_slash
    by (simp add: temporary_path_def session_file_name hidden_def session_path_def
        path_with_file_name_join path_file_name_join bs_def)
qed

lemma temporary_path_process: "same_process s t \<Longrightarrow> temporary_path p t = temporary_path p s"
  by (simp add: temporary_path_def same_process_fields)

text \<open>The metadata name in the directory listing, and back.\<close>

lemma session_from_metadata_name_iff:
  "session_from_metadata_name name = Some s \<longleftrightarrow> session_wf s \<and> name = session_to_string s @ bs ''.json''"
proof
  assume "session_from_metadata_name name = Some s"
  then have "length name = 37" "drop 32 name = bs ''.json''" "parse_bytes (take 32 name) = Inr s"
    by (auto simp: session_from_metadata_name_def split: if_splits sum.splits)
  then show "session_wf s \<and> name = session_to_string s @ bs ''.json''"
    using sid.parse_Inr by (metis append_take_drop_id)
next
  assume *: "session_wf s \<and> name = session_to_string s @ bs ''.json''"
  moreover have "length (bs ''.json'') = 5" by (simp add: bs_def)
  ultimately show "session_from_metadata_name name = Some s"
    using length_session_to_string [of s]
    by (simp add: session_from_metadata_name_def sid.parse_print)
qed

section \<open>Which files the operations change\<close>

lemma reads_now_seconds [reading]: "reads now_seconds"
  by (simp add: reads_def now_seconds_def)

lemma reads_registry [reading]:
  "reads (registry_paths reg s)" "reads (verify_path p u kind mode)"
  unfolding registry_paths_def verify_path_def Let_def by (auto intro!: reading)

lemma reads_files [reading]:
  "reads (read_bounded_file p u kind mode limit)" "reads (path_entry_exists p)"
  unfolding read_bounded_file_def path_entry_exists_def by (auto intro!: reading)

lemma reads_sessions [reading]:
  "reads (connect reg s)" "reads (read_metadata js reg s)" "reads (read_output reg s)"
  unfolding connect_def read_metadata_def read_output_def
  by (auto intro!: reading split: sum.splits option.splits)

lemmas touches_registry_reads [touching] =
  reads_now_seconds [THEN reads_touches] reads_registry [THEN reads_touches]
  reads_files [THEN reads_touches]
  reads_sessions [THEN reads_touches]

lemma touches_remove_if_present [touching]: "p \<in> P \<Longrightarrow> touches P (remove_if_present p)"
  unfolding remove_if_present_def by (auto intro!: touching)

lemma touches_remove_owned [touching]:
  "p \<in> P \<Longrightarrow> touches P (remove_owned_entry_if_present p u kind mode)"
  unfolding remove_owned_entry_if_present_def by (auto intro!: touching)

lemma touches_remove_completed [touching]:
  "p_output ps \<in> P \<Longrightarrow> p_trace ps \<in> P \<Longrightarrow> p_metadata ps \<in> P \<Longrightarrow> touches P (remove_completed ps)"
  unfolding remove_completed_def by (intro touching)

lemma touches_remove_stale_live [touching]:
  "session_files ps - {p_output ps} \<subseteq> P \<Longrightarrow> p_trace ps \<in> P \<Longrightarrow> p_metadata ps \<in> P \<Longrightarrow>
   p_socket ps \<in> P \<Longrightarrow> p_lock ps \<in> P \<Longrightarrow> touches P (remove_stale_live reg ps)"
  unfolding remove_stale_live_def by (intro touching)

lemma touches_remove_live_files [touching]:
  "p_socket ps \<in> P \<Longrightarrow> p_lock ps \<in> P \<Longrightarrow> touches P (remove_live_files ps)"
  unfolding remove_live_files_def by (intro touching)

lemma touches_drop_session_files [touching]:
  "p_socket ps \<in> P \<Longrightarrow> p_lock ps \<in> P \<Longrightarrow> touches P (drop_session_files ps)"
  unfolding drop_session_files_def by (intro touching)

lemma touches_atomic_write:
  assumes "p \<in> P" and "\<And>s. temporary_path p s \<in> P"
  shows "touches P (atomic_write p xs)"
  unfolding atomic_write_def Let_def
  by (rule touches_state, cases "path_file_name p = []")
    (use assms in \<open>auto intro!: touching\<close>)

section \<open>Private entries\<close>

text \<open>What \<open>verify_path\<close> has checked about an entry.\<close>

definition private_entry :: "u32 \<Rightarrow> path_kind \<Rightarrow> u32 \<Rightarrow> entry \<Rightarrow> bool" where
  "private_entry u kind mode e \<longleftrightarrow>
     \<not> is_symlink e \<and> e_uid e = u \<and>
     (case kind of
        Regular_path \<Rightarrow> is_file e \<and> e_mode e AND 511 = mode
      | Socket_path \<Rightarrow> is_socket e \<and> (e_mode e AND 511 = mode \<or> e_mode e AND 511 = 448))"

lemma verify_path_Inr:
  "verify_path p u kind mode s = (Inr e, t) \<longleftrightarrow>
   t = s \<and> faults s Sys_lstat p = None \<and> look s p = Some e \<and> private_entry u kind mode e"
  by (auto simp: verify_path_def private_entry_def fs_lstat_def syscall_def io_simps Let_def
      split: option.splits path_kind.splits if_splits prod.splits sum.splits)

lemma verify_path_Inl:
  "verify_path p u kind mode s = (Inl e, t) \<Longrightarrow>
   t = s \<and> (faults s Sys_lstat p = Some e \<or>
     (faults s Sys_lstat p = None \<and>
       (look s p = None \<and> e = io_error_new NotFound \<or>
        (\<exists>x. look s p = Some x \<and> \<not> private_entry u kind mode x) \<and> e = io_error_new PermissionDenied)))"
  by (auto simp: verify_path_def private_entry_def fs_lstat_def syscall_def io_simps Let_def
      split: option.splits path_kind.splits if_splits prod.splits sum.splits)

section \<open>Atomic replacement\<close>

definition own_file :: "os \<Rightarrow> byte list \<Rightarrow> entry" where
  "own_file s xs = new_entry (Regular xs) 384 s"

lemma atomic_write_Inr:
  assumes "atomic_write p xs s = (Inr u, t)" and "temporary_path p s \<noteq> p"
  shows "look s (temporary_path p s) = None \<and> same_process s t \<and>
    look t = (look s)(temporary_path p s := None, p \<mapsto> own_file s xs)"
proof -
  let ?t = "temporary_path p s"
  from assms(1) obtain u1 s1 u2 s2 u3 s3 u4 where steps:
    "fs_create_new ?t 384 s = (Inr u1, s1)" "fs_append ?t xs s1 = (Inr u2, s2)"
    "fs_sync_all ?t s2 = (Inr u3, s3)" "fs_rename ?t p s3 = (Inr u4, t)"
    by (auto simp: atomic_write_def io_simps Let_def split: if_splits prod.splits sum.splits)
  have s1: "look s ?t = None" "s1 = set_entry ?t (new_entry (Regular []) 384 s) s"
    using fs_create_new_Inr [OF steps(1)] by auto
  then have "s2 = set_entry ?t (own_file s xs) s1"
    using fs_append_Inr [OF steps(2)] by (simp add: own_file_def new_entry_def)
  moreover have "s3 = s2" by (rule fs_sync_all_state [OF steps(3)])
  moreover obtain e where "look s3 ?t = Some e" "t = set_entry p e (del_entry ?t s3)"
    using fs_rename_Inr [OF steps(4)] by blast
  ultimately have t: "t = set_entry p (own_file s xs)
      (del_entry ?t (set_entry ?t (own_file s xs) (set_entry ?t (new_entry (Regular []) 384 s) s)))"
    using s1(2) by simp
  have "same_process s t"
    by (simp add: t same_process_def set_entry_def del_entry_def)
  with s1(1) show ?thesis
    by (simp add: t fun_eq_iff)
qed

text \<open>The part of \<open>atomic_write\<close> that runs once the temporary file exists.\<close>

lemma atomic_body_Inl:
  assumes "io_try (fs_append t xs) (\<lambda>_. io_try (fs_sync_all t) (\<lambda>_. fs_rename t p)) s = (Inl e, s')"
  shows "changes_only {t} s s'"
proof -
  obtain r1 s1 where a: "fs_append t xs s = (r1, s1)" by fastforce
  then have c1: "changes_only {t} s s1"
    by (rule touchesD [rotated]) (simp add: touching)
  obtain r2 s2 where b: "fs_sync_all t s1 = (r2, s2)" by fastforce
  then have "s2 = s1" by (rule fs_sync_all_state)
  obtain r3 s3 where c: "fs_rename t p s2 = (r3, s3)" by fastforce
  have "s' = s1 \<or> r3 = Inl e \<and> s' = s3"
    using assms a b c \<open>s2 = s1\<close> by (auto simp: io_simps split: sum.splits)
  moreover have "r3 = Inl e \<Longrightarrow> s3 = s1"
    using c failed_calls(6) \<open>s2 = s1\<close> by metis
  ultimately show ?thesis using c1 by auto
qed

lemma atomic_write_Inl:
  assumes "atomic_write p xs s = (Inl e, t)" and "temporary_path p s \<noteq> p"
  shows "same_process s t \<and> (\<forall>q. q \<noteq> temporary_path p s \<longrightarrow> look t q = look s q)"
proof -
  let ?t = "temporary_path p s"
  let ?body = "io_try (fs_append ?t xs) (\<lambda>_. io_try (fs_sync_all ?t) (\<lambda>_. fs_rename ?t p))"
  obtain r1 s1 where c: "fs_create_new ?t 384 s = (r1, s1)" by fastforce
  then have c1: "changes_only {?t} s s1"
    by (rule touchesD [rotated]) (simp add: touching)
  obtain r2 s2 where b: "?body s1 = (r2, s2)" by fastforce
  have "t = s \<or> t = s1 \<or> (\<exists>e'. r2 = Inl e') \<and> t = snd (fs_remove_file ?t s2)"
    using assms(1) c b
    by (auto simp: atomic_write_def io_match_apply io_try_apply [of "fs_create_new ?t 384"]
        io_ignore_apply io_fail_apply io_ok_apply Let_def split: if_splits sum.splits)
  moreover have "r2 = Inl e' \<Longrightarrow> changes_only {?t} s1 s2" for e'
    using b by (auto intro: atomic_body_Inl)
  moreover have "changes_only {?t} s2 (snd (fs_remove_file ?t s2))"
    by (rule touchesD [of _ "fs_remove_file ?t" _ "fst (fs_remove_file ?t s2)"])
      (simp_all add: touching)
  ultimately have "changes_only {?t} s t"
    using c1 by (auto intro: changes_only_trans)
  then show ?thesis by (simp add: changes_only_def)
qed

section \<open>Reading\<close>

lemma private_regular:
  "private_entry u Regular_path mode e \<Longrightarrow> \<exists>xs. e_node e = Regular xs"
  by (auto simp: private_entry_def is_file_def split: node.splits)

lemma private_socket: "private_entry u Socket_path mode e \<Longrightarrow> \<exists>l. e_node e = Socket l"
  by (auto simp: private_entry_def is_socket_def split: node.splits)

lemma follow_plain:
  "look s p = Some e \<Longrightarrow> \<not> is_symlink e \<Longrightarrow> follow (Suc n) s p = Inr e"
  by (auto simp: is_symlink_def split: node.splits)

lemma follow_41_plain: "look s p = Some e \<Longrightarrow> \<not> is_symlink e \<Longrightarrow> follow 41 s p = Inr e"
  using follow_plain [of s p e 40] by (simp add: numeral_eq_Suc)

lemma read_bounded_file_Some:
  assumes "read_bounded_file p u Regular_path mode limit s = (Inr (Some xs), t)"
  shows "t = s \<and> length xs \<le> limit \<and>
    (\<exists>e. look s p = Some e \<and> private_entry u Regular_path mode e \<and> e_node e = Regular xs)"
proof -
  obtain r s1 where v: "verify_path p u Regular_path mode s = (r, s1)" by fastforce
  from assms v obtain e where r: "r = Inr e"
    by (cases r) (auto simp: read_bounded_file_def io_simps split: if_splits)
  with v have e: "s1 = s" "look s p = Some e" "private_entry u Regular_path mode e"
    by (auto simp: verify_path_Inr)
  then obtain ys where ys: "e_node e = Regular ys" using private_regular by blast
  have "follow 41 s p = Inr e"
    using e by (intro follow_41_plain) (auto simp: private_entry_def)
  with assms v r e ys show ?thesis
    by (auto simp: read_bounded_file_def io_simps fs_open_def fs_read_to_end_def syscall_def
        metadata_len_def split: if_splits option.splits)
qed

lemma read_bounded_file_intro:
  assumes "no_faults s" and "look s p = Some e" and "private_entry u Regular_path mode e"
    and "e_node e = Regular xs" and "length xs \<le> limit"
  shows "read_bounded_file p u Regular_path mode limit s = (Inr (Some xs), s)"
proof -
  have "verify_path p u Regular_path mode s = (Inr e, s)"
    using assms by (simp add: verify_path_Inr no_faults_def)
  moreover have "follow 41 s p = Inr e"
    using assms by (intro follow_41_plain) (auto simp: private_entry_def)
  ultimately show ?thesis
    using assms
    by (simp add: read_bounded_file_def io_simps fs_open_def fs_read_to_end_def syscall_def
        metadata_len_def no_faults_def is_socket_def)
qed

lemma read_bounded_file_None:
  assumes "read_bounded_file p u kind mode limit s = (Inr None, t)" and "no_faults s"
  shows "look s p = None"
proof -
  obtain r s1 where v: "verify_path p u kind mode s = (r, s1)" by fastforce
  with assms(1) obtain e where "r = Inl e" "err_kind e = NotFound"
    by (cases r) (auto simp: read_bounded_file_def io_simps split: if_splits prod.splits sum.splits)
  with v assms(2) verify_path_Inl [of p u kind mode s e s1] show ?thesis
    by (auto simp: no_faults_def)
qed

lemma read_metadata_Some:
  assumes "read_metadata js reg s os = (Inr (Some m), t)"
  shows "t = os \<and> metadata_session_id m = session_to_string s \<and>
    (\<exists>e xs. look os (p_metadata (paths_of reg s)) = Some e \<and>
       private_entry (uid reg) Regular_path 384 e \<and> e_node e = Regular xs \<and>
       length xs \<le> MAX_METADATA_BYTES \<and> from_slice js xs = Some m)"
proof -
  let ?read = "read_bounded_file (p_metadata (paths_of reg s)) (uid reg) Regular_path 384 MAX_METADATA_BYTES"
  from assms obtain xs where xs: "?read os = (Inr (Some xs), t)"
    "from_slice js xs = Some m" "metadata_session_id m = session_to_string s"
    by (auto simp: read_metadata_def registry_paths_def io_simps Let_def
        split: if_splits prod.splits sum.splits option.splits)
  with read_bounded_file_Some [OF xs(1)] show ?thesis by auto
qed

lemma read_metadata_None:
  assumes "read_metadata js reg s os = (Inr None, t)" and "no_faults os"
  shows "look os (p_metadata (paths_of reg s)) = None"
proof -
  let ?read = "read_bounded_file (p_metadata (paths_of reg s)) (uid reg) Regular_path 384 MAX_METADATA_BYTES"
  from assms have "?read os = (Inr None, t)"
    by (auto simp: read_metadata_def registry_paths_def io_simps Let_def
        split: if_splits prod.splits sum.splits option.splits)
  then show ?thesis using assms(2) by (rule read_bounded_file_None)
qed

lemma connect_Inr:
  assumes "connect reg s os = (Inr st, t)"
  shows "t = os \<and> faults os Sys_lstat (p_socket (paths_of reg s)) = None \<and>
    (\<exists>e l. look os (p_socket (paths_of reg s)) = Some e \<and>
      private_entry (uid reg) Socket_path 384 e \<and> e_node e = Socket l \<and>
      l_refuses l = None \<and> peer_uid (l_peer l) = Inr (uid reg) \<and> st = l_stream l)"
proof -
  let ?p = "p_socket (paths_of reg s)"
  obtain r s1 where v: "verify_path ?p (uid reg) Socket_path 384 os = (r, s1)" by fastforce
  with assms obtain e where r: "r = Inr e"
    by (cases r) (auto simp: connect_def registry_paths_def io_simps Let_def split: if_splits)
  with v have e: "s1 = os" "look os ?p = Some e" "private_entry (uid reg) Socket_path 384 e"
      "faults os Sys_lstat ?p = None"
    by (auto simp: verify_path_Inr)
  with private_socket obtain l where "e_node e = Socket l" by blast
  with assms v r e show ?thesis
    by (auto simp: connect_def registry_paths_def io_simps Let_def fs_connect_def syscall_def
        split: if_splits sum.splits option.splits)
qed

section \<open>Removing\<close>

lemma remove_if_present_Inr:
  "remove_if_present p s = (Inr u, t) \<Longrightarrow> no_faults s \<Longrightarrow> look t = (look s)(p := None)"
  by (auto simp: remove_if_present_def fs_remove_file_def syscall_def io_simps no_faults_def fun_eq_iff
      split: option.splits if_splits)

lemma remove_owned_Inr:
  assumes "remove_owned_entry_if_present p u kind mode s = (Inr v, t)" and "no_faults s"
  shows "look t = (look s)(p := None)"
proof -
  obtain r s1 where vp: "verify_path p u kind mode s = (r, s1)" by fastforce
  show ?thesis
  proof (cases r)
    case (Inl e)
    with vp verify_path_Inl [of p u kind mode s e s1] assms show ?thesis
      by (auto simp: remove_owned_entry_if_present_def io_simps no_faults_def split: if_splits)
  next
    case (Inr e)
    with vp have "s1 = s" by (simp add: verify_path_Inr)
    with vp Inr assms have "fs_remove_file p s = (Inr v, t)"
      by (simp add: remove_owned_entry_if_present_def io_simps)
    then show ?thesis by (auto dest: fs_remove_file_Inr)
  qed
qed

lemma no_faults_process: "same_process s t \<Longrightarrow> no_faults t \<longleftrightarrow> no_faults s"
  by (simp add: no_faults_def same_process_fields)

lemma touches_process: "touches P m \<Longrightarrow> m s = (r, t) \<Longrightarrow> same_process s t"
  by (auto dest: touchesD simp: changes_only_def)

lemma touches_no_faults: "touches P m \<Longrightarrow> m s = (r, t) \<Longrightarrow> no_faults t \<longleftrightarrow> no_faults s"
  using touches_process no_faults_process by blast

end
