(* ===== verification/Registry_Store.thy ===== *)
theory Registry_Store
  imports Registry_Laws
begin

text \<open>
  The registry as a store of session files: a write replaces one file or none, what was
  written is what is read, and only private entries are ever read.
\<close>

section \<open>An atomic store\<close>

text \<open>
  A store whose keys are replaced one at a time: a write that returns \<open>Ok\<close> has installed
  its value, one that returns an error has installed nothing, and neither has changed
  another key.
\<close>

locale atomic_store =
  fixes put :: "'k \<Rightarrow> 'v \<Rightarrow> ('s, unit) io"
    and get :: "'s \<Rightarrow> 'k \<Rightarrow> 'e option"
    and made :: "'s \<Rightarrow> 'v \<Rightarrow> 'e"
    and keys :: "'k set"
    and like :: "'s \<Rightarrow> 's \<Rightarrow> bool"
  assumes write_Inr: "k \<in> keys \<Longrightarrow> put k v s = (Inr u, t) \<Longrightarrow> get t k = Some (made s v)"
    and write_Inl: "k \<in> keys \<Longrightarrow> put k v s = (Inl e, t) \<Longrightarrow> get t k = get s k"
    and write_other: "k \<in> keys \<Longrightarrow> q \<in> keys \<Longrightarrow> q \<noteq> k \<Longrightarrow> put k v s = (r, t) \<Longrightarrow> get t q = get s q"
    and write_like: "k \<in> keys \<Longrightarrow> put k v s = (r, t) \<Longrightarrow> like s t"
    and like_trans: "like s t \<Longrightarrow> like t w \<Longrightarrow> like s w"
    and like_refl: "like s s"
    and made_like: "like s t \<Longrightarrow> made t v = made s v"
begin

text \<open>Writes one after the other, up to the first that fails.\<close>

fun write_in_order :: "('k \<times> 'v) list \<Rightarrow> ('s, unit) io" where
  "write_in_order [] = io_ok ()"
| "write_in_order ((k, v) # ws) = io_try (put k v) (\<lambda>_. write_in_order ws)"

lemma write_all_or_nothing:
  assumes "k \<in> keys" and "q \<in> keys" and "put k v s = (r, t)"
  shows "get t q = (if q = k \<and> is_ok r then Some (made s v) else get s q)"
  using assms write_Inr [of k v s _ t] write_Inl [of k v s _ t] write_other [of k q v s r t]
  by (cases r) auto

lemma write_in_order_prefix:
  assumes "fst ` set ws \<subseteq> keys" and "distinct (map fst ws)" and "write_in_order ws s = (r, t)"
  shows "like s t \<and> (\<exists>n \<le> length ws.
    (is_ok r \<longleftrightarrow> n = length ws) \<and>
    (\<forall>q \<in> keys. get t q = (case map_of (take n ws) q of Some v \<Rightarrow> Some (made s v) | None \<Rightarrow> get s q)))"
  using assms
proof (induction ws arbitrary: s)
  case Nil
  then show ?case by (auto simp: io_simps like_refl)
next
  case (Cons kv ws)
  obtain k v where kv: "kv = (k, v)" by fastforce
  obtain r1 s1 where w: "put k v s = (r1, s1)" by fastforce
  have k: "k \<in> keys" using Cons.prems kv by simp
  have s1: "get s1 q = (if q = k \<and> is_ok r1 then Some (made s v) else get s q)" if "q \<in> keys" for q
    using write_all_or_nothing [OF k that w] .
  have like1: "like s s1" by (rule write_like [OF k w])
  show ?case
  proof (cases r1)
    case (Inl e)
    with Cons.prems w kv have "r = Inl e" "t = s1" by (auto simp: io_simps)
    with like1 s1 Inl show ?thesis by (auto intro!: exI [of _ 0])
  next
    case (Inr u)
    with Cons.prems w kv have rest: "write_in_order ws s1 = (r, t)" by (simp add: io_simps)
    have "fst ` set ws \<subseteq> keys" "distinct (map fst ws)" using Cons.prems by auto
    from Cons.IH [OF this rest] obtain n where n: "like s1 t" "n \<le> length ws"
      "is_ok r \<longleftrightarrow> n = length ws"
      "\<And>q. q \<in> keys \<Longrightarrow> get t q = (case map_of (take n ws) q of
         Some v \<Rightarrow> Some (made s1 v) | None \<Rightarrow> get s1 q)"
      by blast
    have "map_of (take n ws) k = None"
      using Cons.prems kv set_take_subset [of n ws] by (force simp: map_of_eq_None_iff)
    then have "get t q = (case map_of (take (Suc n) (kv # ws)) q of
        Some v \<Rightarrow> Some (made s v) | None \<Rightarrow> get s q)" if "q \<in> keys" for q
      using n(4) [OF that] s1 [OF that] Inr kv made_like [OF like1]
      by (auto split: option.splits)
    moreover have "like s t" using like1 n(1) by (rule like_trans)
    ultimately show ?thesis using n(2,3) by (intro conjI exI [of _ "Suc n"]) auto
  qed
qed

end

text \<open>The visible files of the runtime directory are such a store.\<close>

definition session_keys :: "registry \<Rightarrow> path set" where
  "session_keys reg = {session_path reg s a |s a. session_wf s \<and> a \<in> session_suffixes}"

lemma session_keysI [intro]:
  "session_wf s \<Longrightarrow> a \<in> session_suffixes \<Longrightarrow> session_path reg s a \<in> session_keys reg"
  by (auto simp: session_keys_def)

lemma session_key_temporary:
  "p \<in> session_keys reg \<Longrightarrow> q \<in> session_keys reg \<Longrightarrow> temporary_path p s \<noteq> q"
  unfolding session_keys_def mem_Collect_eq
  by (elim exE conjE) (metis temporary_path_hidden session_path_visible)

lemma own_file_process: "same_process s t \<Longrightarrow> own_file t xs = own_file s xs"
  by (simp add: own_file_def new_entry_def same_process_fields)

lemma atomic_write_session:
  assumes "k \<in> session_keys reg" and "atomic_write k v s = (r, t)"
  shows "same_process s t"
    and "q \<in> session_keys reg \<Longrightarrow>
      look t q = (if q = k \<and> is_ok r then Some (own_file s v) else look s q)"
proof -
  have ne: "temporary_path k s \<noteq> q" if "q \<in> session_keys reg" for q
    by (rule session_key_temporary [OF assms(1) that])
  note nk = ne [OF assms(1)]
  show "same_process s t"
  proof (cases r)
    case (Inl e)
    with atomic_write_Inl [OF assms(2) [unfolded Inl] nk] show ?thesis by blast
  next
    case (Inr u)
    with atomic_write_Inr [OF assms(2) [unfolded Inr] nk] show ?thesis by blast
  qed
  show "look t q = (if q = k \<and> is_ok r then Some (own_file s v) else look s q)"
    if q: "q \<in> session_keys reg"
  proof (cases r)
    case (Inl e)
    with atomic_write_Inl [OF assms(2) [unfolded Inl] nk] ne [OF q] show ?thesis by simp
  next
    case (Inr u)
    with atomic_write_Inr [OF assms(2) [unfolded Inr] nk] ne [OF q] show ?thesis by simp
  qed
qed

interpretation session_store: atomic_store atomic_write look own_file "session_keys reg" same_process
  by unfold_locales
    (simp_all add: atomic_write_session own_file_process same_process_trans)

section \<open>Writing and reading back\<close>

lemma session_key_paths [simp]:
  "session_wf s \<Longrightarrow> p_metadata (paths_of reg s) \<in> session_keys reg"
  "session_wf s \<Longrightarrow> p_output (paths_of reg s) \<in> session_keys reg"
  "session_wf s \<Longrightarrow> p_socket (paths_of reg s) \<in> session_keys reg"
  "session_wf s \<Longrightarrow> p_lock (paths_of reg s) \<in> session_keys reg"
  "session_wf s \<Longrightarrow> p_trace (paths_of reg s) \<in> session_keys reg"
  by (auto simp: paths_of_session_path)

lemma write_metadata_cases:
  assumes "write_metadata js ps m s = (r, t)"
  obtains e where "r = Inl e" "t = s"
  | xs where "to_vec js m = Some xs" "length xs \<le> MAX_METADATA_BYTES" "atomic_write (p_metadata ps) xs s = (r, t)"
  using assms by (auto simp: write_metadata_def io_simps split: option.splits if_splits)

lemma write_output_cases:
  assumes "write_output ps xs s = (r, t)"
  obtains e where "r = Inl e" "t = s"
  | "length xs \<le> OUTPUT_TAIL_BYTES" "atomic_write (p_output ps) xs s = (r, t)"
  using assms by (auto simp: write_output_def io_simps split: if_splits)

text \<open>The umask leaves the owner's read and write permission.\<close>

definition plain_umask :: "os \<Rightarrow> bool" where
  "plain_umask s \<longleftrightarrow> os_umask s AND 384 = 0"

lemma own_file_private:
  assumes "plain_umask s"
  shows "private_entry (os_uid s) Regular_path 384 (own_file s xs)"
proof -
  have "(384::u32) AND NOT (os_umask s) = 384"
  proof (rule bit_word_eqI)
    fix n
    assume "n < LENGTH(32)"
    have "\<not> bit (os_umask s AND 384) n"
      using assms by (simp add: plain_umask_def)
    then show "bit ((384::u32) AND NOT (os_umask s)) n = bit (384::u32) n"
      using \<open>n < LENGTH(32)\<close> by (auto simp: bit_simps)
  qed
  then show ?thesis
    by (simp add: private_entry_def own_file_def new_entry_def is_symlink_def is_file_def)
qed

lemma read_back:
  assumes "p \<in> session_keys reg" and "atomic_write p xs s = (Inr u, t)"
    and "no_faults s" and "plain_umask s" and "length xs \<le> limit"
  shows "read_bounded_file p (os_uid s) Regular_path 384 limit t = (Inr (Some xs), t)"
proof (rule read_bounded_file_intro)
  show "no_faults t"
    using assms(3) atomic_write_session(1) [OF assms(1,2)] no_faults_process by blast
  show "look t p = Some (own_file s xs)"
    using atomic_write_session(2) [OF assms(1,2,1)] by simp
  show "private_entry (os_uid s) Regular_path 384 (own_file s xs)"
    using assms(4) by (rule own_file_private)
  show "e_node (own_file s xs) = Regular xs"
    by (simp add: own_file_def new_entry_def)
qed (rule assms(5))

lemma is_ok_E: "is_ok (fst (m :: unit io_result \<times> 's)) \<Longrightarrow> (\<And>t. m = (Inr (), t) \<Longrightarrow> P) \<Longrightarrow> P"
  by (cases m; cases "fst m") auto

text \<open>On a healthy file system a write fails only for what is in its way.\<close>

definition not_directory :: "os \<Rightarrow> path \<Rightarrow> bool" where
  "not_directory s p = (case look s p of None \<Rightarrow> True | Some e \<Rightarrow> \<not> is_dir e)"

lemma atomic_write_succeeds:
  assumes "no_faults s" and "path_file_name p \<noteq> []" and "look s (temporary_path p s) = None"
    and "temporary_path p s \<noteq> p" and "not_directory s p"
  shows "is_ok (fst (atomic_write p xs s))"
  using assms
  by (simp add: atomic_write_def Let_def io_simps fs_create_new_def fs_append_def fs_sync_all_def
      fs_rename_def syscall_def no_faults_def new_entry_def not_directory_def set_entry_def
      del_entry_def look_def update_conv' delete_conv' split: option.splits)

lemma session_key_file_name: "p \<in> session_keys reg \<Longrightarrow> path_file_name p \<noteq> []"
  using length_session_to_string by (fastforce simp: session_keys_def session_file_name)

text \<open>No temporary file is left over, and no session file is a directory.\<close>

definition clean_directory :: "registry \<Rightarrow> os \<Rightarrow> bool" where
  "clean_directory reg s \<longleftrightarrow>
     (\<forall>p \<in> session_keys reg. look s (temporary_path p s) = None \<and> not_directory s p)"

lemma clean_write:
  assumes "clean_directory reg s" and "no_faults s" and p: "p \<in> session_keys reg"
  obtains t where "atomic_write p xs s = (Inr (), t)" "clean_directory reg t" "no_faults t"
proof -
  have ne: "temporary_path p s \<noteq> q" if "q \<in> session_keys reg" for q
    by (rule session_key_temporary [OF p that])
  have "is_ok (fst (atomic_write p xs s))"
    using assms ne [OF p] session_key_file_name [OF p]
    by (intro atomic_write_succeeds) (auto simp: clean_directory_def)
  then obtain t where w: "atomic_write p xs s = (Inr (), t)" by (rule is_ok_E)
  note t = atomic_write_Inr [OF w ne [OF p]]
  have "clean_directory reg t"
    unfolding clean_directory_def
  proof
    fix q
    assume q: "q \<in> session_keys reg"
    have "look t (temporary_path q t) = None"
      using t assms(1) q session_key_temporary [OF q p, of s]
      by (auto simp: clean_directory_def temporary_path_process)
    moreover have "not_directory t q"
      using t assms(1) q by (auto simp: clean_directory_def not_directory_def own_file_def new_entry_def is_dir_def)
    ultimately show "look t (temporary_path q t) = None \<and> not_directory t q" ..
  qed
  moreover have "no_faults t" using t assms(2) no_faults_process by blast
  ultimately show thesis using w that by blast
qed

section \<open>A concrete runtime directory\<close>

definition sample_session :: session_id where
  "sample_session = SessionId (replicate 16 7)"

definition sample_registry :: registry where
  "sample_registry = \<lparr>root = bs ''/r'', uid = 1000\<rparr>"

definition sample_live :: session_metadata where
  "sample_live = Live \<lparr>lv_session_id = session_to_string sample_session, lv_runner_pid = 2,
     lv_child_pid = 3, lv_started_at = 10, lv_attached = False\<rparr>"

definition sample_done :: session_metadata where
  "sample_done = Completed \<lparr>cs_session_id = session_to_string sample_session, cs_started_at = 10,
     cs_finished_at = 20, cs_exit = Meta_Code 0, cs_output_bytes = 0, cs_truncated = False\<rparr>"

definition sample_json :: json where
  "sample_json = \<lparr>
     to_vec = (\<lambda>m. case m of Live _ \<Rightarrow> Some (bs ''live'') | Completed _ \<Rightarrow> Some (bs ''done'')),
     from_slice = (\<lambda>xs. if xs = bs ''live'' then Some sample_live
       else if xs = bs ''done'' then Some sample_done else None)\<rparr>"

definition sample_os :: os where
  "sample_os = \<lparr>files = [(bs ''/r'', \<lparr>e_node = Directory, e_uid = 1000, e_mode = 448\<rparr>)],
     faults = (\<lambda>_ _. None), os_uid = 1000, os_gid = 1000, os_pid = 2, os_umask = 63, clock = 100,
     env_home = Some (bs ''/h''), env_shell = None\<rparr>"

lemma sample_to_vec [simp]:
  "to_vec sample_json sample_live = Some (bs ''live'')" "to_vec sample_json sample_done = Some (bs ''done'')"
  by (simp_all add: sample_json_def sample_live_def sample_done_def)

lemma sample_length: "length (bs ''live'') = 4" "length (bs ''done'') = 4"
  by (simp_all add: bs_def)

lemma sample_from_slice [simp]:
  "from_slice sample_json (bs ''live'') = Some sample_live"
  "from_slice sample_json (bs ''done'') = Some sample_done"
  by (simp_all add: sample_json_def bs_def)

lemma sample_session_wf [simp]: "session_wf sample_session"
  by (simp add: sample_session_def session_wf_def)

lemma sample_no_faults [simp]: "no_faults sample_os"
  by (simp add: sample_os_def no_faults_def)

lemma no_faults_set_entry [simp]: "no_faults (set_entry p e s) = no_faults s"
  by (simp add: no_faults_def set_entry_def)

lemma sample_plain_umask [simp]: "plain_umask sample_os"
  by (simp add: sample_os_def plain_umask_def)

lemma sample_uid [simp]: "uid sample_registry = 1000" "os_uid sample_os = 1000"
  by (simp_all add: sample_registry_def sample_os_def)

lemma sample_look: "look sample_os p = (if p = bs ''/r'' then Some \<lparr>e_node = Directory, e_uid = 1000, e_mode = 448\<rparr> else None)"
  by (simp add: look_def sample_os_def)

lemma session_key_long: "p \<in> session_keys reg \<Longrightarrow> 32 < length p"
  by (fastforce simp: session_keys_def session_path_def path_join_def length_session_to_string
      session_suffixes_def bs_def)

lemma temporary_long: "length p < length (temporary_path p s)"
proof -
  have "length p = length (takeWhile (\<lambda>c. c \<noteq> slash) (rev p)) + length (dropWhile (\<lambda>c. c \<noteq> slash) (rev p))"
    by (metis length_append length_rev takeWhile_dropWhile_id)
  then show ?thesis
    by (simp add: temporary_path_def path_with_file_name_def path_file_name_def bs_def)
qed

lemma sample_clean [simp]: "clean_directory sample_registry sample_os"
  unfolding clean_directory_def
proof
  fix p
  assume "p \<in> session_keys sample_registry"
  then have "32 < length p" by (rule session_key_long)
  moreover from this have "32 < length (temporary_path p sample_os)"
    using temporary_long by (rule less_trans)
  moreover have "q \<noteq> bs ''/r''" if "32 < length q" for q
    using that by (auto simp: bs_def)
  ultimately show "look sample_os (temporary_path p sample_os) = None \<and> not_directory sample_os p"
    by (simp add: sample_look not_directory_def)
qed

lemma connect_intro:
  assumes "no_faults os" and "registry_paths reg s os = (Inr ps, os)" and "p_socket ps = p"
    and "look os p = Some e" and "private_entry (uid reg) Socket_path 384 e" and "e_node e = Socket l"
    and "l_refuses l = None" and "peer_uid (l_peer l) = Inr (uid reg)"
  shows "connect reg s os = (Inr (l_stream l), os)"
proof -
  have "verify_path p (uid reg) Socket_path 384 os = (Inr e, os)"
    using assms by (simp add: verify_path_Inr no_faults_def)
  then show ?thesis
    using assms
    by (simp add: connect_def io_simps fs_connect_def syscall_def no_faults_def)
qed

lemma private_entry_mode: "private_entry u kind 384 e \<Longrightarrow> e_mode e AND 63 = 0"
proof -
  have "m AND 63 = (m AND 511) AND 63" for m :: u32
    by (simp add: and.assoc)
  then have "e_mode e AND 63 = (e_mode e AND 511) AND 63" .
  moreover assume "private_entry u kind 384 e"
  then have "e_mode e AND 511 = 384 \<or> e_mode e AND 511 = 448"
    by (auto simp: private_entry_def split: path_kind.splits)
  ultimately show ?thesis by (elim disjE) simp_all
qed

section \<open>Properties\<close>

text \<open>
  C23: Replacing a metadata record is atomic under every I/O error: whatever the call
  returns, every file of every session is as it was, except that a successful call has put
  the whole encoded record, and nothing else, in the one metadata file.
\<close>

theorem metadata_replacement_is_atomic:
  assumes "session_wf s" and "write_metadata js (paths_of reg s) m os = (r, t)"
    and "q \<in> session_keys reg"
  shows "look t q =
    (if is_ok r \<and> q = p_metadata (paths_of reg s)
     then map_option (own_file os) (to_vec js m) else look os q)"
  using assms(2)
proof (cases rule: write_metadata_cases)
  case (2 xs)
  then show ?thesis
    using atomic_write_session(2) [OF session_key_paths(1) [OF assms(1)] 2(3) assms(3)] by simp
qed simp

lemma metadata_replacement_is_atomic_witness:
  "\<exists>t. write_metadata sample_json (paths_of sample_registry sample_session) sample_live sample_os = (Inr (), t) \<and>
     look t (p_metadata (paths_of sample_registry sample_session)) = Some (own_file sample_os (bs ''live''))"
proof -
  obtain t where "atomic_write (p_metadata (paths_of sample_registry sample_session)) (bs ''live'') sample_os = (Inr (), t)"
    by (rule clean_write [OF sample_clean sample_no_faults session_key_paths(1) [OF sample_session_wf]])
  then have w:
    "write_metadata sample_json (paths_of sample_registry sample_session) sample_live sample_os = (Inr (), t)"
    by (simp add: write_metadata_def MAX_METADATA_BYTES_def sample_length)
  show ?thesis
    using w metadata_replacement_is_atomic [OF sample_session_wf w session_key_paths(1)] by simp
qed

text \<open>
  A record and an output that were written are read back as they are, by the same user
  on a healthy file system, provided the JSON codec inverts itself on the record.
\<close>

theorem completed_session_reads_back:
  assumes "session_wf s" and "uid reg = os_uid os" and "no_faults os" and "plain_umask os"
    and "registry_paths reg s os = (Inr paths, os)"
    and "write_output paths out os = (Inr u, os1)"
    and "write_metadata js paths m os1 = (Inr v, os2)"
    and "Option.bind (to_vec js m) (from_slice js) = Some m"
    and "metadata_session_id m = session_to_string s"
  shows "read_metadata js reg s os2 = (Inr (Some m), os2) \<and> read_output reg s os2 = (Inr (Some out), os2)"
proof -
  have paths: "paths = paths_of reg s" "registry_paths reg s os2 = (Inr paths, os2)"
    using assms(5) by (auto simp: registry_paths_def io_simps Let_def split: if_splits)
  have out: "length out \<le> OUTPUT_TAIL_BYTES" "atomic_write (p_output paths) out os = (Inr u, os1)"
    using write_output_cases [OF assms(6)] by auto
  obtain xs where xs: "to_vec js m = Some xs" "length xs \<le> MAX_METADATA_BYTES"
    "atomic_write (p_metadata paths) xs os1 = (Inr v, os2)"
    using write_metadata_cases [OF assms(7)] by auto
  note keys = session_key_paths(1,2) [OF assms(1), of reg, folded paths(1)]
  have p1: "same_process os os1" by (rule atomic_write_session(1) [OF keys(2) out(2)])
  have p2: "same_process os1 os2" by (rule atomic_write_session(1) [OF keys(1) xs(3)])
  have healthy: "no_faults os1" "plain_umask os1" "os_uid os1 = uid reg"
    using p1 assms(2-4) no_faults_process by (auto simp: plain_umask_def same_process_fields)
  have m: "read_bounded_file (p_metadata paths) (uid reg) Regular_path 384 MAX_METADATA_BYTES os2 = (Inr (Some xs), os2)"
    using read_back [OF keys(1) xs(3) healthy(1,2) xs(2)] healthy(3) by simp
  have o: "read_bounded_file (p_output paths) (uid reg) Regular_path 384 OUTPUT_TAIL_BYTES os2 = (Inr (Some out), os2)"
  proof (rule read_bounded_file_intro)
    show "look os2 (p_output paths) = Some (own_file os out)"
      using atomic_write_session(2) [OF keys(1) xs(3) keys(2)] atomic_write_session(2) [OF keys(2) out(2) keys(2)]
      by (simp add: paths(1) paths_of_session_path bs_def)
    show "private_entry (uid reg) Regular_path 384 (own_file os out)"
      using own_file_private [OF assms(4)] assms(2) by simp
    show "no_faults os2" using healthy(1) p2 no_faults_process by blast
  qed (use out(1) in \<open>simp_all add: own_file_def new_entry_def\<close>)
  show ?thesis
    using m o xs(1) assms(8,9)
    by (simp add: read_metadata_def read_output_def io_simps paths)
qed

lemma completed_session_reads_back_witness:
  "\<exists>os1 os2. write_output (paths_of sample_registry sample_session) [1, 2] sample_os = (Inr (), os1) \<and>
     write_metadata sample_json (paths_of sample_registry sample_session) sample_done os1 = (Inr (), os2) \<and>
     read_output sample_registry sample_session os2 = (Inr (Some [1, 2]), os2) \<and>
     read_metadata sample_json sample_registry sample_session os2 = (Inr (Some sample_done), os2)"
proof -
  let ?ps = "paths_of sample_registry sample_session"
  obtain os1 where 1: "atomic_write (p_output ?ps) [1, 2] sample_os = (Inr (), os1)"
    "clean_directory sample_registry os1" "no_faults os1"
    by (rule clean_write [OF sample_clean sample_no_faults session_key_paths(2) [OF sample_session_wf]])
  obtain os2 where 2: "atomic_write (p_metadata ?ps) (bs ''done'') os1 = (Inr (), os2)"
    by (rule clean_write [OF 1(2,3) session_key_paths(1) [OF sample_session_wf]])
  have out: "write_output ?ps [1, 2] sample_os = (Inr (), os1)"
    using 1 by (simp add: write_output_def OUTPUT_TAIL_BYTES_def)
  have meta: "write_metadata sample_json ?ps sample_done os1 = (Inr (), os2)"
    using 2 by (simp add: write_metadata_def MAX_METADATA_BYTES_def sample_length)
  have paths: "registry_paths sample_registry sample_session sample_os = (Inr ?ps, sample_os)"
  proof -
    have "length (p_socket ?ps) \<le> UNIX_SOCKET_PATH_BYTES" by code_simp
    then show ?thesis by (simp add: registry_paths_def io_simps)
  qed
  have id: "metadata_session_id sample_done = session_to_string sample_session"
    by (simp add: sample_done_def)
  have uid: "uid sample_registry = os_uid sample_os" by simp
  have codec: "Option.bind (to_vec sample_json sample_done) (from_slice sample_json) = Some sample_done"
    by simp
  show ?thesis
    using completed_session_reads_back [OF sample_session_wf uid sample_no_faults sample_plain_umask
        paths out meta codec id] out meta
    by blast
qed

text \<open>
  C35: A client is handed a connection only to a socket that is no symbolic link, belongs to
  the registry's user, grants nothing to group and others, accepts, and whose listener has
  that user's credentials; the attempt changes no file.
\<close>

theorem connect_reaches_only_the_user:
  assumes "connect reg s os = (Inr st, t)"
  shows "t = os \<and> (\<exists>e l. look os (p_socket (paths_of reg s)) = Some e \<and> e_node e = Socket l \<and>
    e_uid e = uid reg \<and> e_mode e AND 63 = 0 \<and> l_refuses l = None \<and> peer_uid (l_peer l) = Inr (uid reg) \<and>
    st = l_stream l)"
  using connect_Inr [OF assms] private_entry_mode by (fastforce simp: private_entry_def)

text \<open>
  Session metadata comes only from a regular file of at most 64 KiB that is no
  symbolic link, belongs to the registry's user and grants nothing to group and others, and
  names the session it was asked for.
\<close>

theorem metadata_comes_from_private_files:
  assumes "read_metadata js reg s os = (Inr (Some m), t)"
  shows "t = os \<and> metadata_session_id m = session_to_string s \<and>
    (\<exists>e xs. look os (p_metadata (paths_of reg s)) = Some e \<and> e_node e = Regular xs \<and>
       e_uid e = uid reg \<and> e_mode e AND 63 = 0 \<and> length xs \<le> 65536 \<and> from_slice js xs = Some m)"
proof -
  obtain e xs where "look os (p_metadata (paths_of reg s)) = Some e" "e_node e = Regular xs"
    "private_entry (uid reg) Regular_path 384 e" "length xs \<le> MAX_METADATA_BYTES" "from_slice js xs = Some m"
    using read_metadata_Some [OF assms] by blast
  moreover from this(3) have "e_uid e = uid reg" by (simp add: private_entry_def)
  ultimately show ?thesis
    using read_metadata_Some [OF assms] private_entry_mode [of "uid reg" Regular_path e]
    by (auto simp: MAX_METADATA_BYTES_def)
qed

lemma connect_reaches_only_the_user_witness:
  "\<exists>os st. connect sample_registry sample_session os = (Inr st, os) \<and> st = l_stream (own_listener sample_os)"
proof -
  let ?e = "\<lparr>e_node = Socket (own_listener sample_os), e_uid = 1000, e_mode = 384\<rparr>"
  let ?p = "p_socket (paths_of sample_registry sample_session)"
  let ?os = "set_entry ?p ?e sample_os"
  have len: "length ?p \<le> UNIX_SOCKET_PATH_BYTES" by code_simp
  have look: "look ?os ?p = Some ?e" by simp
  have c: "connect sample_registry sample_session ?os = (Inr (l_stream (own_listener sample_os)), ?os)"
    by (rule connect_intro [OF _ _ _ look])
      (use len in \<open>simp_all add: private_entry_def is_symlink_def is_socket_def
        own_listener_def registry_paths_def io_simps\<close>)
  then show ?thesis
    using connect_reaches_only_the_user [OF c] by blast
qed

lemma metadata_comes_from_private_files_witness:
  "\<exists>t. read_metadata sample_json sample_registry sample_session t = (Inr (Some sample_live), t)"
proof -
  let ?e = "\<lparr>e_node = Regular (bs ''live''), e_uid = 1000, e_mode = 384\<rparr>"
  let ?p = "p_metadata (paths_of sample_registry sample_session)"
  let ?os = "set_entry ?p ?e sample_os"
  have len: "length (p_socket (paths_of sample_registry sample_session)) \<le> UNIX_SOCKET_PATH_BYTES"
    by code_simp
  have r: "read_bounded_file ?p 1000 Regular_path 384 MAX_METADATA_BYTES ?os = (Inr (Some (bs ''live'')), ?os)"
    by (rule read_bounded_file_intro [where e = ?e])
      (simp_all add: private_entry_def is_symlink_def is_file_def no_faults_def set_entry_def
        sample_os_def look_def update_conv' sample_length MAX_METADATA_BYTES_def)
  have m: "read_metadata sample_json sample_registry sample_session ?os = (Inr (Some sample_live), ?os)"
    using len r
    by (simp add: read_metadata_def registry_paths_def io_simps) (simp add: sample_live_def io_simps)
  then show ?thesis
    using metadata_comes_from_private_files [OF m] by blast
qed

end
