(* ===== verification/Trace_Log.thy ===== *)
theory Trace_Log
  imports Registry_Store Platform_Unix
begin

text \<open>
  src/trace.rs: the owner-only diagnostics file of a session.  A trace is an open file
  handle, by its path, with the number of bytes this handle believes the file to have.
\<close>

section \<open>Lines\<close>

definition MAX_TRACE_BYTES :: nat where
  "MAX_TRACE_BYTES = 1024 * 1024"

record trace =
  tr_path :: path
  tr_component :: "byte list"
  tr_written :: nat

definition int_digits :: "int \<Rightarrow> byte list" where
  "int_digits n = (if n < 0 then bs ''-'' @ digits (nat (- n)) else digits (nat n))"

fun error_kind_name :: "error_kind \<Rightarrow> byte list" where
  "error_kind_name NotFound = bs ''not_found''"
| "error_kind_name PermissionDenied = bs ''permission_denied''"
| "error_kind_name ConnectionRefused = bs ''connection_refused''"
| "error_kind_name ConnectionReset = bs ''connection_reset''"
| "error_kind_name ConnectionAborted = bs ''connection_aborted''"
| "error_kind_name NotConnected = bs ''not_connected''"
| "error_kind_name BrokenPipe = bs ''broken_pipe''"
| "error_kind_name AlreadyExists = bs ''already_exists''"
| "error_kind_name WouldBlock = bs ''would_block''"
| "error_kind_name InvalidInput = bs ''invalid_input''"
| "error_kind_name InvalidData = bs ''invalid_data''"
| "error_kind_name TimedOut = bs ''timed_out''"
| "error_kind_name WriteZero = bs ''write_zero''"
| "error_kind_name Interrupted = bs ''interrupted''"
| "error_kind_name UnexpectedEof = bs ''unexpected_eof''"
| "error_kind_name OutOfMemory = bs ''out_of_memory''"
| "error_kind_name _ = bs ''other''"

definition error_detail :: "io_error \<Rightarrow> byte list" where
  "error_detail e =
     (case raw_os_error e of
        Some code \<Rightarrow> bs '' error_kind='' @ error_kind_name (err_kind e) @ bs '' os_error='' @ int_digits code
      | None \<Rightarrow> bs '' error_kind='' @ error_kind_name (err_kind e))"

definition trace_line :: "u64 \<Rightarrow> u32 \<Rightarrow> byte list \<Rightarrow> byte list \<Rightarrow> byte list \<Rightarrow> byte list" where
  "trace_line timestamp pid component event detail =
     bs ''timestamp='' @ digits (unat timestamp) @ bs '' pid='' @ digits (unat pid) @
     bs '' component='' @ component @ bs '' event='' @ event @ detail @ [10]"

section \<open>Writing\<close>

definition timestamp :: "os \<Rightarrow> u64" where
  "timestamp s = (case fst (now_seconds s) of Inr t \<Rightarrow> t | Inl _ \<Rightarrow> 0)"

definition trace_write :: "byte list \<Rightarrow> byte list option \<Rightarrow> trace \<Rightarrow> os \<Rightarrow> trace \<times> os" where
  "trace_write event detail t s =
     (if MAX_TRACE_BYTES \<le> tr_written t then (t, s)
      else
        let line = trace_line (timestamp s) (os_pid s) (tr_component t) event
              (case detail of None \<Rightarrow> [] | Some d \<Rightarrow> d)
        in if MAX_TRACE_BYTES < usize_saturating_add (tr_written t) (length line) then (t, s)
           else case fs_append (tr_path t) line s of
             (Inl _, s') \<Rightarrow> (t, s')
           | (Inr _, s') \<Rightarrow> (t\<lparr>tr_written := tr_written t + length line\<rparr>, s'))"

definition trace_create :: "path \<Rightarrow> byte list \<Rightarrow> (os, trace) io" where
  "trace_create p component =
     io_try (fs_create_new p 384) (\<lambda>_ s.
       case trace_write (bs ''trace_started'') None
              \<lparr>tr_path = p, tr_component = component, tr_written = 0\<rparr> s of
         (t, s') \<Rightarrow> (Inr t, s'))"

definition trace_open :: "path \<Rightarrow> byte list \<Rightarrow> (os, trace) io" where
  "trace_open p component =
     io_try (fs_lstat p) (\<lambda>metadata s.
       if \<not> is_file metadata \<or> is_symlink metadata \<or> e_uid metadata \<noteq> os_uid s \<or>
          e_mode metadata AND 511 \<noteq> 384 \<or> MAX_TRACE_BYTES < metadata_len metadata
       then io_fail (io_error_new PermissionDenied) s
       else io_try (fs_open p) (\<lambda>_ s.
         case trace_write (bs ''trace_opened'') None
                \<lparr>tr_path = p, tr_component = component, tr_written = metadata_len metadata\<rparr> s of
           (t, s') \<Rightarrow> (Inr t, s')) s)"

text \<open>\<open>Trace::event\<close>, \<open>Trace::io_error\<close> and \<open>Trace::metric\<close>\<close>

datatype trace_entry =
    Trace_event "byte list"
  | Trace_io_error "byte list" io_error
  | Trace_metric "byte list" "byte list" u64

fun trace_record :: "trace_entry \<Rightarrow> trace \<Rightarrow> os \<Rightarrow> trace \<times> os" where
  "trace_record (Trace_event event) = trace_write event None"
| "trace_record (Trace_io_error event e) = trace_write event (Some (error_detail e))"
| "trace_record (Trace_metric event name value) =
     trace_write event (Some (bs '' '' @ name @ bs ''='' @ digits (unat value)))"

fun trace_records :: "trace_entry list \<Rightarrow> trace \<Rightarrow> os \<Rightarrow> trace \<times> os" where
  "trace_records [] t s = (t, s)"
| "trace_records (e # es) t s = (case trace_record e t s of (t', s') \<Rightarrow> trace_records es t' s')"

section \<open>Facts\<close>

lemma trace_write_keeps:
  "trace_write event detail t s = (t', s') \<Longrightarrow>
   tr_path t' = tr_path t \<and> changes_only {tr_path t} s s'"
  using touches_writes(5) [of "tr_path t" "{tr_path t}"]
  by (auto simp: trace_write_def Let_def touches_def split: if_splits prod.splits sum.splits)

lemma trace_record_keeps:
  "trace_record e t s = (t', s') \<Longrightarrow> tr_path t' = tr_path t \<and> changes_only {tr_path t} s s'"
  by (cases e) (auto dest: trace_write_keeps)

text \<open>The file of a trace has exactly the bytes its handle has counted, within the bound.\<close>

definition trace_counts :: "trace \<Rightarrow> os \<Rightarrow> bool" where
  "trace_counts t s \<longleftrightarrow> tr_written t \<le> MAX_TRACE_BYTES \<and>
     (\<exists>e xs. look s (tr_path t) = Some e \<and> e_node e = Regular xs \<and> length xs = tr_written t)"

lemma trace_write_counts:
  assumes "trace_write event detail t s = (t', s')" and "trace_counts t s"
  shows "trace_counts t' s'"
proof -
  obtain e xs where e: "look s (tr_path t) = Some e" "e_node e = Regular xs" "length xs = tr_written t"
    and le: "tr_written t \<le> MAX_TRACE_BYTES"
    using assms(2) by (auto simp: trace_counts_def)
  define line where "line = trace_line (timestamp s) (os_pid s) (tr_component t) event
    (case detail of None \<Rightarrow> [] | Some d \<Rightarrow> d)"
  obtain r s1 where a: "fs_append (tr_path t) line s = (r, s1)" by fastforce
  show ?thesis
  proof (cases "MAX_TRACE_BYTES < usize_saturating_add (tr_written t) (length line) \<or>
      MAX_TRACE_BYTES \<le> tr_written t")
    case True
    with assms show ?thesis by (auto simp: trace_write_def Let_def line_def split: if_splits)
  next
    case False
    then have room: "tr_written t + length line \<le> MAX_TRACE_BYTES"
      by (auto simp: usize_saturating_add_def usize_max_def MAX_TRACE_BYTES_def split: if_splits)
    show ?thesis
    proof (cases r)
      case (Inl err)
      with assms False a failed_calls(5) [of "tr_path t" line s err s1] show ?thesis
        by (auto simp: trace_write_def Let_def line_def)
    next
      case (Inr u)
      with fs_append_Inr [OF a [unfolded Inr] e(1,2)] assms False a room e show ?thesis
        by (auto simp: trace_write_def Let_def line_def trace_counts_def)
    qed
  qed
qed

lemma trace_record_counts: "trace_record e t s = (t', s') \<Longrightarrow> trace_counts t s \<Longrightarrow> trace_counts t' s'"
  by (cases e) (auto intro: trace_write_counts)

lemma trace_records_counts:
  "trace_records es t s = (t', s') \<Longrightarrow> trace_counts t s \<Longrightarrow> trace_counts t' s' \<and> tr_path t' = tr_path t"
proof (induction es arbitrary: t s)
  case (Cons e es)
  obtain t1 s1 where "trace_record e t s = (t1, s1)" by fastforce
  with Cons trace_record_counts trace_record_keeps show ?case by fastforce
qed simp

lemma trace_create_counts:
  assumes "trace_create p component s = (Inr t, s')"
  shows "trace_counts t s' \<and> tr_path t = p"
proof -
  let ?t = "\<lparr>tr_path = p, tr_component = component, tr_written = 0\<rparr>"
  obtain u s1 where c: "fs_create_new p 384 s = (Inr u, s1)"
    "trace_write (bs ''trace_started'') None ?t s1 = (t, s')"
    using assms by (auto simp: trace_create_def io_simps split: prod.splits sum.splits)
  have "trace_counts ?t s1"
    using fs_create_new_Inr [OF c(1)] by (simp add: trace_counts_def new_entry_def)
  then show ?thesis
    using trace_write_counts [OF c(2)] trace_write_keeps [OF c(2)] by simp
qed

section \<open>Properties\<close>



end
