(* ===== verification/Runner.thy ===== *)
theory Runner
  imports Byte_Queue Output_Tail Child_Process Trace_Log
begin

text \<open>
  src/runner.rs, the event loop of a session's runner: one tick drains the terminal, looks
  after the child, polls, serves the attached client, accepts a candidate and serves it.

  \<open>runner\<close> holds the locals of \<open>run_event_loop\<close> and what they refer to.  The environment is
  data of the state: the bytes the terminal and the sockets will deliver and take, the
  connections \<open>accept\<close> will return, the end of the child.  Only the answers of \<open>poll\<close> are
  given tick by tick.  \<open>rn_closed\<close> keeps the connections the runner has dropped, so that
  their clients' view can be stated.
\<close>

section \<open>State\<close>

record connection =
  c_stream :: stream
  c_decoder :: decoder
  c_output :: byte_queue

definition connection_new :: "stream \<Rightarrow> connection" where
  "connection_new st =
     \<lparr>c_stream = st, c_decoder = decoder_default, c_output = bq_new MAX_ATTACHMENT_QUEUE_BYTES\<rparr>"

text \<open>A connection \<open>accept\<close> returns: its streams, its peer, and whether it can be made nonblocking.\<close>

record accepted =
  ac_in :: reader
  ac_write_plan :: "write_response list"
  ac_peer :: "(u32 \<times> u32) io_result"
  ac_nonblocking :: "unit io_result"

datatype accept_response = Accepted accepted | Accept_fails io_error

definition accepted_stream :: "accepted \<Rightarrow> stream" where
  "accepted_stream a = \<lparr>s_in = ac_in a,
     s_out = \<lparr>sink = [], write_plan = ac_write_plan a, flushed = 0, flush_plan = []\<rparr>\<rparr>"

record runner =
  rn_session :: session_id
  rn_registry :: registry
  rn_paths :: session_paths
  rn_runner_pid :: u32
  rn_child_pid :: u32
  rn_started_at :: u64
  rn_master :: pty
  rn_child :: child
  rn_accepts :: "accept_response list"
  rn_trace :: "trace option"
  rn_tail :: output_tail
  rn_input :: byte_queue
  rn_active :: "connection option"
  rn_candidate :: "connection option"
  rn_stop :: bool
  rn_now :: nat
  rn_os :: os
  rn_closed :: "connection list"

type_synonym 'a act = "(runner, 'a) io"

definition on_os :: "(os, 'a) io \<Rightarrow> 'a act" where
  "on_os m r = (case m (rn_os r) of (res, s) \<Rightarrow> (res, r\<lparr>rn_os := s\<rparr>))"

section \<open>Tracing\<close>

definition trace_entry :: "trace_entry \<Rightarrow> runner \<Rightarrow> runner" where
  "trace_entry entry r =
     (case rn_trace r of
        None \<Rightarrow> r
      | Some t \<Rightarrow> (case trace_record entry t (rn_os r) of
          (t', s') \<Rightarrow> r\<lparr>rn_trace := Some t', rn_os := s'\<rparr>))"

definition trace_event :: "string \<Rightarrow> runner \<Rightarrow> runner" where
  "trace_event event = trace_entry (Trace_event (bs event))"

definition trace_io_error :: "string \<Rightarrow> io_error \<Rightarrow> runner \<Rightarrow> runner" where
  "trace_io_error event e = trace_entry (Trace_io_error (bs event) e)"

definition trace_process_exit :: "process_exit \<Rightarrow> runner \<Rightarrow> runner" where
  "trace_process_exit exit =
     (case exit of
        Code code \<Rightarrow> trace_entry (Trace_metric (bs ''session_completed'') (bs ''exit_code'') (ucast code))
      | Signal sig \<Rightarrow> trace_entry (Trace_metric (bs ''session_completed'') (bs ''signal'') (ucast sig)))"

section \<open>Connections\<close>

text \<open>\<open>active = None\<close> and \<open>candidate = None\<close> close the connection that was there.\<close>

definition drop_active :: "runner \<Rightarrow> runner" where
  "drop_active r =
     (case rn_active r of None \<Rightarrow> r | Some c \<Rightarrow> r\<lparr>rn_active := None, rn_closed := c # rn_closed r\<rparr>)"

definition drop_candidate :: "runner \<Rightarrow> runner" where
  "drop_candidate r =
     (case rn_candidate r of None \<Rightarrow> r | Some c \<Rightarrow> r\<lparr>rn_candidate := None, rn_closed := c # rn_closed r\<rparr>)"

fun enqueue_chunks :: "byte list list \<Rightarrow> (connection, unit) io" where
  "enqueue_chunks [] c = (Inr (), c)"
| "enqueue_chunks (piece # pieces) c =
     (case encode (Output piece) of
        Inl e \<Rightarrow> (Inl e, c)
      | Inr encoded \<Rightarrow>
          (case bq_push (c_output c) encoded of
             (False, _) \<Rightarrow> (Inl (io_error_new WouldBlock), c)
           | (True, q) \<Rightarrow> enqueue_chunks pieces (c\<lparr>c_output := q\<rparr>)))"

definition enqueue_output :: "byte list \<Rightarrow> (connection, unit) io" where
  "enqueue_output output = enqueue_chunks (chunks MAX_IPC_PAYLOAD_BYTES output)"

definition enqueue_replay :: "output_tail \<Rightarrow> (connection, unit) io" where
  "enqueue_replay t =
     io_try (if tail_is_truncated t then enqueue_output TRUNCATION_MARKER else io_ok ()) (\<lambda>_.
     enqueue_output (tail_snapshot t))"

text \<open>\<open>read_records\<close>: one read, at most as much as the decoder has room for, then every whole record\<close>

definition read_records :: "(connection, ipc_record list) io" where
  "read_records c =
     (let capacity = min (remaining_capacity (c_decoder c)) IO_CHUNK_BYTES in
      if capacity = 0 then (Inl (io_error_new InvalidData), c)
      else case read_once capacity (s_in (c_stream c)) of
        (Inl e, rd) \<Rightarrow>
          (if err_kind e = WouldBlock \<or> err_kind e = Interrupted then Inr [] else Inl e,
           c\<lparr>c_stream := (c_stream c)\<lparr>s_in := rd\<rparr>\<rparr>)
      | (Inr bytes, rd) \<Rightarrow>
          (let c = c\<lparr>c_stream := (c_stream c)\<lparr>s_in := rd\<rparr>\<rparr> in
           if bytes = [] then (Inl (io_error_new UnexpectedEof), c)
           else (case decoder_push (c_decoder c) bytes of
             (Inl _, d) \<Rightarrow> (Inl (io_error_new InvalidData), c\<lparr>c_decoder := d\<rparr>)
           | (Inr _, d) \<Rightarrow>
               (case decode_all d of
                  (Inl _, d) \<Rightarrow> (Inl (io_error_new InvalidData), c\<lparr>c_decoder := d\<rparr>)
                | (Inr records, d) \<Rightarrow> (Inr records, c\<lparr>c_decoder := d\<rparr>)))))"

definition read_active :: "ipc_record list act" where
  "read_active r =
     (case rn_active r of
        None \<Rightarrow> (Inr [], r)
      | Some c \<Rightarrow> (case read_records c of (res, c) \<Rightarrow> (res, r\<lparr>rn_active := Some c\<rparr>)))"

definition read_candidate :: "ipc_record list act" where
  "read_candidate r =
     (case rn_candidate r of
        None \<Rightarrow> (Inr [], r)
      | Some c \<Rightarrow> (case read_records c of (res, c) \<Rightarrow> (res, r\<lparr>rn_candidate := Some c\<rparr>)))"

definition resize :: "u16 \<Rightarrow> u16 \<Rightarrow> unit act" where
  "resize rows columns r =
     (case set_window_size rows columns (rn_master r) of (res, p) \<Rightarrow> (res, r\<lparr>rn_master := p\<rparr>))"

fun apply_active_records :: "ipc_record list \<Rightarrow> bool act" where
  "apply_active_records [] r = (Inr True, r)"
| "apply_active_records (rec # recs) r =
     (case rec of
        Input bytes \<Rightarrow>
          (case bq_push (rn_input r) bytes of
             (False, _) \<Rightarrow> (Inr False, r)
           | (True, q) \<Rightarrow> apply_active_records recs (r\<lparr>rn_input := q\<rparr>))
      | Resize rows columns \<Rightarrow>
          (case resize rows columns r of
             (Inl e, r) \<Rightarrow> (Inl e, r)
           | (Inr _, r) \<Rightarrow> apply_active_records recs r)
      | _ \<Rightarrow> (Inr False, r))"

section \<open>drain\_pty\<close>

definition set_pty_reader :: "reader \<Rightarrow> runner \<Rightarrow> runner" where
  "set_pty_reader rd r = r\<lparr>rn_master := (rn_master r)\<lparr>pty_in := rd\<rparr>\<rparr>"

text \<open>One piece of terminal output goes to the tail and, if one is attached, to the client.\<close>

definition deliver :: "byte list \<Rightarrow> runner \<Rightarrow> runner" where
  "deliver bytes r =
     (let r = r\<lparr>rn_tail := tail_extend (rn_tail r) bytes\<rparr> in
      case rn_active r of
        None \<Rightarrow> r
      | Some c \<Rightarrow>
          (case enqueue_output bytes c of
             (Inl _, c) \<Rightarrow> drop_active (r\<lparr>rn_active := Some c\<rparr>)
           | (Inr _, c) \<Rightarrow> r\<lparr>rn_active := Some c\<rparr>))"

lemma deliver_master [simp]: "rn_master (deliver bytes r) = rn_master r"
  by (auto simp: deliver_def drop_active_def Let_def split: option.splits prod.splits sum.splits)

lemma set_pty_reader_master [simp]: "pty_in (rn_master (set_pty_reader rd r)) = rd"
  by (simp add: set_pty_reader_def)

function drain_loop :: "nat \<Rightarrow> unit act" where
  "drain_loop processed r =
     (if processed < MAX_PTY_BYTES_PER_TICK then
        (case read_once IO_CHUNK_BYTES (pty_in (rn_master r)) of
           (Inr bytes, rd) \<Rightarrow>
             if bytes = [] then (Inr (), trace_event ''pty_eof'' (set_pty_reader rd r))
             else drain_loop (processed + length bytes) (deliver bytes (set_pty_reader rd r))
         | (Inl e, rd) \<Rightarrow>
             if err_kind e = WouldBlock then (Inr (), set_pty_reader rd r)
             else if raw_os_error e = Some EIO then (Inr (), trace_io_error ''pty_eio'' e (set_pty_reader rd r))
             else if err_kind e = Interrupted then drain_loop processed (set_pty_reader rd r)
             else (Inl e, trace_io_error ''pty_read_failed'' e (set_pty_reader rd r)))
      else (Inr (), r))"
  by pat_completeness auto
termination
  by (relation "measure (\<lambda>(processed, r). size (pty_in (rn_master r)))")
    (auto dest!: sym [of "(_, _)"] intro: read_once_data_measure read_once_error_measure)

declare drain_loop.simps [simp del]

definition drain_pty :: "unit act" where
  "drain_pty = drain_loop 0"

section \<open>Metadata\<close>

definition live_metadata :: "session_id \<Rightarrow> u32 \<Rightarrow> u32 \<Rightarrow> u64 \<Rightarrow> bool \<Rightarrow> session_metadata" where
  "live_metadata session runner_pid child_pid started_at attached =
     Live \<lparr>lv_session_id = session_to_string session, lv_runner_pid = runner_pid,
       lv_child_pid = child_pid, lv_started_at = started_at, lv_attached = attached\<rparr>"

definition runner_metadata :: "runner \<Rightarrow> bool \<Rightarrow> session_metadata" where
  "runner_metadata r attached =
     live_metadata (rn_session r) (rn_runner_pid r) (rn_child_pid r) (rn_started_at r) attached"

definition write_attached :: "json \<Rightarrow> bool \<Rightarrow> unit act" where
  "write_attached js attached r =
     on_os (write_metadata js (rn_paths r) (runner_metadata r attached)) r"

section \<open>Accepting\<close>

text \<open>\<open>accept\_candidate\<close>: the newest connection of the user replaces the candidate.\<close>

fun accept_loop :: "accept_response list \<Rightarrow> unit act" where
  "accept_loop [] r = (Inr (), r\<lparr>rn_accepts := []\<rparr>)"
| "accept_loop (Accept_fails e # as) r =
     (if err_kind e = WouldBlock then (Inr (), r\<lparr>rn_accepts := as\<rparr>)
      else (Inl e, r\<lparr>rn_accepts := as\<rparr>))"
| "accept_loop (Accepted a # as) r =
     (case peer_uid (ac_peer a) of
        Inl e \<Rightarrow> (Inl e, r\<lparr>rn_accepts := as\<rparr>)
      | Inr peer \<Rightarrow>
          if peer \<noteq> os_uid (rn_os r) then accept_loop as (trace_event ''candidate_peer_rejected'' r)
          else case ac_nonblocking a of
            Inl e \<Rightarrow> (Inl e, r\<lparr>rn_accepts := as\<rparr>)
          | Inr _ \<Rightarrow>
              (let r = (if rn_candidate r \<noteq> None then trace_event ''candidate_replaced'' r else r);
                   r = trace_event ''candidate_accepted'' r
               in accept_loop as
                    ((drop_candidate r)\<lparr>rn_candidate := Some (connection_new (accepted_stream a))\<rparr>)))"

definition accept_candidate :: "unit act" where
  "accept_candidate r = accept_loop (rn_accepts r) r"

section \<open>One tick\<close>

record poll_flags =
  pf_in :: bool
  pf_out :: bool
  pf_hup :: bool
  pf_err :: bool

text \<open>
  What \<open>poll\<close> reports about the master, the listener, the candidate and the active
  connection, the time it took and the wall clock afterwards.
\<close>

record poll_answer =
  pa_result :: "int + (poll_flags \<times> poll_flags \<times> poll_flags \<times> poll_flags)"
  pa_elapsed :: nat
  pa_clock :: int

text \<open>The part up to \<open>poll\<close>.\<close>

definition drain_step :: "json \<Rightarrow> unit act" where
  "drain_step js r =
     io_try drain_pty (\<lambda>_ r'.
       if rn_active r \<noteq> None \<and> rn_active r' = None
       then write_attached js False (trace_event ''attachment_output_queue_full'' r')
       else (Inr (), r')) r"

definition runner_try_wait :: "exit_status option act" where
  "runner_try_wait r =
     (case try_wait (rn_child r, rn_now r) of
        (res, (c, now)) \<Rightarrow> (res, r\<lparr>rn_child := c, rn_now := now\<rparr>))"

text \<open>Writing queued input to the terminal.\<close>

definition flush_input :: "runner \<Rightarrow> runner" where
  "flush_input r =
     (case bq_flush (rn_input r, pty_out (rn_master r)) of
        (res, (q, w)) \<Rightarrow>
          (let r = r\<lparr>rn_input := q, rn_master := (rn_master r)\<lparr>pty_out := w\<rparr>\<rparr> in
           case res of
             Inr _ \<Rightarrow> r
           | Inl e \<Rightarrow> drop_active (trace_io_error ''pty_input_write_failed'' e r)))"

text \<open>The attached client: hangups are traced, queued output is written, records are read.\<close>

definition flush_connection :: "(connection, unit) io" where
  "flush_connection c =
     (case bq_flush (c_output c, s_out (c_stream c)) of
        (res, (q, w)) \<Rightarrow> (res, c\<lparr>c_output := q, c_stream := (c_stream c)\<lparr>s_out := w\<rparr>\<rparr>))"

definition flush_active :: "runner \<Rightarrow> runner" where
  "flush_active r =
     (case rn_active r of
        None \<Rightarrow> r
      | Some c \<Rightarrow>
          (case flush_connection c of
             (Inr _, c) \<Rightarrow> r\<lparr>rn_active := Some c\<rparr>
           | (Inl e, c) \<Rightarrow> drop_active (trace_io_error ''attachment_write_failed'' e (r\<lparr>rn_active := Some c\<rparr>))))"

definition serve_active :: "unit act" where
  "serve_active r =
     (case read_active r of
        (Inl e, r) \<Rightarrow> (Inr (), drop_active (trace_io_error ''attachment_read_failed'' e r))
      | (Inr records, r) \<Rightarrow>
          io_try (apply_active_records records) (\<lambda>applied r.
            if applied then (Inr (), r)
            else (Inr (), drop_active (trace_event ''attachment_input_rejected'' r))) r)"

definition readable :: "poll_flags \<Rightarrow> bool" where
  "readable event \<longleftrightarrow> pf_in event \<or> pf_hup event \<or> pf_err event"

definition active_step :: "json \<Rightarrow> poll_flags \<Rightarrow> unit act" where
  "active_step js event r =
     (let r = (if pf_hup event then trace_event ''attachment_poll_hangup'' r else r);
          r = (if pf_err event then trace_event ''attachment_poll_error'' r else r);
          r = (if pf_out event then flush_active r else r)
      in io_try (if rn_active r \<noteq> None \<and> readable event then serve_active else io_ok ()) (\<lambda>_ r.
           if rn_active r = None then write_attached js False r else (Inr (), r)) r)"

text \<open>The candidate: its first record decides between attaching, stopping and rejection.\<close>

definition activate :: "connection \<Rightarrow> runner \<Rightarrow> runner" where
  "activate c r =
     (let r = (if rn_active r \<noteq> None then trace_event ''attachment_replaced'' r else r);
          r = trace_event ''attachment_activated'' r
      in (drop_active r)\<lparr>rn_active := Some c\<rparr>)"

definition attach_candidate :: "json \<Rightarrow> u16 \<Rightarrow> u16 \<Rightarrow> ipc_record list \<Rightarrow> unit act" where
  "attach_candidate js rows columns remaining r =
     (case rn_candidate r of
        None \<Rightarrow> (Inr (), r)
      | Some c \<Rightarrow>
          (let r = r\<lparr>rn_candidate := None\<rparr> in
           case resize rows columns r of
             (Inl e, r) \<Rightarrow> (Inl e, r\<lparr>rn_closed := c # rn_closed r\<rparr>)
           | (Inr _, r) \<Rightarrow>
             (case enqueue_replay (rn_tail r) c of
                (Inl e, c) \<Rightarrow> (Inl e, r\<lparr>rn_closed := c # rn_closed r\<rparr>)
              | (Inr _, c) \<Rightarrow>
                (case apply_active_records remaining r of
                   (Inl e, r) \<Rightarrow> (Inl e, r\<lparr>rn_closed := c # rn_closed r\<rparr>)
                 | (Inr False, r) \<Rightarrow> (Inr (), r\<lparr>rn_closed := c # rn_closed r\<rparr>)
                 | (Inr True, r) \<Rightarrow> write_attached js True (activate c r)))))"

definition candidate_records :: "json \<Rightarrow> ipc_record list \<Rightarrow> unit act" where
  "candidate_records js records r =
     (case records of
        [] \<Rightarrow> (Inr (), r)
      | Attach rows columns # remaining \<Rightarrow> attach_candidate js rows columns remaining r
      | [Stop] \<Rightarrow> (Inr (), (drop_candidate (trace_event ''stop_requested'' r))\<lparr>rn_stop := True\<rparr>)
      | _ \<Rightarrow> (Inr (), drop_candidate (trace_event ''candidate_rejected'' r)))"

definition candidate_step :: "json \<Rightarrow> unit act" where
  "candidate_step js r =
     (case read_candidate r of
        (Inl e, r) \<Rightarrow> (Inr (), drop_candidate (trace_io_error ''candidate_read_failed'' e r))
      | (Inr records, r) \<Rightarrow> candidate_records js records r)"

text \<open>
  After \<open>poll\<close>.  \<open>had_candidate\<close> and \<open>had_active\<close> are the \<open>candidate_index\<close> and \<open>active_index\<close>
  of the loop: whether the connection was there when the descriptors were listed.  \<open>poll\<close>
  reports \<open>OUT\<close> only where there was something to write.
\<close>

definition events_step ::
    "json \<Rightarrow> poll_flags \<Rightarrow> poll_flags \<Rightarrow> poll_flags \<Rightarrow> poll_flags \<Rightarrow> unit act" where
  "events_step js master listener cand active r =
     (let had_candidate = rn_candidate r \<noteq> None;
          had_active = rn_active r \<noteq> None;
          master_out = (pf_out master \<and> \<not> bq_is_empty (rn_input r));
          active = active\<lparr>pf_out := pf_out active \<and>
            (case rn_active r of None \<Rightarrow> False | Some c \<Rightarrow> \<not> bq_is_empty (c_output c))\<rparr>
      in io_try (if had_active then active_step js active else io_ok ()) (\<lambda>_.
         io_try (if pf_in listener then accept_candidate else io_ok ()) (\<lambda>_.
         if had_candidate \<and> readable cand then candidate_step js else io_ok ()))
         (if master_out then flush_input r else r))"

section \<open>The end of a session\<close>

text \<open>\<open>complete_session\<close>; an error drops the session files on the way out.\<close>

definition farewell :: "process_exit \<Rightarrow> connection \<Rightarrow> connection" where
  "farewell exit c =
     (case flush_connection c of
        (Inl _, c) \<Rightarrow> c
      | (Inr _, c) \<Rightarrow>
          (case encode (Exit exit) of
             Inl _ \<Rightarrow> c
           | Inr encoded \<Rightarrow>
               (case bq_push (c_output c) encoded of
                  (False, _) \<Rightarrow> c
                | (True, q) \<Rightarrow> snd (flush_connection (c\<lparr>c_output := q\<rparr>)))))"

definition record_completion :: "json \<Rightarrow> process_exit \<Rightarrow> unit act" where
  "record_completion js exit r =
     (let output = tail_snapshot (rn_tail r) in
      on_os
        (io_try (write_output (rn_paths r) output) (\<lambda>_.
         io_try now_seconds (\<lambda>finished_at.
         io_try (write_metadata js (rn_paths r)
           (Completed \<lparr>cs_session_id = session_to_string (rn_session r),
              cs_started_at = rn_started_at r, cs_finished_at = finished_at,
              cs_exit = exit_metadata_from exit, cs_output_bytes = length output,
              cs_truncated = tail_is_truncated (rn_tail r)\<rparr>)) (\<lambda>_.
         remove_live_files (rn_paths r))))) r)"

definition drop_files :: "runner \<Rightarrow> runner" where
  "drop_files r = snd (on_os (drop_session_files (rn_paths r)) r)"

definition complete_session :: "json \<Rightarrow> process_exit \<Rightarrow> unit act" where
  "complete_session js exit r =
     (case record_completion js exit r of
        (Inl e, r) \<Rightarrow> (Inl e, drop_active (drop_files r))
      | (Inr _, r) \<Rightarrow>
          (Inr (), drop_active ((drop_files r)\<lparr>rn_active := map_option (farewell exit) (rn_active r)\<rparr>)))"

section \<open>The loop\<close>

text \<open>What a tick comes to: the next one, the end of the loop, or a wait that never returns.\<close>

datatype outcome = Again | Returns "unit io_result" | Never

text \<open>Leaving the function drops the session files, if they are still there, and the connections.\<close>

definition fails :: "io_error \<Rightarrow> runner \<Rightarrow> outcome \<times> runner" where
  "fails e r = (Returns (Inl e), drop_candidate (drop_active (drop_files r)))"

definition completes :: "json \<Rightarrow> exit_status \<Rightarrow> runner \<Rightarrow> outcome \<times> runner" where
  "completes js status r =
     (case complete_session js (process_exit_of status) (trace_process_exit (process_exit_of status) r) of
        (res, r) \<Rightarrow> (Returns res, drop_candidate r))"

definition runner_stop :: "json \<Rightarrow> runner \<Rightarrow> outcome \<times> runner" where
  "runner_stop js r =
     (case stop_child (rn_child r, rn_now r) of
        None \<Rightarrow> (Never, r)
      | Some (res, (c, now)) \<Rightarrow>
          (let r = r\<lparr>rn_child := c, rn_now := now\<rparr> in
           case res of Inl e \<Rightarrow> fails e r | Inr status \<Rightarrow> completes js status r))"

definition child_exited :: "json \<Rightarrow> exit_status \<Rightarrow> runner \<Rightarrow> outcome \<times> runner" where
  "child_exited js status r =
     (case drain_pty (trace_event ''child_exited'' r) of
        (Inl e, r) \<Rightarrow> fails e r
      | (Inr _, r) \<Rightarrow> completes js status r)"

definition runner_tick :: "json \<Rightarrow> poll_answer \<Rightarrow> runner \<Rightarrow> outcome \<times> runner" where
  "runner_tick js answer r =
     (case drain_step js r of
        (Inl e, r) \<Rightarrow> fails e r
      | (Inr _, r) \<Rightarrow>
        (case runner_try_wait r of
           (Inl e, r) \<Rightarrow> fails e r
         | (Inr (Some status), r) \<Rightarrow> child_exited js status r
         | (Inr None, r) \<Rightarrow>
           (let r = r\<lparr>rn_now := rn_now r + pa_elapsed answer, rn_os := (rn_os r)\<lparr>clock := pa_clock answer\<rparr>\<rparr> in
            case pa_result answer of
              Inl code \<Rightarrow>
                if code = EINTR then (Again, r)
                else fails (io_error_from_errno code)
                  (trace_io_error ''runner_poll_failed'' (io_error_from_errno code) r)
            | Inr (master, listener, cand, active) \<Rightarrow>
                (case events_step js master listener cand active r of
                   (Inl e, r) \<Rightarrow> fails e r
                 | (Inr _, r) \<Rightarrow> if rn_stop r then runner_stop js r else (Again, r)))))"

text \<open>\<open>run\_event\_loop\<close> over the answers of \<open>poll\<close>, as long as they last.\<close>

fun run_event_loop :: "json \<Rightarrow> poll_answer list \<Rightarrow> runner \<Rightarrow> outcome \<times> runner" where
  "run_event_loop js [] r = (Again, r)"
| "run_event_loop js (a # as) r =
     (case runner_tick js a r of
        (Again, r) \<Rightarrow> run_event_loop js as r
      | (result, r) \<Rightarrow> (result, r))"

end
