(* ===== verification/Runner_Facts.thy ===== *)
theory Runner_Facts
  imports Runner
begin

text \<open>
  What the steps of the runner do to the parts of its state, and to the view its clients
  have of the terminal: the lemmas the invariants of the event loop rest on.
\<close>

section \<open>Fields\<close>

lemma trace_entry_fields [simp]:
  "rn_session (trace_entry e r) = rn_session r" "rn_registry (trace_entry e r) = rn_registry r"
  "rn_paths (trace_entry e r) = rn_paths r" "rn_runner_pid (trace_entry e r) = rn_runner_pid r"
  "rn_child_pid (trace_entry e r) = rn_child_pid r" "rn_started_at (trace_entry e r) = rn_started_at r"
  "rn_master (trace_entry e r) = rn_master r" "rn_child (trace_entry e r) = rn_child r"
  "rn_accepts (trace_entry e r) = rn_accepts r" "rn_tail (trace_entry e r) = rn_tail r"
  "rn_input (trace_entry e r) = rn_input r" "rn_active (trace_entry e r) = rn_active r"
  "rn_candidate (trace_entry e r) = rn_candidate r" "rn_stop (trace_entry e r) = rn_stop r"
  "rn_now (trace_entry e r) = rn_now r" "rn_closed (trace_entry e r) = rn_closed r"
  by (simp_all add: trace_entry_def split: option.splits prod.splits)

lemma trace_is_entry:
  "\<exists>e. trace_event ev = trace_entry e" "\<exists>e. trace_io_error ev err = trace_entry e"
  "\<exists>e. trace_process_exit ex = trace_entry e"
  by (auto simp: trace_event_def trace_io_error_def trace_process_exit_def split: process_exit.splits)

lemma drop_active_fields [simp]:
  "rn_session (drop_active r) = rn_session r" "rn_registry (drop_active r) = rn_registry r"
  "rn_paths (drop_active r) = rn_paths r" "rn_runner_pid (drop_active r) = rn_runner_pid r"
  "rn_child_pid (drop_active r) = rn_child_pid r" "rn_started_at (drop_active r) = rn_started_at r"
  "rn_master (drop_active r) = rn_master r" "rn_child (drop_active r) = rn_child r"
  "rn_accepts (drop_active r) = rn_accepts r" "rn_trace (drop_active r) = rn_trace r"
  "rn_tail (drop_active r) = rn_tail r" "rn_input (drop_active r) = rn_input r"
  "rn_active (drop_active r) = None" "rn_candidate (drop_active r) = rn_candidate r"
  "rn_stop (drop_active r) = rn_stop r" "rn_now (drop_active r) = rn_now r" "rn_os (drop_active r) = rn_os r"
  by (simp_all add: drop_active_def split: option.splits)

lemma drop_candidate_fields [simp]:
  "rn_session (drop_candidate r) = rn_session r" "rn_registry (drop_candidate r) = rn_registry r"
  "rn_paths (drop_candidate r) = rn_paths r" "rn_runner_pid (drop_candidate r) = rn_runner_pid r"
  "rn_child_pid (drop_candidate r) = rn_child_pid r" "rn_started_at (drop_candidate r) = rn_started_at r"
  "rn_master (drop_candidate r) = rn_master r" "rn_child (drop_candidate r) = rn_child r"
  "rn_accepts (drop_candidate r) = rn_accepts r" "rn_trace (drop_candidate r) = rn_trace r"
  "rn_tail (drop_candidate r) = rn_tail r" "rn_input (drop_candidate r) = rn_input r"
  "rn_active (drop_candidate r) = rn_active r" "rn_candidate (drop_candidate r) = None"
  "rn_stop (drop_candidate r) = rn_stop r" "rn_now (drop_candidate r) = rn_now r" "rn_os (drop_candidate r) = rn_os r"
  by (simp_all add: drop_candidate_def split: option.splits)

lemma on_os_fields:
  assumes "on_os m r = (res, r')"
  shows "\<exists>s. m (rn_os r) = (res, s) \<and> r' = r\<lparr>rn_os := s\<rparr>"
  using assms by (auto simp: on_os_def split: prod.splits)

section \<open>A client's view\<close>

text \<open>What a client that attaches after \<open>seen\<close> is shown before any live output.\<close>

definition replay :: "byte list \<Rightarrow> byte list" where
  "replay seen =
     (if OUTPUT_TAIL_BYTES < length seen then TRUNCATION_MARKER else []) @ last_bytes OUTPUT_TAIL_BYTES seen"

definition output_frames :: "byte list list \<Rightarrow> byte list" where
  "output_frames pieces = concat (map (\<lambda>p. record_frame (Output p)) pieces)"

definition queued :: "connection \<Rightarrow> byte list" where
  "queued c = sink (s_out (c_stream c)) @ bq_contents (c_output c)"

definition queue_ok :: "connection \<Rightarrow> bool" where
  "queue_ok c \<longleftrightarrow> bq_wf (c_output c) \<and> q_limit (c_output c) = MAX_ATTACHMENT_QUEUE_BYTES"

text \<open>
  The bytes written and queued for a client are records of output that together carry the
  replay of what there was when it attached and everything since.
\<close>

definition carries :: "byte list \<Rightarrow> connection \<Rightarrow> bool" where
  "carries shown c \<longleftrightarrow>
     (\<exists>pieces. (\<forall>p \<in> set pieces. length p \<le> MAX_IPC_PAYLOAD_BYTES) \<and> concat pieces = shown \<and>
        queued c = output_frames pieces)"

definition follows :: "byte list \<Rightarrow> connection \<Rightarrow> bool" where
  "follows history c \<longleftrightarrow> queue_ok c \<and> (\<exists>seen later. history = seen @ later \<and> carries (replay seen @ later) c)"

definition quiet :: "connection \<Rightarrow> bool" where
  "quiet c \<longleftrightarrow> queue_ok c \<and> queued c = []"

definition settled :: "connection \<Rightarrow> bool" where
  "settled c \<longleftrightarrow> decoder_settled (c_decoder c)"

lemma output_frames_append [simp]: "output_frames (xs @ ys) = output_frames xs @ output_frames ys"
  by (simp add: output_frames_def)

lemma encode_output: "length p \<le> MAX_IPC_PAYLOAD_BYTES \<Longrightarrow> encode (Output p) = Inr (record_frame (Output p))"
  by (simp add: encode_frame)

lemma enqueue_chunks_result:
  "enqueue_chunks pieces c = (res, c') \<Longrightarrow> \<forall>p \<in> set pieces. length p \<le> MAX_IPC_PAYLOAD_BYTES \<Longrightarrow>
   queue_ok c \<Longrightarrow>
   queue_ok c' \<and> c_decoder c' = c_decoder c \<and> c_stream c' = c_stream c \<and>
   (\<exists>sent rest. pieces = sent @ rest \<and> queued c' = queued c @ output_frames sent \<and>
      (is_ok res \<longleftrightarrow> rest = []))"
proof (induction pieces arbitrary: c)
  case Nil
  then show ?case by (intro conjI exI [of _ "[]"]) (auto simp: output_frames_def)
next
  case (Cons p pieces)
  have enc: "encode (Output p) = Inr (record_frame (Output p))"
    using Cons.prems by (intro encode_output) simp
  have fits: "length (bq_contents (c_output c)) \<le> q_limit (c_output c)"
    using Cons.prems(3) by (simp add: queue_ok_def bq_wf_def)
  obtain b q where push: "bq_push (c_output c) (record_frame (Output p)) = (b, q)" by fastforce
  show ?case
  proof (cases b)
    case False
    with Cons.prems enc push show ?thesis
      by (intro conjI exI [of _ "[]"] exI [of _ "p # pieces"]) (auto simp: output_frames_def)
  next
    case True
    let ?c = "c\<lparr>c_output := q\<rparr>"
    from push True have q: "bq_contents q = bq_contents (c_output c) @ record_frame (Output p)"
      "q_limit q = q_limit (c_output c)" "length (bq_contents q) \<le> q_limit q"
      using bq.push_True [of "c_output c" "record_frame (Output p)" q] fits by auto
    have "queue_ok ?c" using q Cons.prems(3) by (simp add: queue_ok_def bq_wf_def)
    moreover have "enqueue_chunks pieces ?c = (res, c')"
      using Cons.prems(1) enc push True by simp
    ultimately obtain sent rest where ih: "queue_ok c'" "c_decoder c' = c_decoder ?c" "c_stream c' = c_stream ?c"
      "pieces = sent @ rest" "queued c' = queued ?c @ output_frames sent" "is_ok res \<longleftrightarrow> rest = []"
      using Cons.IH [of ?c] Cons.prems(2) by auto
    then show ?thesis
      by (intro conjI exI [of _ "p # sent"] exI [of _ rest])
        (auto simp: queued_def q(1) output_frames_def)
  qed
qed

text \<open>Whatever fits is queued in order: everything on success, a beginning otherwise.\<close>

lemma enqueue_output_front:
  assumes "enqueue_output xs c = (res, c')" and "queue_ok c"
  shows "queue_ok c' \<and> c_decoder c' = c_decoder c \<and> c_stream c' = c_stream c \<and>
    (\<exists>front rest. xs = front @ rest \<and> (is_ok res \<longrightarrow> rest = []) \<and>
       (\<forall>shown. carries shown c \<longrightarrow> carries (shown @ front) c'))"
proof -
  let ?ps = "chunks MAX_IPC_PAYLOAD_BYTES xs"
  have small: "\<forall>p \<in> set ?ps. length p \<le> MAX_IPC_PAYLOAD_BYTES"
    using chunks_pieces by blast
  have xs: "concat ?ps = xs" by (simp add: limits)
  from enqueue_chunks_result [OF assms(1) [unfolded enqueue_output_def] small assms(2)]
  obtain sent rest where c': "queue_ok c'" "c_decoder c' = c_decoder c" "c_stream c' = c_stream c"
    "?ps = sent @ rest" "queued c' = queued c @ output_frames sent" "is_ok res \<longleftrightarrow> rest = []"
    by blast
  have "carries (shown @ concat sent) c'" if old: "carries shown c" for shown
  proof -
    from old obtain pieces where p: "\<forall>p \<in> set pieces. length p \<le> MAX_IPC_PAYLOAD_BYTES"
      "concat pieces = shown" "queued c = output_frames pieces"
      by (auto simp: carries_def)
    have "\<forall>p \<in> set (pieces @ sent). length p \<le> MAX_IPC_PAYLOAD_BYTES"
      using p(1) small c'(4) by auto
    moreover have "concat (pieces @ sent) = shown @ concat sent" using p(2) by simp
    moreover have "queued c' = output_frames (pieces @ sent)" using c'(5) p(3) by simp
    ultimately show ?thesis unfolding carries_def by blast
  qed
  moreover have "xs = concat sent @ concat rest" using xs c'(4) by simp
  ultimately show ?thesis using c' by (intro conjI exI [of _ "concat sent"] exI [of _ "concat rest"]) auto
qed

lemma enqueue_output_result:
  assumes "enqueue_output xs c = (res, c')" and "queue_ok c"
  shows "queue_ok c' \<and> c_decoder c' = c_decoder c \<and> c_stream c' = c_stream c \<and>
    (is_ok res \<longrightarrow> carries shown c \<longrightarrow> carries (shown @ xs) c')"
  using enqueue_output_front [OF assms] by fastforce

text \<open>A fresh connection has room for the whole replay.\<close>

lemma length_output_frames:
  "length (output_frames pieces) = length (concat pieces) + IPC_HEADER_BYTES * length pieces"
  by (induction pieces) (simp_all add: output_frames_def length_record_frame)

lemma enqueue_chunks_room:
  assumes "\<forall>p \<in> set ps. length p \<le> MAX_IPC_PAYLOAD_BYTES" and "queue_ok c"
    and "length (bq_contents (c_output c)) + length (output_frames ps) \<le> MAX_ATTACHMENT_QUEUE_BYTES"
  shows "\<exists>c'. enqueue_chunks ps c = (Inr (), c') \<and>
    length (bq_contents (c_output c')) = length (bq_contents (c_output c)) + length (output_frames ps)"
  using assms
proof (induction ps arbitrary: c)
  case Nil
  then show ?case by (simp add: output_frames_def)
next
  case (Cons p ps)
  have enc: "encode (Output p) = Inr (record_frame (Output p))"
    using Cons.prems by (intro encode_output) simp
  have len: "length (output_frames (p # ps)) = length (record_frame (Output p)) + length (output_frames ps)"
    by (simp add: output_frames_def)
  then have "length (bq_contents (c_output c)) + length (record_frame (Output p)) \<le> q_limit (c_output c)"
    using Cons.prems(2,3) by (simp add: queue_ok_def)
  from bq.push_fits [OF this] obtain q where q: "bq_push (c_output c) (record_frame (Output p)) = (True, q)"
    "bq_contents q = bq_contents (c_output c) @ record_frame (Output p)" "q_limit q = q_limit (c_output c)"
    by blast
  have "queue_ok (c\<lparr>c_output := q\<rparr>)"
    using Cons.prems(2,3) len q by (simp add: queue_ok_def bq_wf_def)
  then obtain c' where "enqueue_chunks ps (c\<lparr>c_output := q\<rparr>) = (Inr (), c')"
    "length (bq_contents (c_output c')) = length (bq_contents q) + length (output_frames ps)"
    using Cons.IH [of "c\<lparr>c_output := q\<rparr>"] Cons.prems len q by auto
  then show ?case using enc q len by simp
qed

lemma enqueue_output_room:
  assumes "queue_ok c"
    and "length (bq_contents (c_output c)) + length xs +
      IPC_HEADER_BYTES * length (chunks MAX_IPC_PAYLOAD_BYTES xs) \<le> MAX_ATTACHMENT_QUEUE_BYTES"
  shows "\<exists>c'. enqueue_output xs c = (Inr (), c') \<and>
    length (bq_contents (c_output c')) = length (bq_contents (c_output c)) + length xs +
      IPC_HEADER_BYTES * length (chunks MAX_IPC_PAYLOAD_BYTES xs)"
proof -
  let ?ps = "chunks MAX_IPC_PAYLOAD_BYTES xs"
  have small: "\<forall>p \<in> set ?ps. length p \<le> MAX_IPC_PAYLOAD_BYTES"
    using chunks_pieces by blast
  have len: "length (output_frames ?ps) = length xs + IPC_HEADER_BYTES * length ?ps"
    by (simp add: length_output_frames limits)
  then have "length (bq_contents (c_output c)) + length (output_frames ?ps) \<le> MAX_ATTACHMENT_QUEUE_BYTES"
    using assms(2) by simp
  from enqueue_chunks_room [OF small assms(1) this] show ?thesis
    unfolding enqueue_output_def len by (simp only: add.assoc)
qed

lemma replay_pieces:
  assumes "length xs \<le> OUTPUT_TAIL_BYTES"
  shows "length (chunks MAX_IPC_PAYLOAD_BYTES xs) \<le> 4"
  using length_chunks [of MAX_IPC_PAYLOAD_BYTES xs] assms by (simp add: limits)

lemma enqueue_replay_result:
  assumes "quiet c" and "tail.stands_for t h" and "tail_wf t" and "t_capacity t = OUTPUT_TAIL_BYTES"
  shows "\<exists>c'. enqueue_replay t c = (Inr (), c') \<and> queue_ok c' \<and> c_decoder c' = c_decoder c \<and>
    carries (replay h) c'"
proof -
  have snap: "tail_snapshot t = last_bytes OUTPUT_TAIL_BYTES h" "tail_is_truncated t \<longleftrightarrow> OUTPUT_TAIL_BYTES < length h"
    using assms(2,4) by (simp_all add: tail.stands_for_def)
  have len: "length (tail_snapshot t) \<le> OUTPUT_TAIL_BYTES"
    using assms(3,4) by (simp add: tail_wf_def tail_snapshot_def)
  have c: "queue_ok c" "bq_contents (c_output c) = []" "carries [] c"
    using assms(1) by (auto simp: quiet_def queued_def carries_def output_frames_def intro!: exI [of _ "[]"])
  let ?m = "if tail_is_truncated t then TRUNCATION_MARKER else []"
  have pieces: "length (chunks MAX_IPC_PAYLOAD_BYTES ?m) \<le> 1"
  proof (cases "tail_is_truncated t")
    case True
    have "TRUNCATION_MARKER \<noteq> []" by (simp add: TRUNCATION_MARKER_def)
    then have "chunks MAX_IPC_PAYLOAD_BYTES TRUNCATION_MARKER = [TRUNCATION_MARKER]"
      using chunks_short [of TRUNCATION_MARKER MAX_IPC_PAYLOAD_BYTES]
      by (simp add: length_TRUNCATION_MARKER limits)
    with True show ?thesis by simp
  qed simp
  have "length ?m \<le> 48" by (simp add: length_TRUNCATION_MARKER)
  then have "length (bq_contents (c_output c)) + length ?m +
      IPC_HEADER_BYTES * length (chunks MAX_IPC_PAYLOAD_BYTES ?m) \<le> 53"
    using pieces c(2) by (simp add: limits)
  then obtain c1 where c1: "enqueue_output ?m c = (Inr (), c1)" "length (bq_contents (c_output c1)) \<le> 53"
    using enqueue_output_room [OF c(1), of ?m] by (auto simp: limits)
  then have ok1: "queue_ok c1" "c_decoder c1 = c_decoder c" "carries ?m c1"
    using enqueue_output_result [OF c1(1) c(1), of "[]"] c(3) by simp_all
  have "length (bq_contents (c_output c1)) + length (tail_snapshot t) +
      IPC_HEADER_BYTES * length (chunks MAX_IPC_PAYLOAD_BYTES (tail_snapshot t)) \<le> MAX_ATTACHMENT_QUEUE_BYTES"
    using c1(2) len replay_pieces [OF len] by (simp add: limits)
  then obtain c2 where c2: "enqueue_output (tail_snapshot t) c1 = (Inr (), c2)"
    using enqueue_output_room [OF ok1(1)] by blast
  have "queue_ok c2" "c_decoder c2 = c_decoder c" "carries (?m @ tail_snapshot t) c2"
    using enqueue_output_result [OF c2 ok1(1), of ?m] ok1(2,3) by simp_all
  moreover have "?m @ tail_snapshot t = replay h" by (simp add: replay_def snap)
  moreover have "enqueue_replay t c = (Inr (), c2)"
    using c1(1) c2 by (cases "tail_is_truncated t")
      (simp_all add: enqueue_replay_def io_simps enqueue_output_def)
  ultimately show ?thesis by simp
qed

section \<open>Reading and writing a connection\<close>

lemma read_once_plan:
  "read_once n rd = (Inr xs, rd') \<Longrightarrow> plan_bytes (read_plan rd) = xs @ plan_bytes (read_plan rd')"
  "read_once n rd = (Inl e, rd') \<Longrightarrow> plan_bytes (read_plan rd') = plan_bytes (read_plan rd)"
  by (auto simp: read_once_def split: list.splits read_response.splits dry.splits if_splits)

text \<open>Reading leaves the output side alone, and the decoder settled unless it reports an error.\<close>

lemma read_records_result:
  assumes "read_records c = (res, c')"
  shows "c_output c' = c_output c \<and> s_out (c_stream c') = s_out (c_stream c) \<and>
    (settled c \<longrightarrow> is_ok res \<longrightarrow> settled c')"
proof -
  have next_none: "decoder_settled d'" if "decode_all d = (Inr rs, d')" for d rs d'
    using that by (rule decode_all_settled)
  then show ?thesis
    using assms
    by (auto simp: read_records_def Let_def settled_def
        split: if_splits prod.splits sum.splits)
qed

lemma read_records_capacity:
  "settled c \<Longrightarrow> min (remaining_capacity (c_decoder c)) IO_CHUNK_BYTES \<noteq> 0"
  using decoder_settled_capacity [of "c_decoder c"] by (simp add: settled_def limits)

lemma flush_connection_result:
  assumes "flush_connection c = (res, c')" and "queue_ok c"
  shows "queue_ok c' \<and> queued c' = queued c \<and> c_decoder c' = c_decoder c"
proof -
  obtain q w where f: "bq_flush (c_output c, s_out (c_stream c)) = (res, (q, w))"
    "c' = c\<lparr>c_output := q, c_stream := (c_stream c)\<lparr>s_out := w\<rparr>\<rparr>"
    using assms(1) by (auto simp: flush_connection_def split: prod.splits)
  then show ?thesis
    using bq_flush_conserves [OF f(1)] bq_flush_wf [OF f(1)] bq_flush_moves [OF f(1)] assms(2)
    by (auto simp: queue_ok_def queued_def)
qed

lemma follows_queued:
  "queue_ok c' \<Longrightarrow> queued c' = queued c \<Longrightarrow> follows h c \<Longrightarrow> follows h c'"
  by (auto simp: follows_def carries_def)

section \<open>The input of the process\<close>

text \<open>What the process has been given or will be given next.\<close>

definition input_given :: "runner \<Rightarrow> byte list" where
  "input_given r = sink (pty_out (rn_master r)) @ bq_contents (rn_input r)"

lemma input_given_fields [simp]:
  "input_given (trace_entry e r) = input_given r"
  "input_given (drop_active r) = input_given r" "input_given (drop_candidate r) = input_given r"
  "input_given (r\<lparr>rn_os := s\<rparr>) = input_given r" "input_given (r\<lparr>rn_now := t\<rparr>) = input_given r"
  "input_given (r\<lparr>rn_child := ch\<rparr>) = input_given r" "input_given (r\<lparr>rn_accepts := a\<rparr>) = input_given r"
  "input_given (r\<lparr>rn_stop := b\<rparr>) = input_given r" "input_given (r\<lparr>rn_active := x\<rparr>) = input_given r"
  "input_given (r\<lparr>rn_candidate := x\<rparr>) = input_given r" "input_given (r\<lparr>rn_closed := cs\<rparr>) = input_given r"
  "input_given (r\<lparr>rn_trace := tr\<rparr>) = input_given r" "input_given (r\<lparr>rn_tail := ta\<rparr>) = input_given r" "input_given (set_pty_reader rd r) = input_given r"
  by (simp_all add: input_given_def set_pty_reader_def)

lemma input_given_trace [simp]:
  "input_given (trace_event ev r) = input_given r" "input_given (trace_io_error ev err r) = input_given r"
  "input_given (trace_process_exit ex r) = input_given r"
  using trace_is_entry(1) [of ev] trace_is_entry(2) [of ev err] trace_is_entry(3) [of ex] by auto

lemma input_given_deliver [simp]: "input_given (deliver bytes r) = input_given r"
  by (simp add: deliver_def Let_def split: option.splits prod.splits sum.splits)

section \<open>The end\<close>

text \<open>What a client is sent in all when the session ends: the exit record is the last of it.\<close>

lemma farewell_sends:
  assumes "queue_ok c"
  shows "prefix (sink (s_out (c_stream (farewell exit c)))) (queued c @ record_frame (Exit exit))"
proof -
  obtain q1 c1 where f1: "flush_connection c = (q1, c1)" by fastforce
  have c1: "queued c1 = queued c" "queue_ok c1" using flush_connection_result [OF f1] assms by auto
  then have pre: "prefix (sink (s_out (c_stream c1))) (queued c @ record_frame (Exit exit))"
    by (metis append_assoc prefixI queued_def)
  show ?thesis
  proof (cases "is_ok q1 \<and> is_ok (encode (Exit exit)) \<and> fst (bq_push (c_output c1) (record_frame (Exit exit)))")
    case False
    then have "farewell exit c = c1"
      using f1 by (auto simp: farewell_def encode_frame split: sum.splits prod.splits bool.splits if_splits)
    with pre show ?thesis by simp
  next
    case True
    obtain o1 where p: "bq_push (c_output c1) (record_frame (Exit exit)) = (True, o1)"
      using True by (metis prod.collapse)
    have e: "encode (Exit exit) = Inr (record_frame (Exit exit))" using True by (auto simp: encode_frame split: if_splits)
    let ?c2 = "c1\<lparr>c_output := o1\<rparr>"
    obtain q3 c3 where f3: "flush_connection ?c2 = (q3, c3)" by fastforce
    have "queued ?c2 = queued c1 @ record_frame (Exit exit)"
      using p by (auto simp: queued_def bq_push_eq bq_contents_push split: if_splits)
    moreover have "queue_ok ?c2" using c1(2) bq.push_True [OF p] by (auto simp: queue_ok_def bq_wf_def)
    then have "queued c3 = queued ?c2" using flush_connection_result [OF f3] by auto
    ultimately have "queued c3 = queued c @ record_frame (Exit exit)" using c1 by simp
    moreover have "farewell exit c = c3"
      using True f1 e p f3 by (cases q1) (simp_all add: farewell_def)
    ultimately show ?thesis by (metis prefixI queued_def)
  qed
qed

end
