(* ===== verification/Runner_Steps.thy ===== *)
theory Runner_Steps
  imports Runner_Facts Registry_Laws
begin

text \<open>
  The contract of a relation between the states of the event loop: it holds across each of the
  steps a tick is made of.  Then it holds across a tick and across a run of the loop.  A second,
  weaker relation may hold where a step has failed and the loop is about to be left.  The
  invariants of the loop and its refinement are such relations.
\<close>

section \<open>The user of a runner never changes\<close>

lemma touches_uid:
  assumes "touches UNIV m" and "m s = (res, t)"
  shows "os_uid t = os_uid s"
  using touchesD [OF assms] by (simp add: changes_only_def same_process_fields)

lemma trace_entry_uid [simp]: "os_uid (rn_os (trace_entry e r)) = os_uid (rn_os r)"
proof (cases "rn_trace r")
  case (Some t)
  obtain t' s' where t: "trace_record e t (rn_os r) = (t', s')" by fastforce
  then have "os_uid s' = os_uid (rn_os r)"
    using trace_record_keeps [OF t] by (simp add: changes_only_def same_process_fields)
  with Some t show ?thesis by (simp add: trace_entry_def)
qed (simp add: trace_entry_def)

lemma touches_all_writes:
  "touches UNIV (write_metadata js paths m)" "touches UNIV (write_output paths xs)"
  "touches UNIV (remove_live_files paths)" "touches UNIV (drop_session_files paths)"
proof -
  have "touches UNIV (atomic_write p xs)" for p xs by (intro touches_atomic_write) simp_all
  then show "touches UNIV (write_metadata js paths m)" "touches UNIV (write_output paths xs)"
    by (auto simp: write_metadata_def write_output_def intro!: touching split: option.splits)
  show "touches UNIV (remove_live_files paths)" "touches UNIV (drop_session_files paths)"
    using touches_remove_live_files touches_drop_session_files by (blast intro: touches_mono)+
qed

lemma on_os_result:
  assumes "touches UNIV m" and "on_os m r = (res, r')"
  shows "\<exists>s. r' = r\<lparr>rn_os := s\<rparr> \<and> os_uid s = os_uid (rn_os r)"
  using on_os_fields [OF assms(2)] touches_uid [OF assms(1)] by blast

lemma trace_entry_result:
  "\<exists>t s. trace_entry e r = r\<lparr>rn_trace := t, rn_os := s\<rparr> \<and> os_uid s = os_uid (rn_os r)"
proof -
  have "trace_entry e r = r\<lparr>rn_trace := rn_trace (trace_entry e r), rn_os := rn_os (trace_entry e r)\<rparr>"
    by (simp add: trace_entry_def split: option.splits prod.splits)
  then show ?thesis using trace_entry_uid by metis
qed

section \<open>Ticks\<close>

lemma io_try_inv:
  assumes "io_try m f s = (res, s')" and "P s"
    and "\<And>q s1. m s = (q, s1) \<Longrightarrow> P s \<Longrightarrow> P s1" and "\<And>x q s1 s2. f x s1 = (q, s2) \<Longrightarrow> P s1 \<Longrightarrow> P s2"
  shows "P s'"
proof -
  obtain q s1 where m: "m s = (q, s1)" by fastforce
  then have "P s1" using assms(2,3) by blast
  with assms(1,4) m show ?thesis by (cases q) (auto simp: io_simps)
qed

text \<open>What a tick that continues has done.\<close>

lemma runner_tick_Again:
  assumes "runner_tick js answer r = (Again, r')"
  obtains r1 r2 where "drain_step js r = (Inr (), r1)" "runner_try_wait r1 = (Inr None, r2)"
    "r' = r2\<lparr>rn_now := rn_now r2 + pa_elapsed answer, rn_os := (rn_os r2)\<lparr>clock := pa_clock answer\<rparr>\<rparr>"
  | r1 r2 master listener cand active where "drain_step js r = (Inr (), r1)" "runner_try_wait r1 = (Inr None, r2)"
    "events_step js master listener cand active
       (r2\<lparr>rn_now := rn_now r2 + pa_elapsed answer, rn_os := (rn_os r2)\<lparr>clock := pa_clock answer\<rparr>\<rparr>) = (Inr (), r')"
    "\<not> rn_stop r'"
proof -
  obtain q r1 where d: "drain_step js r = (q, r1)" by fastforce
  then obtain u where q: "q = Inr u"
    using assms by (cases q) (simp_all add: runner_tick_def fails_def)
  obtain w r2 where t: "runner_try_wait r1 = (w, r2)" by fastforce
  then have w: "w = Inr None"
    using assms d q
    by (cases w) (auto simp: runner_tick_def fails_def child_exited_def completes_def split: option.splits prod.splits sum.splits)
  let ?r = "r2\<lparr>rn_now := rn_now r2 + pa_elapsed answer, rn_os := (rn_os r2)\<lparr>clock := pa_clock answer\<rparr>\<rparr>"
  show thesis
  proof (cases "pa_result answer")
    case (Inl code)
    with assms d q t w have "r' = ?r" by (simp add: runner_tick_def fails_def Let_def split: if_splits)
    then show thesis using that(1) d q t w by simp
  next
    case (Inr flags)
    obtain m l c ac where f: "flags = (m, l, c, ac)" by (metis surj_pair)
    obtain z r3 where e: "events_step js m l c ac ?r = (z, r3)" by fastforce
    with assms d q t w Inr f obtain v where z: "z = Inr v" and stop: "\<not> rn_stop r3" "r' = r3"
      by (cases z) (auto simp: runner_tick_def fails_def Let_def runner_stop_def completes_def split: if_splits option.splits prod.splits sum.splits)
    then show thesis using that(2) d q t w e by simp
  qed
qed

section \<open>The contract\<close>

locale runner_relation =
  fixes R Q :: "runner \<Rightarrow> runner \<Rightarrow> bool"
  assumes refl: "R r r"
    and trans: "R r r1 \<Longrightarrow> R r1 r2 \<Longrightarrow> R r r2"
    and system: "os_uid s = os_uid (rn_os r) \<Longrightarrow> R r (r\<lparr>rn_trace := t, rn_os := s\<rparr>)"
    and waits: "R r (r\<lparr>rn_child := ch, rn_now := now\<rparr>)"
    and close_active: "R r (drop_active r)"
    and close_candidate: "R r (drop_candidate r)"
    and nothing_read: "read_once IO_CHUNK_BYTES (pty_in (rn_master r)) = (q, rd) \<Longrightarrow>
      \<not> is_ok q \<or> q = Inr [] \<Longrightarrow> R r (set_pty_reader rd r)"
    and something_read: "read_once IO_CHUNK_BYTES (pty_in (rn_master r)) = (Inr bytes, rd) \<Longrightarrow>
      R r (deliver bytes (set_pty_reader rd r))"
    and write_input: "R r (flush_input r)"
    and write_active: "R r (flush_active r)"
    and serve: "serve_active r = (Inr u, r') \<Longrightarrow> R r r'"
    and serve_fails: "serve_active r = (Inl e, r') \<Longrightarrow> Q r r'"
    and accept: "accept_candidate r = (res, r') \<Longrightarrow> R r r'"
    and candidate: "candidate_step js r = (res, r') \<Longrightarrow> R r r'"
    and failed: "R r r' \<Longrightarrow> Q r r'"
    and after: "R r r1 \<Longrightarrow> Q r1 r2 \<Longrightarrow> Q r r2"
    and leave: "Q r r1 \<Longrightarrow> Q r (drop_candidate (drop_active (drop_files r1)))"
begin

text \<open>What a step that may fail comes to.\<close>

definition via :: "'b io_result \<Rightarrow> runner \<Rightarrow> runner \<Rightarrow> bool" where
  "via res r r' = (if is_ok res then R r r' else Q r r')"

lemma via_R: "R r r' \<Longrightarrow> via res r r'"
  by (simp add: via_def failed)

lemma via_after: "R r r1 \<Longrightarrow> via res r1 r2 \<Longrightarrow> via res r r2"
  by (auto simp: via_def intro: trans after split: if_splits)

lemma set_system: "os_uid s = os_uid (rn_os r) \<Longrightarrow> R r (r\<lparr>rn_os := s\<rparr>)"
  using system [of s r "rn_trace r"] by simp

lemma entry: "R r (trace_entry e r)"
  using trace_entry_result [of e r] system by metis

lemma tracing: "R r (trace_event ev r)" "R r (trace_io_error ev err r)" "R r (trace_process_exit ex r)"
  using trace_is_entry(1) [of ev] trace_is_entry(2) [of ev err] trace_is_entry(3) [of ex] entry by metis+

lemma after_trace: "R r r1 \<Longrightarrow> R r (trace_event ev r1)" "R r r1 \<Longrightarrow> R r (trace_io_error ev err r1)"
  using trans tracing by blast+

lemma on_system: "touches UNIV m \<Longrightarrow> on_os m r = (res, r') \<Longrightarrow> R r r'"
  using on_os_result set_system by metis

lemma write_record: "write_attached js b r = (res, r') \<Longrightarrow> R r r'"
  unfolding write_attached_def by (rule on_system [OF touches_all_writes(1)])

lemma lose_files: "R r (drop_files r)"
  unfolding drop_files_def by (rule on_system [OF touches_all_writes(4)]) (rule prod.collapse [symmetric])

lemma drain: "drain_loop n r = (res, r') \<Longrightarrow> R r r'"
proof (induction n r arbitrary: res r' rule: drain_loop.induct)
  case (1 n r)
  obtain q rd where rd: "read_once IO_CHUNK_BYTES (pty_in (rn_master r)) = (q, rd)" by fastforce
  let ?r = "set_pty_reader rd r"
  show ?case
  proof (cases "n < MAX_PTY_BYTES_PER_TICK")
    case False
    with "1.prems" show ?thesis by (simp add: drain_loop.simps [of n r] refl)
  next
    case busy: True
    show ?thesis
    proof (cases q)
      case (Inl e)
      then have same: "R r ?r" using nothing_read [OF rd] by simp
      show ?thesis
      proof (cases "err_kind e = WouldBlock \<or> raw_os_error e = Some EIO \<or> err_kind e \<noteq> Interrupted")
        case True
        with "1.prems" busy rd Inl same show ?thesis
          by (auto simp: drain_loop.simps [of n r] intro: after_trace split: if_splits)
      next
        case False
        with "1.prems" busy rd Inl have "drain_loop n ?r = (res, r')"
          by (simp add: drain_loop.simps [of n r])
        with "1.IH"(1) [OF busy rd [symmetric] Inl] False have "R ?r r'" by simp
        with same show ?thesis by (rule trans)
      qed
    next
      case (Inr bytes)
      show ?thesis
      proof (cases "bytes = []")
        case True
        then have "R r ?r" using nothing_read [OF rd] Inr by simp
        with "1.prems" busy rd Inr True show ?thesis by (auto simp: drain_loop.simps [of n r] intro: after_trace)
      next
        case False
        with "1.prems" busy rd Inr have "drain_loop (n + length bytes) (deliver bytes ?r) = (res, r')"
          by (simp add: drain_loop.simps [of n r])
        with "1.IH"(2) [OF busy rd [symmetric] Inr False] have "R (deliver bytes ?r) r'" by simp
        with something_read [OF rd [unfolded Inr]] show ?thesis by (rule trans)
      qed
    qed
  qed
qed

lemma drain_whole: "drain_pty r = (res, r') \<Longrightarrow> R r r'"
  unfolding drain_pty_def by (rule drain)

lemma drain_first: "drain_step js r = (res, r') \<Longrightarrow> R r r'"
  by (auto simp: drain_step_def io_simps split: prod.splits sum.splits if_splits
      intro: drain_whole trans [OF drain_whole trans [OF tracing(1) write_record]])

lemma optional:
  assumes "(if b then m else io_ok ()) r = (q, r')" and "m r = (q, r') \<Longrightarrow> via q r r'"
  shows "via q r r'"
  using assms by (cases b) (auto simp: io_simps refl via_R)

lemma sequence:
  assumes "io_try m f r = (res, r')" and "\<And>q r1. m r = (q, r1) \<Longrightarrow> via q r r1"
    and "\<And>x q r1 r2. f x r1 = (q, r2) \<Longrightarrow> via q r1 r2"
  shows "via res r r'"
proof -
  obtain q r1 where m: "m r = (q, r1)" by fastforce
  show ?thesis
  proof (cases q)
    case (Inl e)
    with assms(1,2) m show ?thesis by (auto simp: io_try_apply via_def)
  next
    case (Inr x)
    then have "f x r1 = (res, r')" using assms(1) m by (simp add: io_try_apply)
    moreover have "R r r1" using assms(2) [OF m] Inr by (simp add: via_def)
    ultimately show ?thesis using assms(3) via_after by blast
  qed
qed

lemma serve_via: "serve_active r = (res, r') \<Longrightarrow> via res r r'"
  by (cases res) (auto simp: via_def intro: serve serve_fails)

lemma active:
  assumes "active_step js event r = (res, r')"
  shows "via res r r'"
proof -
  let ?r1 = "if pf_hup event then trace_event ''attachment_poll_hangup'' r else r"
  let ?r2 = "if pf_err event then trace_event ''attachment_poll_error'' ?r1 else ?r1"
  let ?r3 = "if pf_out event then flush_active ?r2 else ?r2"
  have "R r ?r1" by (simp add: tracing refl)
  then have "R r ?r2" by (simp add: after_trace)
  moreover have "R ?r2 ?r3" by (simp only: write_active refl split: if_split) simp
  ultimately have 3: "R r ?r3" by (rule trans)
  have "via res ?r3 r'"
    using assms unfolding active_step_def Let_def
  proof (rule sequence)
    show "via q s s'" if "(if rn_active ?r3 \<noteq> None \<and> readable event then serve_active else io_ok ()) s = (q, s')" for q s s'
      using that by (rule optional) (rule serve_via)
    show "via q s s'" if "(if rn_active s = None then write_attached js False s else (Inr (), s)) = (q, s')" for q s s'
      using that by (auto intro: via_R write_record refl split: if_splits)
  qed
  with 3 show ?thesis by (rule via_after)
qed

lemma events:
  assumes "events_step js master listener cand act r = (res, r')"
  shows "via res r r'"
proof -
  obtain b1 b2 b3 b4 ev where e: "io_try (if b1 then active_step js ev else io_ok ()) (\<lambda>_.
      io_try (if b2 then accept_candidate else io_ok ()) (\<lambda>_. if b3 then candidate_step js else io_ok ()))
      (if b4 then flush_input r else r) = (res, r')"
    using assms unfolding events_step_def Let_def by blast
  have "R r (if b4 then flush_input r else r)" by (simp add: write_input refl)
  moreover have "via res (if b4 then flush_input r else r) r'"
  proof (rule sequence [OF e])
    show "via q s s'" if "(if b1 then active_step js ev else io_ok ()) s = (q, s')" for s q s'
      using that by (rule optional) (rule active)
    show "via q s s'"
      if t: "io_try (if b2 then accept_candidate else io_ok ()) (\<lambda>_. if b3 then candidate_step js else io_ok ()) s = (q, s')"
      for s q s'
    proof (rule sequence [OF t])
      show "via q u u'" if "(if b2 then accept_candidate else io_ok ()) u = (q, u')" for u q u'
        using that by (rule optional) (rule via_R [OF accept])
      show "via q u u'" if "(if b3 then candidate_step js else io_ok ()) u = (q, u')" for u q u'
        using that by (rule optional) (rule via_R [OF candidate])
    qed
  qed
  ultimately show ?thesis by (rule via_after)
qed

lemma wait: "runner_try_wait r = (res, r') \<Longrightarrow> R r r'"
  by (auto simp: runner_try_wait_def waits split: prod.splits)

lemma poll: "R r (r\<lparr>rn_now := n, rn_os := (rn_os r)\<lparr>clock := t\<rparr>\<rparr>)"
proof -
  have "R r (r\<lparr>rn_now := n\<rparr>)" using waits [of r n "rn_child r"] by simp
  moreover have "R (r\<lparr>rn_now := n\<rparr>) (r\<lparr>rn_now := n, rn_os := (rn_os r)\<lparr>clock := t\<rparr>\<rparr>)"
    by (rule set_system) simp
  ultimately show ?thesis by (rule trans)
qed

lemma tick_again:
  assumes "runner_tick js answer r = (Again, r')"
  shows "R r r'"
  using assms
proof (cases rule: runner_tick_Again)
  case (1 r1 r2)
  with trans [OF trans [OF drain_first [OF 1(1)] wait [OF 1(2)]] poll] show ?thesis by simp
next
  case (2 r1 r2 master listener cand active)
  have "via (Inr ()) r r'"
    by (rule via_after [OF trans [OF trans [OF drain_first [OF 2(1)] wait [OF 2(2)]] poll] events [OF 2(3)]])
  then show ?thesis by (simp add: via_def)
qed

section \<open>Ends of the loop\<close>

text \<open>
  The loop can also come out of a tick: with an error, or for ever, in a state related weakly,
  or well, after the farewell to the last client.
\<close>

definition comes_out :: "outcome \<Rightarrow> runner \<Rightarrow> runner \<Rightarrow> bool" where
  "comes_out out r r' \<longleftrightarrow>
     (if out = Returns (Inr ())
      then \<exists>r1 exit. R r r1 \<and>
        r' = drop_candidate (drop_active (r1\<lparr>rn_active := map_option (farewell exit) (rn_active r1)\<rparr>))
      else if out = Again then R r r' else Q r r')"

lemma comes_out_after: "R r r1 \<Longrightarrow> comes_out out r1 r' \<Longrightarrow> comes_out out r r'"
  unfolding comes_out_def using trans after by (auto split: if_splits)

lemma again_out: "R r r' \<Longrightarrow> comes_out Again r r'"
  by (simp add: comes_out_def)

lemma fails_out: "Q r r1 \<Longrightarrow> fails e r1 = (out, r') \<Longrightarrow> comes_out out r r'"
  using leave by (auto simp: fails_def comes_out_def)

lemma fails_out_R: "R r r1 \<Longrightarrow> fails e r1 = (out, r') \<Longrightarrow> comes_out out r r'"
  by (blast intro: fails_out failed)

lemma completes_out:
  assumes "completes js status r = (out, r')"
  shows "comes_out out r r'"
proof -
  let ?exit = "process_exit_of status"
  let ?r = "trace_process_exit ?exit r"
  obtain res r1 where c: "record_completion js ?exit ?r = (res, r1)" by fastforce
  have "R ?r r1"
    by (rule on_system [OF _ c [unfolded record_completion_def Let_def]]) (intro touching touches_all_writes)
  with tracing(3) have "R r r1" by (rule trans)
  then have 1: "R r (drop_files r1)" using lose_files by (rule trans)
  show ?thesis
  proof (cases res)
    case (Inl e)
    then have "out = Returns (Inl e)" "r' = drop_candidate (drop_active (drop_files r1))"
      using assms c by (simp_all add: completes_def complete_session_def)
    then show ?thesis using failed [OF trans [OF trans [OF 1 close_active] close_candidate]] by (simp add: comes_out_def)
  next
    case (Inr u)
    have "rn_active (drop_files r1) = rn_active r1"
      using on_os_fields [OF prod.collapse [symmetric], of "drop_session_files (rn_paths r1)" r1]
      unfolding drop_files_def by auto
    then have "out = Returns (Inr ())"
      "r' = drop_candidate (drop_active ((drop_files r1)\<lparr>rn_active := map_option (farewell ?exit) (rn_active (drop_files r1))\<rparr>))"
      using assms c Inr by (simp_all add: completes_def complete_session_def)
    then show ?thesis using 1 unfolding comes_out_def by auto
  qed
qed

lemma stop_out:
  assumes "runner_stop js r = (out, r')"
  shows "comes_out out r r'"
proof (cases "stop_child (rn_child r, rn_now r)")
  case None
  with assms show ?thesis by (auto simp: runner_stop_def comes_out_def refl failed)
next
  case (Some x)
  then obtain res c now where x: "stop_child (rn_child r, rn_now r) = Some (res, (c, now))" by (metis surj_pair)
  let ?r = "r\<lparr>rn_child := c, rn_now := now\<rparr>"
  from assms x have "(case res of Inl e \<Rightarrow> fails e ?r | Inr status \<Rightarrow> completes js status ?r) = (out, r')"
    by (simp add: runner_stop_def Let_def)
  then have "comes_out out ?r r'" using fails_out_R [OF refl] completes_out by (auto split: sum.splits)
  with waits show ?thesis by (rule comes_out_after)
qed

lemma child_exited_out:
  assumes "child_exited js status r = (out, r')"
  shows "comes_out out r r'"
proof -
  obtain q r1 where d: "drain_pty (trace_event ''child_exited'' r) = (q, r1)" by fastforce
  have 1: "R r r1" using tracing(1) drain_whole [OF d] by (rule trans)
  from assms d have "(case q of Inl e \<Rightarrow> fails e r1 | Inr _ \<Rightarrow> completes js status r1) = (out, r')"
    by (simp add: child_exited_def)
  then have "comes_out out r1 r'" using fails_out_R [OF refl] completes_out by (auto split: sum.splits)
  with 1 show ?thesis by (rule comes_out_after)
qed

lemma tick_out:
  assumes "runner_tick js answer r = (out, r')"
  shows "comes_out out r r'"
proof -
  obtain q r1 where d: "drain_step js r = (q, r1)" by fastforce
  obtain w r2 where t: "runner_try_wait r1 = (w, r2)" by fastforce
  let ?r = "r2\<lparr>rn_now := rn_now r2 + pa_elapsed answer, rn_os := (rn_os r2)\<lparr>clock := pa_clock answer\<rparr>\<rparr>"
  note 1 = drain_first [OF d]
  have 2: "R r r2" using 1 wait [OF t] by (rule trans)
  have 3: "R r ?r" using 2 poll by (rule trans)
  consider e where "q = Inl e" | u e where "q = Inr u" "w = Inl e" | u status where "q = Inr u" "w = Inr (Some status)"
    | u code where "q = Inr u" "w = Inr None" "pa_result answer = Inl code"
    | u m l c ac where "q = Inr u" "w = Inr None" "pa_result answer = Inr (m, l, c, ac)"
    by (metis not_None_eq sum.exhaust surj_pair)
  then show ?thesis
  proof cases
    case (1 e)
    with assms d have "fails e r1 = (out, r')" by (simp add: runner_tick_def)
    with drain_first [OF d] show ?thesis by (rule fails_out_R)
  next
    case (2 u e)
    with assms d t have "fails e r2 = (out, r')" by (simp add: runner_tick_def)
    with \<open>R r r2\<close> show ?thesis by (rule fails_out_R)
  next
    case (3 u status)
    with assms d t have "child_exited js status r2 = (out, r')" by (simp add: runner_tick_def)
    with \<open>R r r2\<close> show ?thesis by (blast intro: comes_out_after child_exited_out)
  next
    case (4 u code)
    let ?e = "io_error_from_errno code"
    from assms d t 4 have "(if code = EINTR then (Again, ?r)
        else fails ?e (trace_io_error ''runner_poll_failed'' ?e ?r)) = (out, r')"
      by (simp add: runner_tick_def Let_def)
    then consider "out = Again" "r' = ?r" | "fails ?e (trace_io_error ''runner_poll_failed'' ?e ?r) = (out, r')"
      by (metis prod.inject)
    then show ?thesis
    proof cases
      case 1
      with again_out [OF \<open>R r ?r\<close>] show ?thesis by simp
    next
      case 2
      from fails_out_R [OF after_trace(2) [OF \<open>R r ?r\<close>] 2] show ?thesis .
    qed
  next
    case (5 u m l c ac)
    obtain z r3 where e: "events_step js m l c ac ?r = (z, r3)" by fastforce
    have 6: "via z r r3" using \<open>R r ?r\<close> events [OF e] by (rule via_after)
    from assms d t 5 e have go: "(case z of Inl e \<Rightarrow> fails e r3
        | Inr _ \<Rightarrow> if rn_stop r3 then runner_stop js r3 else (Again, r3)) = (out, r')"
      by (simp add: runner_tick_def Let_def)
    show ?thesis
    proof (cases z)
      case (Inl e)
      then have "Q r r3" "fails e r3 = (out, r')" using go 6 by (simp_all add: via_def)
      then show ?thesis by (rule fails_out)
    next
      case (Inr v)
      then have 7: "R r r3" using 6 by (simp add: via_def)
      show ?thesis
      proof (cases "rn_stop r3")
        case True
        with go Inr have "runner_stop js r3 = (out, r')" by simp
        from comes_out_after [OF 7 stop_out [OF this]] show ?thesis .
      next
        case False
        with go Inr have "out = Again" "r' = r3" by simp_all
        with again_out [OF 7] show ?thesis by simp
      qed
    qed
  qed
qed

lemma loop_out: "run_event_loop js answers r = (out, r') \<Longrightarrow> comes_out out r r'"
proof (induction answers arbitrary: r)
  case Nil
  then show ?case by (auto simp: comes_out_def refl)
next
  case (Cons answer answers)
  obtain q r1 where t: "runner_tick js answer r = (q, r1)" by fastforce
  show ?case
  proof (cases "q = Again")
    case True
    with Cons.prems t have "run_event_loop js answers r1 = (out, r')" by simp
    with Cons.IH tick_again True t show ?thesis using comes_out_after by blast
  next
    case False
    with Cons.prems t have "q = out" "r1 = r'" by (cases q; simp)+
    with tick_out [OF t] show ?thesis by simp
  qed
qed

end

end
