(* ===== verification/Registry_Sessions.thy ===== *)
theory Registry_Sessions
  imports Registry_Store
begin

text \<open>
  The operations of the registry on whole sessions: binding a session's socket and lock,
  cleaning up expired records, listing sessions and opening the runtime directory.
\<close>

section \<open>Binding a session\<close>

lemma make_room_reachable:
  assumes "connect reg s os = (Inr st, os')" and "make_room js reg s (paths_of reg s) os = (r, t)"
  shows "(\<exists>e. r = Inl e) \<and> t = os \<or>
    changes_only {p_output (paths_of reg s), p_trace (paths_of reg s), p_metadata (paths_of reg s)} os t"
proof -
  let ?ps = "paths_of reg s"
  have t: "touches {p_output ?ps, p_trace ?ps, p_metadata ?ps} (remove_completed ?ps)"
    by (intro touching) simp_all
  have os': "os' = os" and lstat: "faults os Sys_lstat (p_socket ?ps) = None"
    and sock: "\<exists>e. look os (p_socket ?ps) = Some e"
    using connect_Inr [OF assms(1)] by auto
  obtain r1 s1 where m: "read_metadata js reg s os = (r1, s1)" by fastforce
  have s1: "s1 = os" by (rule readsD [OF reads_sessions(2) m])
  obtain r2 s2 where n: "now_seconds os = (r2, s2)" by fastforce
  have s2: "s2 = os" by (rule readsD [OF reads_now_seconds n])
  have exists: "path_entry_exists (p_socket ?ps) os = (Inr True, os)"
    using lstat sock by (auto simp: path_entry_exists_def io_simps fs_lstat_def syscall_def)
  show ?thesis
  proof (cases r1)
    case (Inl e)
    with assms(2) m s1 show ?thesis by (simp add: make_room_def io_simps Let_def)
  next
    case (Inr found)
    show ?thesis
    proof (cases found)
      case None
      with Inr assms m s1 os' exists show ?thesis
        by (simp add: make_room_def io_simps Let_def)
    next
      case (Some md)
      show ?thesis
      proof (cases r2)
        case (Inl e)
        with Some Inr assms(2) m s1 n s2 show ?thesis by (simp add: make_room_def io_simps Let_def)
      next
        case (Inr now)
        show ?thesis
        proof (cases "is_expired md now")
          case True
          with Inr Some \<open>r1 = Inr found\<close> assms(2) m s1 n s2
          have "remove_completed ?ps os = (r, t)" by (simp add: make_room_def io_simps Let_def)
          with t show ?thesis by (blast dest: touchesD)
        next
          case False
          with Inr Some \<open>r1 = Inr found\<close> assms m s1 n s2 os' show ?thesis
            by (cases md) (simp_all add: make_room_def io_simps Let_def)
        qed
      qed
    qed
  qed
qed

lemma bind_listener_taken:
  assumes "look os (p_socket ps) \<noteq> None"
  shows "\<exists>e. bind_listener ps os = (Inl e, os)"
  using assms by (auto simp: bind_listener_def io_simps fs_bind_def syscall_def Let_def split: option.splits)

lemma paths_of_distinct:
  "distinct [p_socket (paths_of reg s), p_metadata (paths_of reg s), p_lock (paths_of reg s),
     p_output (paths_of reg s), p_trace (paths_of reg s)]"
  by (simp add: paths_of_session_path bs_def)

lemma bind_reachable:
  assumes "connect reg s os = (Inr st, os')" and "bind_session js reg s os = (r, t)"
  shows "(\<exists>e. r = Inl e) \<and>
    changes_only {p_output (paths_of reg s), p_trace (paths_of reg s), p_metadata (paths_of reg s)} os t"
proof -
  let ?ps = "paths_of reg s"
  obtain r1 s1 where m: "make_room js reg s ?ps os = (r1, s1)" by fastforce
  have ch: "changes_only {p_output ?ps, p_trace ?ps, p_metadata ?ps} os s1"
    using make_room_reachable [OF assms(1) m] by auto
  have "look s1 (p_socket ?ps) = look os (p_socket ?ps)"
    using ch paths_of_distinct [of reg s] by (auto dest: changes_only_look)
  then obtain e where "bind_listener ?ps s1 = (Inl e, s1)"
    using bind_listener_taken [of s1 ?ps] connect_Inr [OF assms(1)] by auto
  with assms(2) m ch show ?thesis
    by (cases r1; cases "UNIX_SOCKET_PATH_BYTES < length (p_socket ?ps)")
      (auto simp: bind_session_def registry_paths_def io_simps)
qed

text \<open>What a successful binding has set up.\<close>

definition bound_socket :: "os \<Rightarrow> entry" where
  "bound_socket s = (new_entry (Socket (own_listener s)) 511 s)\<lparr>e_mode := 384\<rparr>"

lemma bind_listener_Inr:
  assumes "bind_listener ps os = (Inr u, t)"
  shows "look os (p_socket ps) = None \<and>
    t = set_entry (p_lock ps) (own_file os []) (set_entry (p_socket ps) (bound_socket os)
      (set_entry (p_socket ps) (new_entry (Socket (own_listener os)) 511 os) os))"
proof -
  from assms obtain u1 s1 u2 s2 u3 s3 u4 where steps:
    "fs_bind (p_socket ps) os = (Inr u1, s1)" "fs_chmod (p_socket ps) 384 s1 = (Inr u2, s2)"
    "fs_set_nonblocking (p_socket ps) s2 = (Inr u3, s3)" "fs_create_new (p_lock ps) 384 s3 = (Inr u4, t)"
    by (auto simp: bind_listener_def io_simps Let_def split: prod.splits sum.splits if_splits)
  have s3: "s3 = s2" by (rule readsD [OF reads_calls(7) steps(3)])
  have s1: "look os (p_socket ps) = None"
    "s1 = set_entry (p_socket ps) (new_entry (Socket (own_listener os)) 511 os) os"
    using fs_bind_Inr [OF steps(1)] by auto
  obtain e where e: "look s1 (p_socket ps) = Some e" "s2 = set_entry (p_socket ps) (e\<lparr>e_mode := 384\<rparr>) s1"
    using fs_chmod_Inr [OF steps(2)] by blast
  have s2: "s2 = set_entry (p_socket ps) (bound_socket os) s1"
    using e s1(2) by (simp add: bound_socket_def)
  have p: "same_process os s2"
    unfolding s2 s1(2) by (rule same_process_trans [OF same_process_set same_process_set])
  have "t = set_entry (p_lock ps) (new_entry (Regular []) 384 s2) s2"
    using fs_create_new_Inr [OF steps(4)] s3 by simp
  also have "new_entry (Regular []) 384 s2 = own_file os []"
    using own_file_process [OF p] by (simp add: own_file_def)
  finally show ?thesis using s1 s2 by simp
qed

lemma touches_make_room:
  "touches (session_files (paths_of reg s)) (make_room js reg s (paths_of reg s))"
proof -
  let ?P = "session_files (paths_of reg s)"
  have "touches ?P (remove_stale_live reg (paths_of reg s))"
    "touches ?P (remove_completed (paths_of reg s))"
    by (auto intro!: touching simp: session_files_def)
  then show ?thesis
    unfolding make_room_def Let_def
    by (intro touching; simp split: option.splits session_metadata.splits add: touching; intro impI conjI allI touching)
qed

lemma io_try_unit_Inr:
  assumes "io_try m f s = (Inr b, t)"
  obtains a s1 where "m s = (Inr a, s1)" "f a s1 = (Inr b, t)"
  using assms by (cases "m s") (auto simp: io_simps split: sum.splits)

lemma remove_completed_Inr:
  assumes "remove_completed ps s = (Inr u, t)" and "no_faults s"
  shows "look t (p_metadata ps) = None"
proof -
  from assms(1) obtain u1 s1 u2 s2 where steps:
    "remove_if_present (p_output ps) s = (Inr u1, s1)" "remove_if_present (p_trace ps) s1 = (Inr u2, s2)"
    "remove_if_present (p_metadata ps) s2 = (Inr u, t)"
    unfolding remove_completed_def by (blast elim: io_try_unit_Inr)
  have "no_faults s2"
    using assms(2) touches_no_faults [OF touches_remove_if_present [of _ UNIV] steps(1)]
      touches_no_faults [OF touches_remove_if_present [of _ UNIV] steps(2)] by simp
  then show ?thesis using remove_if_present_Inr [OF steps(3)] by simp
qed

lemma remove_stale_live_Inr:
  assumes "remove_stale_live reg ps s = (Inr u, t)" and "no_faults s"
  shows "look t (p_metadata ps) = None"
proof -
  from assms(1) obtain u1 s1 u2 s2 u3 s3 where steps:
    "remove_owned_entry_if_present (p_socket ps) (uid reg) Socket_path 384 s = (Inr u1, s1)"
    "remove_owned_entry_if_present (p_lock ps) (uid reg) Regular_path 384 s1 = (Inr u2, s2)"
    "remove_owned_entry_if_present (p_trace ps) (uid reg) Regular_path 384 s2 = (Inr u3, s3)"
    "remove_owned_entry_if_present (p_metadata ps) (uid reg) Regular_path 384 s3 = (Inr u, t)"
    unfolding remove_stale_live_def by (blast elim: io_try_unit_Inr)
  have "no_faults s3"
    using assms(2) touches_no_faults [OF touches_remove_owned [of _ UNIV] steps(1)]
      touches_no_faults [OF touches_remove_owned [of _ UNIV] steps(2)]
      touches_no_faults [OF touches_remove_owned [of _ UNIV] steps(3)] by simp
  then show ?thesis using remove_owned_Inr [OF steps(4)] by simp
qed

text \<open>The ways room is made: nothing was there, an expired record or a stale session was removed.\<close>

lemma make_room_Inr:
  assumes "make_room js reg s ps os = (Inr u, t)"
  obtains "t = os" "read_metadata js reg s os = (Inr None, os)"
  | md now where "read_metadata js reg s os = (Inr (Some md), os)" "now_seconds os = (Inr now, os)"
      "is_expired md now" "remove_completed ps os = (Inr u, t)"
  | e where "connect reg s os = (Inl e, os)" "remove_stale_live reg ps os = (Inr u, t)"
proof -
  obtain r1 s1 where m: "read_metadata js reg s os = (r1, s1)" by fastforce
  then have s1: "s1 = os" by (rule readsD [OF reads_sessions(2)])
  obtain r2 s2 where n: "now_seconds os = (r2, s2)" by fastforce
  then have s2: "s2 = os" by (rule readsD [OF reads_now_seconds])
  obtain r3 s3 where c: "connect reg s os = (r3, s3)" by fastforce
  then have s3: "s3 = os" by (rule readsD [OF reads_sessions(1)])
  obtain r4 s4 where k: "path_entry_exists (p_socket ps) os = (r4, s4)" by fastforce
  then have s4: "s4 = os" by (rule readsD [OF reads_files(2)])
  obtain r5 s5 where l: "path_entry_exists (p_lock ps) os = (r5, s5)" by fastforce
  then have s5: "s5 = os" by (rule readsD [OF reads_files(2)])
  note facts = m n c k l s1 s2 s3 s4 s5
  obtain found where found: "r1 = Inr found"
    using assms m by (cases r1) (auto simp: make_room_def io_simps Let_def)
  show thesis
  proof (cases found)
    case None
    with assms found facts consider "t = os" | e where "r3 = Inl e" "remove_stale_live reg ps os = (Inr u, t)"
      by (auto simp: make_room_def io_simps Let_def split: if_splits sum.splits)
    then show thesis using None found facts that(1,3) by cases auto
  next
    case (Some md)
    with assms found facts obtain now where now: "r2 = Inr now"
      by (cases r2) (auto simp: make_room_def io_simps Let_def)
    show thesis
    proof (cases "is_expired md now")
      case True
      with assms Some found facts now have "remove_completed ps os = (Inr u, t)"
        by (simp add: make_room_def io_simps Let_def)
      with True Some found facts now that(2) show thesis by simp
    next
      case False
      with assms Some found facts now obtain e where "r3 = Inl e" "remove_stale_live reg ps os = (Inr u, t)"
        by (cases md; cases r3) (auto simp: make_room_def io_simps Let_def)
      with facts that(3) show thesis by simp
    qed
  qed
qed

lemma make_room_metadata:
  assumes "make_room js reg s (paths_of reg s) os = (Inr u, t)" and "no_faults os"
  shows "look t (p_metadata (paths_of reg s)) = None"
  using assms(1)
proof (cases rule: make_room_Inr)
  case 1
  then show ?thesis using read_metadata_None [OF 1(2) assms(2)] by simp
next
  case (2 md now)
  then show ?thesis using remove_completed_Inr assms(2) by blast
next
  case (3 e)
  then show ?thesis using remove_stale_live_Inr assms(2) by blast
qed

lemma bind_session_Inr:
  assumes "bind_session js reg s os = (Inr ps, t)"
  obtains u s1 v where "ps = paths_of reg s" "registry_paths reg s os = (Inr ps, os)"
    "make_room js reg s ps os = (Inr u, s1)" "bind_listener ps s1 = (Inr v, t)"
  using assms unfolding bind_session_def registry_paths_def Let_def
  by (auto simp: io_simps split: if_splits prod.splits sum.splits)

section \<open>Cleaning up\<close>

lemma expired_iff:
  "is_expired (Completed cs) now \<longleftrightarrow> unat (cs_finished_at cs) + 86400 \<le> unat now"
  by (auto simp: word_le_nat_alt unat_saturating_sub COMPLETED_RETENTION_SECONDS_def)

text \<open>The record a session's metadata file holds, if the file may be trusted and is not too long.\<close>

definition stored :: "json \<Rightarrow> registry \<Rightarrow> os \<Rightarrow> session_id \<Rightarrow> session_metadata option" where
  "stored js reg s sid =
     (case look s (p_metadata (paths_of reg sid)) of
        None \<Rightarrow> None
      | Some e \<Rightarrow> if \<not> private_entry (uid reg) Regular_path 384 e then None
          else (case e_node e of
                Regular xs \<Rightarrow> if length xs \<le> MAX_METADATA_BYTES then from_slice js xs else None
              | _ \<Rightarrow> None))"

lemma stored_Some:
  "read_metadata js reg sid s = (Inr (Some m), t) \<Longrightarrow> stored js reg s sid = Some m"
  using read_metadata_Some [of js reg sid s m t] by (auto simp: stored_def)

lemma stored_cong:
  "look t (p_metadata (paths_of reg sid)) = look s (p_metadata (paths_of reg sid)) \<Longrightarrow>
   stored js reg t sid = stored js reg s sid"
  by (simp add: stored_def)

text \<open>Only files of sessions whose record has expired may be gone; nothing else has changed.\<close>

definition lost_only_expired :: "json \<Rightarrow> registry \<Rightarrow> u64 \<Rightarrow> os \<Rightarrow> os \<Rightarrow> bool" where
  "lost_only_expired js reg now s t \<longleftrightarrow> same_process s t \<and>
     (\<forall>q. look t q = look s q \<or>
        (look t q = None \<and> (\<exists>sid m. session_wf sid \<and> stored js reg s sid = Some m \<and> is_expired m now \<and>
           q \<in> {p_output (paths_of reg sid), p_trace (paths_of reg sid), p_metadata (paths_of reg sid)})))"

lemma lost_refl [simp]: "lost_only_expired js reg now s s"
  by (simp add: lost_only_expired_def)

definition expired_file :: "json \<Rightarrow> registry \<Rightarrow> u64 \<Rightarrow> os \<Rightarrow> path \<Rightarrow> bool" where
  "expired_file js reg now s q \<longleftrightarrow>
     (\<exists>sid m. session_wf sid \<and> stored js reg s sid = Some m \<and> is_expired m now \<and>
        q \<in> {p_output (paths_of reg sid), p_trace (paths_of reg sid), p_metadata (paths_of reg sid)})"

lemma lost_iff:
  "lost_only_expired js reg now s t \<longleftrightarrow> same_process s t \<and>
     (\<forall>q. look t q = look s q \<or> (look t q = None \<and> expired_file js reg now s q))"
  unfolding lost_only_expired_def expired_file_def ..

lemma lost_stored:
  assumes "lost_only_expired js reg now s t" and "stored js reg t sid = Some m"
  shows "stored js reg s sid = Some m"
proof -
  have "look t (p_metadata (paths_of reg sid)) \<noteq> None"
    using assms(2) by (auto simp: stored_def split: option.splits)
  then have "look t (p_metadata (paths_of reg sid)) = look s (p_metadata (paths_of reg sid))"
    using assms(1) by (auto simp: lost_iff)
  from stored_cong [OF this] assms(2) show ?thesis by simp
qed

lemma lost_trans:
  assumes "lost_only_expired js reg now s t" and "lost_only_expired js reg now t w"
  shows "lost_only_expired js reg now s w"
proof -
  have "look w q = look s q \<or> (look w q = None \<and> expired_file js reg now s q)" for q
  proof -
    have "expired_file js reg now t q \<Longrightarrow> expired_file js reg now s q"
      using lost_stored [OF assms(1)] unfolding expired_file_def by blast
    moreover have "look t q = look s q \<or> (look t q = None \<and> expired_file js reg now s q)"
      "look w q = look t q \<or> (look w q = None \<and> expired_file js reg now t q)"
      using assms by (simp_all add: lost_iff)
    ultimately show ?thesis by auto
  qed
  moreover have "same_process s w"
    using assms same_process_trans by (auto simp: lost_iff)
  ultimately show ?thesis by (simp add: lost_iff)
qed

text \<open>Operations that can only take files away.\<close>

definition deletes :: "path set \<Rightarrow> (os, 'a) io \<Rightarrow> bool" where
  "deletes P m \<longleftrightarrow> (\<forall>s. same_process s (snd (m s)) \<and>
     (\<forall>q. look (snd (m s)) q = look s q \<or> (q \<in> P \<and> look (snd (m s)) q = None)))"

lemma deletes_io_match:
  assumes "deletes P m" and "\<And>e. deletes P (h e)" and "\<And>a. deletes P (f a)"
  shows "deletes P (io_match m h f)"
  unfolding deletes_def
proof
  fix s
  obtain r s1 where m: "m s = (r, s1)" by fastforce
  have 1: "same_process s s1" "\<And>q. look s1 q = look s q \<or> (q \<in> P \<and> look s1 q = None)"
    using assms(1) m unfolding deletes_def by (metis snd_conv)+
  define g where "g = (case r of Inl e \<Rightarrow> h e | Inr a \<Rightarrow> f a)"
  have g: "snd (io_match m h f s) = snd (g s1)" "deletes P g"
    using m assms(2,3) by (cases r; simp add: io_simps g_def)+
  have 2: "same_process s1 (snd (g s1))"
    "\<And>q. look (snd (g s1)) q = look s1 q \<or> (q \<in> P \<and> look (snd (g s1)) q = None)"
    using g(2) unfolding deletes_def by blast+
  show "same_process s (snd (io_match m h f s)) \<and>
    (\<forall>q. look (snd (io_match m h f s)) q = look s q \<or> (q \<in> P \<and> look (snd (io_match m h f s)) q = None))"
    unfolding g(1) using same_process_trans [OF 1(1) 2(1)] 1(2) 2(2) by metis
qed

lemma deletes_basic:
  "deletes P (io_ok a)" "deletes P (io_fail e)" "p \<in> P \<Longrightarrow> deletes P (fs_remove_file p)"
  by (auto simp: deletes_def io_simps fs_remove_file_def syscall_def split: option.splits)

lemma deletes_remove_completed:
  assumes "p_output ps \<in> P" "p_trace ps \<in> P" "p_metadata ps \<in> P"
  shows "deletes P (remove_completed ps)"
  unfolding remove_completed_def io_try_def remove_if_present_def
  using assms by (auto intro!: deletes_io_match deletes_basic)

lemma remove_completed_lost:
  assumes "remove_completed (paths_of reg sid) s = (r, t)" and "session_wf sid"
    and "stored js reg s sid = Some m" and "is_expired m now"
  shows "lost_only_expired js reg now s t"
proof -
  let ?P = "{p_output (paths_of reg sid), p_trace (paths_of reg sid), p_metadata (paths_of reg sid)}"
  have "deletes ?P (remove_completed (paths_of reg sid))"
    by (intro deletes_remove_completed) simp_all
  then have "same_process s t" "\<And>q. look t q = look s q \<or> (q \<in> ?P \<and> look t q = None)"
    using assms(1) unfolding deletes_def by (metis snd_conv)+
  moreover have "expired_file js reg now s q" if "q \<in> ?P" for q
    using that assms(2-4) unfolding expired_file_def by blast
  ultimately show ?thesis unfolding lost_iff by blast
qed

lemma io_try_paths:
  "io_try (registry_paths reg sid) f s =
     (if UNIX_SOCKET_PATH_BYTES < length (p_socket (paths_of reg sid)) then (Inl invalid, s)
      else f (paths_of reg sid) s)"
  by (simp add: registry_paths_def io_simps)

lemma cleanup_entries_lost:
  "cleanup_entries js reg now names s = (r, t) \<Longrightarrow> lost_only_expired js reg now s t"
proof (induction names arbitrary: s)
  case Nil
  then show ?case by (simp add: io_simps)
next
  case (Cons name names)
  show ?case
  proof (cases "session_from_metadata_name name")
    case None
    with Cons show ?thesis by simp
  next
    case (Some sid)
    then have wf: "session_wf sid" by (simp add: session_from_metadata_name_iff)
    obtain r1 s1 where m: "read_metadata js reg sid s = (r1, s1)" by fastforce
    then have s1: "s1 = s" by (rule readsD [OF reads_sessions(2)])
    from Cons.prems Some m s1 consider "t = s" | "cleanup_entries js reg now names s = (r, t)"
      | md where "r1 = Inr (Some md)" "is_expired md now"
        "io_try (remove_completed (paths_of reg sid)) (\<lambda>_. cleanup_entries js reg now names) s = (r, t)"
      by (auto simp: io_try_paths io_try_apply [of "read_metadata js reg sid"]
          split: if_splits sum.splits option.splits)
    then show ?thesis
    proof cases
      case (3 md)
      obtain r2 s2 where rc: "remove_completed (paths_of reg sid) s = (r2, s2)" by fastforce
      have "stored js reg s sid = Some md" using stored_Some m 3(1) by blast
      with rc wf 3(2) have "lost_only_expired js reg now s s2" by (intro remove_completed_lost)
      moreover have "t = s2 \<or> cleanup_entries js reg now names s2 = (r, t)"
        using 3(3) rc by (auto simp: io_simps split: sum.splits)
      ultimately show ?thesis using Cons.IH lost_trans by blast
    qed (use Cons.IH in auto)
  qed
qed

lemma cleanup_expired_lost:
  assumes "cleanup_expired js reg s = (r, t)"
  shows "t = s \<or> (\<exists>now. now_seconds s = (Inr now, s) \<and> lost_only_expired js reg now s t)"
proof -
  obtain r1 s1 where n: "now_seconds s = (r1, s1)" by fastforce
  then have s1: "s1 = s" by (rule readsD [OF reads_now_seconds])
  obtain r2 s2 where d: "fs_read_dir (root reg) s = (r2, s2)" by fastforce
  then have s2: "s2 = s" by (rule readsD [OF reads_calls(6)])
  from assms n s1 d s2 consider "t = s" | now names where "r1 = Inr now"
      "cleanup_entries js reg now (take MAX_SESSION_LIST_ENTRIES names) s = (r, t)"
    by (auto simp: cleanup_expired_def io_simps split: sum.splits)
  then show ?thesis using cleanup_entries_lost n s1 by cases blast+
qed

section \<open>Opening\<close>

definition private_directory :: "u32 \<Rightarrow> entry \<Rightarrow> bool" where
  "private_directory u e \<longleftrightarrow> is_dir e \<and> e_uid e = u \<and> e_mode e AND 63 = 0"

lemma created_mode: "((448::u32) AND NOT m) AND 63 = 0"
proof -
  have "((448::u32) AND NOT m) AND 63 = (448 AND 63) AND NOT m"
    by (simp only: ac_simps)
  then show ?thesis by simp
qed

lemma touches_ensure_private_directory: "p \<in> P \<Longrightarrow> touches P (ensure_private_directory n p)"
proof (induction n)
  case 0
  then show ?case by (simp add: touching)
next
  case (Suc n)
  have "touches P (\<lambda>s. if \<not> is_dir m \<or> is_symlink m then io_fail invalid s
          else if e_uid m \<noteq> os_uid s then io_fail (io_error_new PermissionDenied) s
          else fs_chmod p 448 s)" for m
    using touches_writes(1) [OF Suc.prems, of 448] by (auto simp: touches_def io_simps)
  with Suc show ?case by (auto intro!: touching)
qed

lemma fs_mkdir_Inl: "fs_mkdir p mode s = (Inl e, t) \<Longrightarrow> t = s"
  by (auto simp: fs_mkdir_def syscall_def split: option.splits)

lemma ensure_private_directory_Inr:
  "ensure_private_directory n p s = (Inr u, t) \<Longrightarrow>
   \<exists>e. look t p = Some e \<and> private_directory (os_uid s) e"
proof (induction n)
  case 0
  then show ?case by (simp add: io_simps)
next
  case (Suc n)
  obtain r1 s1 where l: "fs_lstat p s = (r1, s1)" by fastforce
  then have s1: "s1 = s" by (rule readsD [OF reads_calls(1)])
  show ?case
  proof (cases r1)
    case (Inl e)
    obtain r2 s2 where m: "fs_mkdir p 448 s = (r2, s2)" by fastforce
    show ?thesis
    proof (cases r2)
      case (Inl e')
      then have "s2 = s" using m fs_mkdir_Inl by blast
      with Suc l s1 \<open>r1 = Inl e\<close> m Inl show ?thesis
        by (auto simp: io_simps split: if_splits)
    next
      case (Inr v)
      with Suc.prems l s1 \<open>r1 = Inl e\<close> m have "t = s2" by (auto simp: io_simps split: if_splits)
      with m Inr show ?thesis
        by (auto simp: fs_mkdir_def syscall_def private_directory_def new_entry_def is_dir_def created_mode
            split: option.splits)
    qed
  next
    case (Inr e)
    with l have "look s p = Some e" by (auto dest: fs_lstat_Inr)
    with Suc.prems l s1 Inr show ?thesis
      by (auto simp: io_simps fs_chmod_def syscall_def private_directory_def is_dir_def
          split: if_splits option.splits)
  qed
qed

lemma registry_open_Inr:
  assumes "registry_open js s = (Inr reg, t)"
  obtains home s1 s2 u1 u2 u3 where "env_home s = Some home" "path_is_absolute home"
    "root reg = path_join (path_join home (bs ''.afk'')) (bs ''run'')" "uid reg = os_uid s"
    "ensure_private_directory ATTEMPTS (path_join home (bs ''.afk'')) s = (Inr u1, s1)"
    "ensure_private_directory ATTEMPTS (root reg) s1 = (Inr u2, s2)"
    "cleanup_expired js reg s2 = (Inr u3, t)"
proof -
  obtain home where home: "env_home s = Some home" "path_is_absolute home"
    using assms by (auto simp: registry_open_def io_simps split: option.splits if_splits)
  let ?afk = "path_join home (bs ''.afk'')"
  let ?reg = "\<lparr>root = path_join ?afk (bs ''run''), uid = os_uid s\<rparr>"
  from assms home have
    "io_try (ensure_private_directory ATTEMPTS ?afk) (\<lambda>_.
       io_try (ensure_private_directory ATTEMPTS (root ?reg)) (\<lambda>_.
       io_try (cleanup_expired js ?reg) (\<lambda>_. io_ok ?reg))) s = (Inr reg, t)"
    by (simp add: registry_open_def Let_def)
  then show thesis
    using home that by (auto elim!: io_try_unit_Inr simp: io_ok_apply)
qed

lemma path_join_longer: "length d < length (path_join d name) \<or> name = []"
  by (auto simp: path_join_def with_slash_def)

lemma path_join_length: "length d + length name \<le> length (path_join d name)"
  by (simp add: path_join_def with_slash_def)

lemma session_key_longer: "p \<in> session_keys reg \<Longrightarrow> length (root reg) + 32 \<le> length p"
  using path_join_length [of "root reg"]
  by (auto simp: session_keys_def session_path_def length_session_to_string
      intro: order_trans [OF _ path_join_length])

lemma lost_directory:
  assumes "lost_only_expired js reg now s t" and "length q \<le> length (root reg)"
  shows "look t q = look s q"
proof -
  have "q \<notin> session_keys reg" using session_key_longer [of q reg] assms(2) by fastforce
  then have "\<not> expired_file js reg now s q"
    by (auto simp: expired_file_def)
  then show ?thesis using assms(1) by (auto simp: lost_iff)
qed

lemma cleanup_directory:
  "cleanup_expired js reg s = (r, t) \<Longrightarrow> length q \<le> length (root reg) \<Longrightarrow> look t q = look s q"
  using cleanup_expired_lost [of js reg s r t] lost_directory by blast

section \<open>Listing\<close>

text \<open>A record of a session whose metadata file is among the names.\<close>

definition listed :: "json \<Rightarrow> registry \<Rightarrow> os \<Rightarrow> byte list list \<Rightarrow> session_metadata \<Rightarrow> bool" where
  "listed js reg s names m \<longleftrightarrow> (\<exists>sid. session_wf sid \<and> session_to_string sid @ bs ''.json'' \<in> set names \<and>
     read_metadata js reg sid s = (Inr (Some m), s))"

lemma listed_Nil [simp]: "\<not> listed js reg s [] m"
  by (simp add: listed_def)

lemma listed_Cons_None:
  "session_from_metadata_name name = None \<Longrightarrow> listed js reg s (name # names) m = listed js reg s names m"
  using session_from_metadata_name_iff [of name] by (auto simp: listed_def)

lemma listed_Cons_Some:
  assumes "session_from_metadata_name name = Some sid"
  shows "listed js reg s (name # names) m \<longleftrightarrow>
    read_metadata js reg sid s = (Inr (Some m), s) \<or> listed js reg s names m"
proof -
  have "session_wf sid' \<and> session_to_string sid' @ bs ''.json'' = name \<longleftrightarrow> sid' = sid" for sid'
    using assms session_from_metadata_name_iff [of name] sid.print_inject [of sid' sid] by auto
  moreover have "listed js reg s (name # names) m \<longleftrightarrow>
      (\<exists>sid'. (session_wf sid' \<and> session_to_string sid' @ bs ''.json'' = name) \<and>
         read_metadata js reg sid' s = (Inr (Some m), s)) \<or> listed js reg s names m"
    unfolding listed_def by auto
  ultimately show ?thesis by simp
qed

lemma list_entries_Inr:
  assumes "list_entries js reg acc names s = (Inr ms, t)" and "length acc \<le> MAX_SESSION_LIST_ENTRIES"
  shows "t = s \<and> length ms \<le> MAX_SESSION_LIST_ENTRIES \<and> set acc \<subseteq> set ms \<and>
    (\<forall>m \<in> set ms. m \<in> set acc \<or> listed js reg s names m) \<and>
    (length ms < MAX_SESSION_LIST_ENTRIES \<longrightarrow> (\<forall>m. listed js reg s names m \<longrightarrow> m \<in> set ms))"
  using assms
proof (induction names arbitrary: acc)
  case Nil
  then show ?case by (auto simp: io_simps)
next
  case (Cons name names)
  show ?case
  proof (cases "length acc = MAX_SESSION_LIST_ENTRIES")
    case True
    with Cons.prems show ?thesis by (auto simp: io_simps)
  next
    case False
    show ?thesis
    proof (cases "session_from_metadata_name name")
      case None
      with False Cons.prems have "list_entries js reg acc names s = (Inr ms, t)" by simp
      from Cons.IH [OF this Cons.prems(2)] None show ?thesis by (simp add: listed_Cons_None)
    next
      case (Some sid)
      obtain r s1 where r: "read_metadata js reg sid s = (r, s1)" by fastforce
      then have s1: "s1 = s" by (rule readsD [OF reads_sessions(2)])
      with Some False Cons.prems r obtain found where found: "r = Inr found"
        by (cases r) (simp_all add: io_simps)
      let ?new = "case found of None \<Rightarrow> [] | Some m \<Rightarrow> [m]"
      have rest: "list_entries js reg (acc @ ?new) names s = (Inr ms, t)"
        using Some False Cons.prems r s1 found by (simp add: io_simps split: option.splits)
      have "length (acc @ ?new) \<le> MAX_SESSION_LIST_ENTRIES"
        using False Cons.prems(2) by (simp split: option.splits)
      from Cons.IH [OF rest this] show ?thesis
        using r s1 found by (cases found) (auto simp: listed_Cons_Some [OF Some])
    qed
  qed
qed

section \<open>Properties\<close>

text \<open>
  C18: A session whose runner can be reached is never replaced: binding it fails and leaves
  its socket, its lock and every file of other sessions alone, whatever its metadata says.
\<close>

theorem reachable_session_is_never_replaced:
  assumes "connect reg s os = (Inr st, os')" and "bind_session js reg s os = (r, t)"
  shows "(\<exists>e. r = Inl e) \<and> look t (p_socket (paths_of reg s)) = look os (p_socket (paths_of reg s)) \<and>
    look t (p_lock (paths_of reg s)) = look os (p_lock (paths_of reg s)) \<and>
    (\<forall>q. q \<notin> session_files (paths_of reg s) \<longrightarrow> look t q = look os q)"
  using bind_reachable [OF assms] paths_of_distinct [of reg s]
  by (auto simp: changes_only_def session_files_def)

text \<open>
  C34: A successful binding on a healthy file system: no runner answered before, the socket
  and the lock now are the caller's own with mode 0600, the metadata file is gone, and no
  path of another session has changed.
\<close>

theorem bound_session_is_fresh:
  assumes "bind_session js reg s os = (Inr ps, t)" and "no_faults os"
  shows "ps = paths_of reg s \<and> (\<forall>st. fst (connect reg s os) \<noteq> Inr st) \<and>
    look t (p_socket ps) = Some (bound_socket os) \<and> look t (p_lock ps) = Some (own_file os []) \<and>
    look t (p_metadata ps) = None \<and>
    (\<forall>q. q \<notin> session_files (paths_of reg s) \<longrightarrow> look t q = look os q)"
proof -
  obtain u s1 v where b: "ps = paths_of reg s" "make_room js reg s ps os = (Inr u, s1)"
    "bind_listener ps s1 = (Inr v, t)"
    by (rule bind_session_Inr [OF assms(1)])
  have ch: "changes_only (session_files ps) os s1"
    using touchesD [OF touches_make_room b(2) [unfolded b(1)]] b(1) by simp
  then have p: "same_process os s1" by (simp add: changes_only_def)
  note t = bind_listener_Inr [OF b(3), THEN conjunct2]
  have fresh: "bound_socket s1 = bound_socket os" "own_file s1 xs = own_file os xs" for xs
    using p by (simp_all add: bound_socket_def own_file_process new_entry_def own_listener_def same_process_fields)
  have "fst (connect reg s os) \<noteq> Inr st" for st
  proof
    assume "fst (connect reg s os) = Inr st"
    then have "connect reg s os = (Inr st, snd (connect reg s os))" by (cases "connect reg s os") simp
    from bind_reachable [OF this assms(1)] show False by simp
  qed
  moreover have "look t (p_metadata ps) = None"
    using make_room_metadata [OF b(2) [unfolded b(1)] assms(2)] paths_of_distinct [of reg s]
    by (auto simp: t b(1))
  moreover have "look t q = look os q" if "q \<notin> session_files ps" for q
    using changes_only_look [OF ch that] that by (simp add: t session_files_def)
  moreover have "p_lock ps \<noteq> p_socket ps"
    using paths_of_distinct [of reg s] b(1) by auto
  ultimately show ?thesis using b(1) by (simp add: t fresh)
qed

text \<open>
  Cleaning up removes nothing but the output, trace and metadata files of completed
  sessions that finished at least a day ago, under every I/O error and clock value.
\<close>

theorem cleanup_spares_current_sessions:
  assumes "cleanup_expired js reg s = (r, t)" and "look t q \<noteq> look s q"
  shows "look t q = None \<and> (\<exists>sid cs now. session_wf sid \<and> stored js reg s sid = Some (Completed cs) \<and>
    now_seconds s = (Inr now, s) \<and> unat (cs_finished_at cs) + 86400 \<le> unat now \<and>
    q \<in> {p_output (paths_of reg sid), p_trace (paths_of reg sid), p_metadata (paths_of reg sid)})"
proof -
  obtain now where now: "now_seconds s = (Inr now, s)" "lost_only_expired js reg now s t"
    using cleanup_expired_lost [OF assms(1)] assms(2) by auto
  then have q: "look t q = None" "expired_file js reg now s q"
    using assms(2) by (auto simp: lost_iff)
  then obtain sid m where "session_wf sid" "stored js reg s sid = Some m" "is_expired m now"
    "q \<in> {p_output (paths_of reg sid), p_trace (paths_of reg sid), p_metadata (paths_of reg sid)}"
    unfolding expired_file_def by blast
  moreover from this(3) obtain cs where "m = Completed cs" "unat (cs_finished_at cs) + 86400 \<le> unat now"
    by (cases m) (auto simp only: expired_iff is_expired.simps(2))
  ultimately show ?thesis using q(1) now(1) by blast
qed

text \<open>
  C37: A listing changes nothing, has at most 1024 records in the order of their start times,
  contains only trusted records of sessions whose metadata file is in the directory, and,
  below the limit, contains all of them.
\<close>

theorem listing_is_sound_and_complete:
  assumes "list_sessions js reg s = (Inr ms, t)"
  shows "t = s \<and> length ms \<le> 1024 \<and> sorted (map metadata_started_at ms) \<and>
    (\<exists>names. fs_read_dir (root reg) s = (Inr names, s) \<and>
      (\<forall>m \<in> set ms. listed js reg s names m) \<and>
      (length ms < 1024 \<longrightarrow> (\<forall>m. listed js reg s names m \<longrightarrow> m \<in> set ms)))"
proof -
  from assms obtain names s1 unsorted s2 where l: "fs_read_dir (root reg) s = (Inr names, s1)"
    "list_entries js reg [] names s1 = (Inr unsorted, s2)" "ms = sort_key metadata_started_at unsorted" "t = s2"
    unfolding list_sessions_def by (auto elim!: io_try_unit_Inr simp: io_ok_apply)
  have s1: "s1 = s" by (rule readsD [OF reads_calls(6) l(1)])
  from list_entries_Inr [OF l(2)] l(1,3,4) s1 show ?thesis
    by (auto simp: MAX_SESSION_LIST_ENTRIES_def)
qed

text \<open>
  C36: A registry opens only on the directory .afk/run below an absolute HOME, and then that
  directory and its parent are directories of the calling user without any permission for
  group and others.
\<close>

theorem opened_registry_is_private:
  assumes "registry_open js s = (Inr reg, t)"
  shows "uid reg = os_uid s \<and> (\<exists>home e e'. env_home s = Some home \<and> path_is_absolute home \<and>
    root reg = path_join (path_join home (bs ''.afk'')) (bs ''run'') \<and>
    look t (root reg) = Some e \<and> private_directory (os_uid s) e \<and>
    look t (path_join home (bs ''.afk'')) = Some e' \<and> private_directory (os_uid s) e')"
proof -
  obtain home s1 s2 u1 u2 u3 where o: "env_home s = Some home" "path_is_absolute home"
    "root reg = path_join (path_join home (bs ''.afk'')) (bs ''run'')" "uid reg = os_uid s"
    "ensure_private_directory ATTEMPTS (path_join home (bs ''.afk'')) s = (Inr u1, s1)"
    "ensure_private_directory ATTEMPTS (root reg) s1 = (Inr u2, s2)"
    "cleanup_expired js reg s2 = (Inr u3, t)"
    by (rule registry_open_Inr [OF assms])
  let ?afk = "path_join home (bs ''.afk'')"
  have len: "length ?afk < length (root reg)"
    using path_join_longer [of ?afk "bs ''run''"] by (simp add: o(3) bs_def)
  then have ne: "?afk \<notin> {root reg}" by auto
  have c1: "changes_only {?afk} s s1"
    using o(5) by (rule touchesD [OF touches_ensure_private_directory, rotated]) simp
  have c2: "changes_only {root reg} s1 s2"
    using o(6) by (rule touchesD [OF touches_ensure_private_directory, rotated]) simp
  have uid: "os_uid s1 = os_uid s"
    using c1 by (simp add: changes_only_def same_process_fields)
  obtain e' where e': "look s1 ?afk = Some e'" "private_directory (os_uid s) e'"
    using ensure_private_directory_Inr [OF o(5)] by blast
  obtain e where e: "look s2 (root reg) = Some e" "private_directory (os_uid s) e"
    using ensure_private_directory_Inr [OF o(6)] uid by auto
  have "look t ?afk = Some e'"
    using cleanup_directory [OF o(7), of ?afk] len changes_only_look [OF c2 ne] e'(1) by simp
  moreover have "look t (root reg) = Some e"
    using cleanup_directory [OF o(7), of "root reg"] e(1) by simp
  ultimately show ?thesis using o(1-4) e(2) e'(2) by blast
qed

section \<open>Examples\<close>

abbreviation sample_paths :: session_paths where
  "sample_paths \<equiv> paths_of sample_registry sample_session"

lemma sample_paths_ok: "registry_paths sample_registry sample_session s = (Inr sample_paths, s)"
proof -
  have "length (p_socket sample_paths) \<le> UNIX_SOCKET_PATH_BYTES" by code_simp
  then show ?thesis by (simp add: registry_paths_def io_simps)
qed

lemma sample_root_key: "p \<in> session_keys sample_registry \<Longrightarrow> p \<noteq> bs ''/r''"
  using session_key_long [of p sample_registry] by (auto simp: bs_def)

lemma sample_missing:
  assumes "p \<in> session_keys sample_registry"
  shows "look sample_os p = None"
  using session_key_long [OF assms] by (auto simp: sample_look bs_def)

lemma missing_calls:
  assumes "no_faults s" and "look s p = None"
  shows "fs_lstat p s = (Inl (io_error_new NotFound), s)"
    and "verify_path p u kind mode s = (Inl (io_error_new NotFound), s)"
    and "read_bounded_file p u kind mode limit s = (Inr None, s)"
    and "path_entry_exists p s = (Inr False, s)"
    and "remove_if_present p s = (Inr (), s)"
  using assms
  by (simp_all add: no_faults_def fs_lstat_def verify_path_def read_bounded_file_def
      path_entry_exists_def remove_if_present_def fs_remove_file_def syscall_def io_simps)

lemma sample_make_room:
  "make_room sample_json sample_registry sample_session sample_paths sample_os = (Inr (), sample_os)"
  by (simp add: make_room_def read_metadata_def io_try_apply io_match_apply io_ok_apply io_fail_apply
      sample_paths_ok missing_calls sample_missing Let_def)

lemma faults_set_entry: "faults (set_entry p e s) = faults s"
  by (simp add: set_entry_def)

lemma bind_listener_fresh:
  assumes "no_faults s" and "look s (p_socket ps) = None" and "look s (p_lock ps) = None"
    and "p_lock ps \<noteq> p_socket ps"
  shows "is_ok (fst (bind_listener ps s))"
  using assms
  by (simp add: bind_listener_def Let_def io_match_apply io_ok_apply fs_bind_def fs_chmod_def
      fs_set_nonblocking_def fs_create_new_def syscall_def no_faults_def faults_set_entry)

lemma sample_bind:
  obtains t where "bind_session sample_json sample_registry sample_session sample_os = (Inr sample_paths, t)"
proof -
  have "p_lock sample_paths \<noteq> p_socket sample_paths"
    using paths_of_distinct [of sample_registry sample_session] by auto
  then have "is_ok (fst (bind_listener sample_paths sample_os))"
    by (intro bind_listener_fresh) (simp_all add: sample_missing)
  then obtain t where "bind_listener sample_paths sample_os = (Inr (), t)" by (rule is_ok_E)
  then show thesis
    by (intro that) (simp add: bind_session_def io_try_apply io_ok_apply sample_paths_ok sample_make_room)
qed

lemma bound_session_is_fresh_witness:
  "\<exists>t. bind_session sample_json sample_registry sample_session sample_os = (Inr sample_paths, t) \<and>
     look t (p_socket sample_paths) = Some (bound_socket sample_os)"
proof -
  obtain t where b: "bind_session sample_json sample_registry sample_session sample_os = (Inr sample_paths, t)"
    by (rule sample_bind)
  show ?thesis
    using b bound_session_is_fresh [OF b sample_no_faults] by blast
qed

lemma reachable_session_is_never_replaced_witness:
  "\<exists>os e. fst (bind_session sample_json sample_registry sample_session os) = Inl e"
proof -
  obtain t where b: "bind_session sample_json sample_registry sample_session sample_os = (Inr sample_paths, t)"
    by (rule sample_bind)
  obtain u s1 v where s: "make_room sample_json sample_registry sample_session sample_paths sample_os = (Inr u, s1)"
    "bind_listener sample_paths s1 = (Inr v, t)"
    by (rule bind_session_Inr [OF b]) simp
  then have look: "look t (p_socket sample_paths) = Some (bound_socket sample_os)" "no_faults t"
    using bind_listener_Inr [OF s(2)] sample_make_room paths_of_distinct [of sample_registry sample_session]
    by auto
  have c: "connect sample_registry sample_session t = (Inr (l_stream (own_listener sample_os)), t)"
    by (rule connect_intro [OF look(2) sample_paths_ok refl look(1)])
      (simp_all add: private_entry_def bound_socket_def new_entry_def is_symlink_def is_socket_def own_listener_def)
  obtain r w where r: "bind_session sample_json sample_registry sample_session t = (r, w)" by fastforce
  show ?thesis
    using reachable_session_is_never_replaced [OF c r] r by (metis fst_conv)
qed

text \<open>The same directory a day after the session finished.\<close>

definition sample_old :: os where
  "sample_old = set_entry (p_metadata sample_paths)
     \<lparr>e_node = Regular (bs ''done''), e_uid = 1000, e_mode = 384\<rparr> (sample_os\<lparr>clock := 86420\<rparr>)"

lemma sample_old_faults [simp]: "no_faults sample_old"
  by (simp add: sample_old_def no_faults_def sample_os_def set_entry_def)

lemma sample_old_now: "now_seconds sample_old = (Inr 86420, sample_old)"
  by (simp add: now_seconds_def sample_old_def sample_os_def set_entry_def)

lemma sample_old_look:
  "look sample_old p = (if p = p_metadata sample_paths
     then Some \<lparr>e_node = Regular (bs ''done''), e_uid = 1000, e_mode = 384\<rparr> else look sample_os p)"
  by (simp add: sample_old_def) (simp add: look_def)

lemma sample_old_read:
  "read_metadata sample_json sample_registry sample_session sample_old = (Inr (Some sample_done), sample_old)"
proof -
  let ?e = "\<lparr>e_node = Regular (bs ''done''), e_uid = 1000, e_mode = 384\<rparr>"
  have r: "read_bounded_file (p_metadata sample_paths) 1000 Regular_path 384 MAX_METADATA_BYTES sample_old =
      (Inr (Some (bs ''done'')), sample_old)"
    by (rule read_bounded_file_intro [where e = ?e])
      (simp_all add: private_entry_def is_symlink_def is_file_def sample_old_look sample_length MAX_METADATA_BYTES_def)
  have "metadata_session_id sample_done = session_to_string sample_session"
    by (simp add: sample_done_def)
  with r show ?thesis
    by (simp add: read_metadata_def io_try_apply io_ok_apply sample_paths_ok)
qed

lemma sample_old_names:
  "fs_read_dir (root sample_registry) sample_old =
     (Inr [session_to_string sample_session @ bs ''.json''], sample_old)"
proof -
  have "files sample_old = files sample_os @ [(p_metadata sample_paths,
      \<lparr>e_node = Regular (bs ''done''), e_uid = 1000, e_mode = 384\<rparr>)]"
    using sample_root_key [OF session_key_paths(1) [OF sample_session_wf]]
    by (simp add: sample_old_def set_entry_def sample_os_def)
  moreover have "name_in (bs ''/r'') (p_metadata sample_paths) = Some (session_to_string sample_session @ bs ''.json'')"
    by code_simp
  moreover have "name_in (bs ''/r'') (bs ''/r'') = None" by code_simp
  moreover have "look sample_old (bs ''/r'') = Some \<lparr>e_node = Directory, e_uid = 1000, e_mode = 448\<rparr>"
    using sample_root_key [OF session_key_paths(1) [OF sample_session_wf]]
    by (simp add: sample_old_look sample_look)
  ultimately show ?thesis
    using sample_old_faults
    by (simp add: fs_read_dir_def syscall_def no_faults_def sample_registry_def is_dir_def
        sample_os_def)
qed

lemma sample_old_cleanup:
  obtains t where "cleanup_expired sample_json sample_registry sample_old = (Inr (), t)"
    "look t (p_metadata sample_paths) = None"
proof -
  have missing: "look sample_old (p_output sample_paths) = None" "look sample_old (p_trace sample_paths) = None"
    using paths_of_distinct [of sample_registry sample_session] by (auto simp: sample_old_look sample_missing)
  have remove: "remove_if_present (p_metadata sample_paths) sample_old = (Inr (), del_entry (p_metadata sample_paths) sample_old)"
    using sample_old_faults
    by (simp add: remove_if_present_def fs_remove_file_def syscall_def no_faults_def io_simps sample_old_look is_dir_def)
  have expired: "is_expired sample_done 86420"
    by (simp add: sample_done_def saturating_sub_def COMPLETED_RETENTION_SECONDS_def)
  have "session_from_metadata_name (session_to_string sample_session @ bs ''.json'') = Some sample_session"
    by (simp add: session_from_metadata_name_iff)
  then have "cleanup_expired sample_json sample_registry sample_old = (Inr (), del_entry (p_metadata sample_paths) sample_old)"
    by (simp add: cleanup_expired_def io_try_apply io_ok_apply sample_old_now sample_old_names
        MAX_SESSION_LIST_ENTRIES_def sample_paths_ok sample_old_read expired remove_completed_def
        missing_calls missing remove)
  moreover have "look (del_entry (p_metadata sample_paths) sample_old) (p_metadata sample_paths) = None"
    unfolding look_del_entry by simp
  ultimately show thesis by (rule that)
qed

lemma cleanup_spares_current_sessions_witness:
  "\<exists>t cs now. cleanup_expired sample_json sample_registry sample_old = (Inr (), t) \<and>
     look t (p_metadata sample_paths) = None \<and> unat (cs_finished_at (cs :: completed_session)) + 86400 \<le> unat (now :: u64)"
proof -
  obtain t where c: "cleanup_expired sample_json sample_registry sample_old = (Inr (), t)"
    "look t (p_metadata sample_paths) = None"
    by (rule sample_old_cleanup)
  then have "look t (p_metadata sample_paths) \<noteq> look sample_old (p_metadata sample_paths)"
    by (simp add: sample_old_look)
  from cleanup_spares_current_sessions [OF c(1) this] show ?thesis
    using c by blast
qed

lemma listing_is_sound_and_complete_witness:
  "\<exists>ms. list_sessions sample_json sample_registry sample_old = (Inr ms, sample_old) \<and> length ms \<le> 1024 \<and> ms = [sample_done]"
proof -
  have "session_from_metadata_name (session_to_string sample_session @ bs ''.json'') = Some sample_session"
    by (simp add: session_from_metadata_name_iff)
  then have l: "list_sessions sample_json sample_registry sample_old = (Inr [sample_done], sample_old)"
    by (simp add: list_sessions_def io_try_apply io_ok_apply sample_old_names sample_old_read
        MAX_SESSION_LIST_ENTRIES_def)
  show ?thesis using l listing_is_sound_and_complete [OF l] by simp
qed

lemma opened_registry_is_private_witness:
  "\<exists>reg t e. registry_open sample_json sample_os = (Inr reg, t) \<and> look t (root reg) = Some e \<and> private_directory 1000 e"
proof -
  have "is_ok (fst (registry_open sample_json sample_os))" by code_simp
  then obtain reg t where o: "registry_open sample_json sample_os = (Inr reg, t)"
    by (cases "registry_open sample_json sample_os"; cases "fst (registry_open sample_json sample_os)") auto
  from opened_registry_is_private [OF o] o show ?thesis by auto
qed

end
