(* ===== verification/Runner_Stream.thy ===== *)
theory Runner_Stream
  imports Runner_Steps Step_System Registry_Sessions
begin

text \<open>
  The stream of a session: at the head of every tick the ring stands for all the output the
  terminal has produced, and the bytes written and queued for the attached client are its
  replay followed by everything since, without a gap or a repetition.
\<close>

section \<open>The invariant\<close>

definition closed_view :: "byte list \<Rightarrow> connection \<Rightarrow> bool" where
  "closed_view history c \<longleftrightarrow> quiet c \<or> (\<exists>earlier rest. history = earlier @ rest \<and> follows earlier c)"

definition data_view :: "byte list \<Rightarrow> runner \<Rightarrow> bool" where
  "data_view history r \<longleftrightarrow>
     tail.stands_for (rn_tail r) history \<and> tail_wf (rn_tail r) \<and> t_capacity (rn_tail r) = OUTPUT_TAIL_BYTES \<and>
     bq_wf (rn_input r) \<and> q_limit (rn_input r) = MAX_ATTACHMENT_QUEUE_BYTES \<and>
     (\<forall>c. rn_active r = Some c \<longrightarrow> follows history c \<and> settled c) \<and>
     (\<forall>c. rn_candidate r = Some c \<longrightarrow> quiet c \<and> settled c) \<and>
     (\<forall>c \<in> set (rn_closed r). closed_view history c)"

text \<open>The output the terminal has yet to produce.\<close>

definition pending :: "runner \<Rightarrow> byte list" where
  "pending r = plan_bytes (read_plan (pty_in (rn_master r)))"

definition data_inv :: "byte list \<Rightarrow> runner \<Rightarrow> bool" where
  "data_inv all_out r \<longleftrightarrow> (\<exists>history. all_out = history @ pending r \<and> data_view history r)"

section \<open>Small steps\<close>

lemma closed_view_mono: "closed_view h c \<Longrightarrow> closed_view (h @ ext) c"
  unfolding closed_view_def by (elim disjE exE) auto

lemma follows_closed: "follows h c \<Longrightarrow> closed_view h c"
  by (auto simp: closed_view_def)

lemma quiet_closed: "quiet c \<Longrightarrow> closed_view h c"
  by (simp add: closed_view_def)

lemma data_view_trace [simp]: "data_view h (trace_entry e r) = data_view h r"
  by (simp add: data_view_def)

lemma data_view_traces [simp]:
  "data_view h (trace_event ev r) = data_view h r" "data_view h (trace_io_error ev err r) = data_view h r"
  "data_view h (trace_process_exit ex r) = data_view h r"
  using trace_is_entry(1) [of ev] trace_is_entry(2) [of ev err] trace_is_entry(3) [of ex] by auto

lemma trace_fields [simp]:
  "rn_master (trace_event ev r) = rn_master r" "rn_master (trace_io_error ev err r) = rn_master r"
  "rn_master (trace_process_exit ex r) = rn_master r"
  "rn_active (trace_event ev r) = rn_active r" "rn_active (trace_io_error ev err r) = rn_active r"
  "rn_active (trace_process_exit ex r) = rn_active r"
  "rn_candidate (trace_event ev r) = rn_candidate r" "rn_candidate (trace_io_error ev err r) = rn_candidate r"
  "rn_tail (trace_event ev r) = rn_tail r" "rn_tail (trace_io_error ev err r) = rn_tail r"
  "rn_tail (trace_process_exit ex r) = rn_tail r"
  using trace_is_entry(1) [of ev] trace_is_entry(2) [of ev err] trace_is_entry(3) [of ex] by auto

lemma pending_trace [simp]:
  "pending (trace_event ev r) = pending r" "pending (trace_io_error ev err r) = pending r"
  "pending (trace_process_exit ex r) = pending r"
  "pending (drop_active r) = pending r" "pending (drop_candidate r) = pending r"
  by (simp_all add: pending_def)

lemma data_view_drop_active: "data_view h r \<Longrightarrow> data_view h (drop_active r)"
  by (auto simp: data_view_def drop_active_def follows_closed split: option.splits)

lemma data_view_drop_candidate: "data_view h r \<Longrightarrow> data_view h (drop_candidate r)"
  by (auto simp: data_view_def drop_candidate_def quiet_closed split: option.splits)

text \<open>Fields the view does not depend on.\<close>

lemma data_view_other [simp]:
  "data_view h (r\<lparr>rn_os := s\<rparr>) = data_view h r" "data_view h (r\<lparr>rn_master := p\<rparr>) = data_view h r"
  "data_view h (r\<lparr>rn_now := t\<rparr>) = data_view h r" "data_view h (r\<lparr>rn_child := ch\<rparr>) = data_view h r"
  "data_view h (r\<lparr>rn_accepts := a\<rparr>) = data_view h r" "data_view h (r\<lparr>rn_stop := b\<rparr>) = data_view h r" "data_view h (r\<lparr>rn_trace := tr\<rparr>) = data_view h r"
  by (simp_all add: data_view_def)

lemma pending_other [simp]:
  "pending (r\<lparr>rn_os := s\<rparr>) = pending r" "pending (r\<lparr>rn_now := t\<rparr>) = pending r"
  "pending (r\<lparr>rn_child := ch\<rparr>) = pending r" "pending (r\<lparr>rn_accepts := a\<rparr>) = pending r"
  "pending (r\<lparr>rn_trace := tr\<rparr>) = pending r" 
  "pending (r\<lparr>rn_stop := b\<rparr>) = pending r" "pending (r\<lparr>rn_active := x\<rparr>) = pending r"
  "pending (r\<lparr>rn_candidate := x\<rparr>) = pending r" "pending (r\<lparr>rn_closed := cs\<rparr>) = pending r"
  "pending (r\<lparr>rn_input := q\<rparr>) = pending r" "pending (r\<lparr>rn_tail := tt\<rparr>) = pending r"
  by (simp_all add: pending_def)

section \<open>Draining the terminal\<close>

lemma deliver_view:
  assumes "data_view h r"
  shows "data_view (h @ bytes) (deliver bytes r)"
proof -
  have tl: "tail.stands_for (tail_extend (rn_tail r) bytes) (h @ bytes)"
    using assms tail.stands_for_add [of "rn_tail r" h bytes] by (simp add: data_view_def)
  show ?thesis
  proof (cases "rn_active r")
    case None
    with assms tl show ?thesis
      by (auto simp: data_view_def deliver_def closed_view_mono)
  next
    case (Some c)
    obtain res c' where e: "enqueue_output bytes c = (res, c')" by fastforce
    have c: "settled c" "queue_ok c"
      using assms Some by (auto simp: data_view_def follows_def)
    obtain seen later where h: "h = seen @ later" "carries (replay seen @ later) c"
      using assms Some by (auto simp: data_view_def follows_def)
    obtain front rest where q: "queue_ok c'" "c_decoder c' = c_decoder c" "bytes = front @ rest"
      "is_ok res \<longrightarrow> rest = []" "\<And>shown. carries shown c \<Longrightarrow> carries (shown @ front) c'"
      using enqueue_output_front [OF e c(2)] by blast
    have settled: "settled c'" using q(2) c(1) by (simp add: settled_def)
    have f: "follows (h @ front) c'"
      using q(1) q(5) [OF h(2)] h(1) unfolding follows_def
      by (intro conjI exI [of _ seen] exI [of _ "later @ front"]) simp_all
    then have closed: "closed_view (h @ bytes) c'"
      using closed_view_mono [OF follows_closed [OF f], of rest] q(3) by simp
    show ?thesis
    proof (cases res)
      case (Inr u)
      with f q(3,4) have "follows (h @ bytes) c'" by simp
      with assms tl Some e Inr settled show ?thesis
        by (auto simp: data_view_def deliver_def closed_view_mono)
    next
      case (Inl err)
      with assms tl Some e closed show ?thesis
        by (auto simp: data_view_def deliver_def closed_view_mono drop_active_def)
    qed
  qed
qed

lemma pending_deliver [simp]: "pending (deliver bytes r) = pending r"
  by (simp add: pending_def)

lemma data_view_reader [simp]: "data_view h (set_pty_reader rd r) = data_view h r"
  by (simp add: set_pty_reader_def)

lemma pending_reader [simp]: "pending (set_pty_reader rd r) = plan_bytes (read_plan rd)"
  by (simp add: pending_def)

lemma nothing_read_inv:
  assumes "read_once IO_CHUNK_BYTES (pty_in (rn_master r)) = (q, rd)" and "\<not> is_ok q \<or> q = Inr []"
    and "data_inv a r"
  shows "data_inv a (set_pty_reader rd r)"
proof -
  have "plan_bytes (read_plan rd) = pending r"
    using read_once_plan(1) [of IO_CHUNK_BYTES "pty_in (rn_master r)" "[]" rd]
      read_once_plan(2) [of IO_CHUNK_BYTES "pty_in (rn_master r)" _ rd] assms(1,2)
    by (cases q) (auto simp: pending_def)
  with assms(3) show ?thesis by (simp add: data_inv_def)
qed

lemma something_read_inv:
  assumes "read_once IO_CHUNK_BYTES (pty_in (rn_master r)) = (Inr bytes, rd)" and "data_inv a r"
  shows "data_inv a (deliver bytes (set_pty_reader rd r))"
proof -
  obtain h where h: "a = h @ pending r" "data_view h r" using assms(2) by (auto simp: data_inv_def)
  have "pending r = bytes @ plan_bytes (read_plan rd)"
    using read_once_plan(1) [OF assms(1)] by (simp add: pending_def)
  with h deliver_view [of h "set_pty_reader rd r" bytes] show ?thesis
    unfolding data_inv_def by (intro exI [of _ "h @ bytes"]) simp
qed

section \<open>The other steps\<close>

lemma data_inv_other [simp]:
  "data_inv a (r\<lparr>rn_os := s\<rparr>) = data_inv a r" "data_inv a (r\<lparr>rn_now := t\<rparr>) = data_inv a r"
  "data_inv a (r\<lparr>rn_child := ch\<rparr>) = data_inv a r" "data_inv a (r\<lparr>rn_accepts := x\<rparr>) = data_inv a r"
  "data_inv a (r\<lparr>rn_stop := b\<rparr>) = data_inv a r" "data_inv a (r\<lparr>rn_trace := tr\<rparr>) = data_inv a r"
  "data_inv a (trace_event ev r) = data_inv a r" "data_inv a (trace_io_error ev err r) = data_inv a r"
  "data_inv a (trace_process_exit ex r) = data_inv a r"
  by (simp_all add: data_inv_def)

lemma data_inv_view:
  assumes "data_inv a r" and "pending r' = pending r" and "\<And>h. data_view h r \<Longrightarrow> data_view h r'"
  shows "data_inv a r'"
  using assms unfolding data_inv_def by auto

lemma data_inv_drop: "data_inv a r \<Longrightarrow> data_inv a (drop_active r)" "data_inv a r \<Longrightarrow> data_inv a (drop_candidate r)"
  by (rule data_inv_view, assumption, simp, rule data_view_drop_active data_view_drop_candidate, assumption)+

lemma data_inv_on_os:
  assumes "on_os m r = (res, r')"
  shows "data_inv a r' = data_inv a r"
  using on_os_fields [OF assms] by auto

lemma data_inv_drop_files [simp]: "data_inv a (drop_files r) = data_inv a r"
  unfolding drop_files_def by (rule data_inv_on_os) (rule prod.collapse [symmetric])

lemma data_inv_write_attached: "write_attached js b r = (res, r') \<Longrightarrow> data_inv a r' = data_inv a r"
  unfolding write_attached_def by (rule data_inv_on_os)

lemma view_drop_trace [simp]:
  "data_view h (drop_active (trace_entry e r)) = data_view h (drop_active r)"
  "data_view h (drop_candidate (trace_entry e r)) = data_view h (drop_candidate r)"
  by (simp_all add: data_view_def drop_active_def drop_candidate_def split: option.splits)

lemma view_drop_traces [simp]:
  "data_view h (drop_active (trace_event ev r)) = data_view h (drop_active r)"
  "data_view h (drop_active (trace_io_error ev err r)) = data_view h (drop_active r)"
  "data_view h (drop_candidate (trace_event ev r)) = data_view h (drop_candidate r)"
  "data_view h (drop_candidate (trace_io_error ev err r)) = data_view h (drop_candidate r)"
  using trace_is_entry(1) [of ev] trace_is_entry(2) [of ev err] by auto

lemma view_active:
  "data_view h r \<Longrightarrow> follows h c \<Longrightarrow> settled c \<Longrightarrow> data_view h (r\<lparr>rn_active := Some c\<rparr>)"
  by (simp add: data_view_def)

lemma view_drop_new_active:
  "data_view h r \<Longrightarrow> follows h c \<Longrightarrow> data_view h (drop_active (r\<lparr>rn_active := Some c\<rparr>))"
  by (simp add: data_view_def drop_active_def follows_closed)

lemma view_closed: "data_view h r \<Longrightarrow> closed_view h c \<Longrightarrow> data_view h (r\<lparr>rn_closed := c # rn_closed r\<rparr>)"
  by (simp add: data_view_def)

lemma view_no_candidate: "data_view h r \<Longrightarrow> data_view h (r\<lparr>rn_candidate := None\<rparr>)"
  by (simp add: data_view_def)

lemma flush_input_inv:
  assumes "data_inv a r"
  shows "data_inv a (flush_input r)"
proof -
  obtain res q w where f: "bq_flush (rn_input r, pty_out (rn_master r)) = (res, (q, w))" by (metis surj_pair)
  let ?r = "r\<lparr>rn_input := q, rn_master := (rn_master r)\<lparr>pty_out := w\<rparr>\<rparr>"
  have "data_inv a ?r"
  proof (rule data_inv_view [OF assms])
    show "pending ?r = pending r" by (simp add: pending_def)
    show "data_view h ?r" if "data_view h r" for h
      using that bq_flush_wf [OF f] bq_flush_moves [OF f] by (auto simp: data_view_def)
  qed
  then show ?thesis
    using f data_inv_drop(1) by (auto simp: flush_input_def Let_def split: sum.splits)
qed

lemma flush_active_inv:
  assumes "data_inv a r"
  shows "data_inv a (flush_active r)"
proof (cases "rn_active r")
  case None
  with assms show ?thesis by (simp add: flush_active_def)
next
  case (Some c)
  obtain res c' where f: "flush_connection c = (res, c')" by fastforce
  have c': "follows h c'" "settled c'" if "data_view h r" for h
    using that Some flush_connection_result [OF f] follows_queued [of c' c h]
    by (auto simp: data_view_def follows_def settled_def)
  show ?thesis
  proof (rule data_inv_view [OF assms])
    show "pending (flush_active r) = pending r"
      using Some f by (simp add: flush_active_def split: sum.splits)
    show "data_view h (flush_active r)" if "data_view h r" for h
      using Some f c' [OF that] that view_active view_drop_new_active
      by (cases res) (simp_all add: flush_active_def)
  qed
qed

lemma resize_fields:
  "resize rows columns r = (res, r') \<Longrightarrow> \<exists>p. r' = r\<lparr>rn_master := p\<rparr> \<and> pty_in p = pty_in (rn_master r)"
  by (auto simp: resize_def dest: set_window_size_keeps split: prod.splits)

lemma resize_inv:
  assumes "resize rows columns r = (res, r')" and "data_inv a r"
  shows "data_inv a r'"
  using resize_fields [OF assms(1)]
  by (intro data_inv_view [OF assms(2)]) (auto simp: pending_def)

lemma push_input_view:
  assumes "bq_push (rn_input r) xs = (True, q)" and "data_view h r"
  shows "data_view h (r\<lparr>rn_input := q\<rparr>)"
  using bq.push_True [OF assms(1)] assms(2) by (auto simp: data_view_def bq_wf_def)

lemma apply_active_records_inv:
  "apply_active_records recs r = (res, r') \<Longrightarrow> data_inv a r \<Longrightarrow> data_inv a r'"
proof (induction recs arbitrary: r)
  case Nil
  then show ?case by simp
next
  case (Cons rec recs)
  show ?case
  proof (cases rec)
    case (Input bytes)
    obtain b q where q: "bq_push (rn_input r) bytes = (b, q)" by fastforce
    show ?thesis
    proof (cases b)
      case True
      have "data_inv a (r\<lparr>rn_input := q\<rparr>)"
        using Cons.prems(2) q True push_input_view by (auto intro: data_inv_view)
      with Cons Input q True show ?thesis by simp
    next
      case False
      with Cons.prems Input q show ?thesis by simp
    qed
  next
    case (Resize rows columns)
    obtain q r1 where q: "resize rows columns r = (q, r1)" by fastforce
    with Cons.prems have "data_inv a r1" by (auto intro: resize_inv)
    with Cons Resize q show ?thesis by (cases q) auto
  qed (use Cons.prems in auto)
qed

lemma apply_active_records_fields:
  "apply_active_records recs r = (res, r') \<Longrightarrow>
   \<exists>q p. r' = r\<lparr>rn_input := q, rn_master := p\<rparr> \<and> pty_in p = pty_in (rn_master r)"
proof (induction recs arbitrary: r)
  case Nil
  then show ?case by (intro exI [of _ "rn_input r'"] exI [of _ "rn_master r'"]) simp
next
  case (Cons rec recs)
  have same: ?case if "r' = r"
    using that by (intro exI [of _ "rn_input r"] exI [of _ "rn_master r"]) simp
  show ?case
  proof (cases rec)
    case (Input bytes)
    obtain b q where q: "bq_push (rn_input r) bytes = (b, q)" by fastforce
    show ?thesis
    proof (cases b)
      case True
      with Cons.prems Input q have "apply_active_records recs (r\<lparr>rn_input := q\<rparr>) = (res, r')" by simp
      from Cons.IH [OF this] show ?thesis by auto
    next
      case False
      with Cons.prems Input q same show ?thesis by simp
    qed
  next
    case (Resize rows columns)
    obtain q r1 where q: "resize rows columns r = (q, r1)" by fastforce
    then obtain p where p: "r1 = r\<lparr>rn_master := p\<rparr>" "pty_in p = pty_in (rn_master r)"
      using resize_fields by blast
    show ?thesis
    proof (cases q)
      case (Inl e)
      with Cons.prems Resize q p show ?thesis
        by (intro exI [of _ "rn_input r"] exI [of _ p]) simp
    next
      case (Inr u)
      with Cons.prems Resize q have "apply_active_records recs r1 = (res, r')" by simp
      from Cons.IH [OF this] p show ?thesis by auto
    qed
  qed (use Cons.prems same in auto)
qed

lemma serve_active_inv:
  assumes "serve_active r = (res, r')" and "data_inv a r"
  shows "data_inv a r'"
proof (cases "rn_active r")
  case None
  with assms show ?thesis by (simp add: serve_active_def read_active_def io_simps)
next
  case (Some c)
  obtain q c' where rd: "read_records c = (q, c')" by fastforce
  note rr = read_records_result [OF rd]
  have c': "follows h c'" "is_ok q \<Longrightarrow> settled c'" if "data_view h r" for h
    using that Some rr follows_queued [of c' c h]
    by (auto simp: data_view_def follows_def queue_ok_def queued_def)
  show ?thesis
  proof (cases q)
    case (Inl e)
    with assms(1) Some rd have "r' = drop_active (trace_io_error ''attachment_read_failed'' e (r\<lparr>rn_active := Some c'\<rparr>))"
      by (simp add: serve_active_def read_active_def)
    then show ?thesis
      using c' view_drop_new_active by (intro data_inv_view [OF assms(2)]) simp_all
  next
    case (Inr records)
    let ?r = "r\<lparr>rn_active := Some c'\<rparr>"
    have "data_inv a ?r"
      using c' Inr view_active by (intro data_inv_view [OF assms(2)]) simp_all
    moreover obtain z r2 where z: "apply_active_records records ?r = (z, r2)" by fastforce
    ultimately have "data_inv a r2" by (blast intro: apply_active_records_inv)
    with assms(1) Some rd Inr z show ?thesis
      by (auto simp: serve_active_def read_active_def io_simps data_inv_drop split: sum.splits if_splits)
  qed
qed

lemma quiet_new: "quiet (connection_new (accepted_stream a))" "settled (connection_new (accepted_stream a))"
  by (simp_all add: quiet_def queue_ok_def queued_def connection_new_def accepted_stream_def settled_def)

lemma view_new_candidate:
  "data_view h r \<Longrightarrow> data_view h ((drop_candidate r)\<lparr>rn_candidate := Some (connection_new (accepted_stream x))\<rparr>)"
  using data_view_drop_candidate [of h r] quiet_new by (simp add: data_view_def)

lemma accept_loop_inv: "accept_loop as r = (res, r') \<Longrightarrow> data_inv a r \<Longrightarrow> data_inv a r'"
proof (induction as r arbitrary: res r' rule: accept_loop.induct)
  case (3 x as r)
  have new: "data_inv a ((drop_candidate r1)\<lparr>rn_candidate := Some (connection_new (accepted_stream x))\<rparr>)"
    if "data_inv a r1" for r1
    using that view_new_candidate by (intro data_inv_view [OF that]) simp_all
  show ?case
  proof (cases "peer_uid (ac_peer x)")
    case (Inl e)
    with 3 show ?thesis by auto
  next
    case (Inr peer)
    show ?thesis
    proof (cases "peer = os_uid (rn_os r) \<and> is_ok (ac_nonblocking x)")
      case True
      then obtain u where "ac_nonblocking x = Inr u" by (cases "ac_nonblocking x") simp_all
      with 3 Inr True new show ?thesis
        by (cases "rn_candidate r = None") (simp_all add: Let_def)
    next
      case False
      with 3 Inr show ?thesis
        by (cases "ac_nonblocking x") (auto split: if_splits)
    qed
  qed
qed (auto split: if_splits)

lemma view_activate:
  assumes "data_view h r" and "follows h c" and "settled c"
  shows "data_view h (activate c r)"
proof -
  have "data_view h ((drop_active (trace_event ''attachment_activated'' r1))\<lparr>rn_active := Some c\<rparr>)"
    if "data_view h r1" for r1
    using that assms(2,3) data_view_drop_active [of h "trace_event ''attachment_activated'' r1"]
    by (intro view_active) simp_all
  then show ?thesis using assms(1) by (simp add: activate_def Let_def)
qed

lemma pending_activate [simp]: "pending (activate c r) = pending r"
  by (simp add: activate_def Let_def)

lemma attach_candidate_inv:
  assumes "attach_candidate js rows columns remaining r = (res, r')" and "data_inv a r"
  shows "data_inv a r'"
proof (cases "rn_candidate r")
  case None
  with assms show ?thesis by (simp add: attach_candidate_def)
next
  case (Some c)
  let ?r = "r\<lparr>rn_candidate := None\<rparr>"
  have inv: "data_inv a ?r" by (rule data_inv_view [OF assms(2)]) (simp_all add: view_no_candidate)
  have c: "quiet c" "settled c" using assms(2) Some by (auto simp: data_inv_def data_view_def)
  have close: "data_inv a (r1\<lparr>rn_closed := x # rn_closed r1\<rparr>)"
    if "data_inv a r1" "\<And>h. data_view h r1 \<Longrightarrow> closed_view h x" for r1 x
    using that(2) view_closed by (intro data_inv_view [OF that(1)]) simp_all
  obtain q r1 where rs: "resize rows columns ?r = (q, r1)" by fastforce
  have inv1: "data_inv a r1" by (rule resize_inv [OF rs inv])
  show ?thesis
  proof (cases q)
    case (Inl e)
    with assms(1) Some rs have "r' = r1\<lparr>rn_closed := c # rn_closed r1\<rparr>"
      by (simp add: attach_candidate_def Let_def)
    then show ?thesis using close [OF inv1] quiet_closed [OF c(1)] by simp
  next
    case (Inr u)
    obtain h where h: "data_view h r1" "a = h @ pending r1" using inv1 by (auto simp: data_inv_def)
    then obtain c' where c': "enqueue_replay (rn_tail r1) c = (Inr (), c')" "queue_ok c'"
      "c_decoder c' = c_decoder c" "carries (replay h) c'"
      using enqueue_replay_result [OF c(1), of "rn_tail r1" h] by (auto simp: data_view_def)
    have settled: "settled c'" using c(2) c'(3) by (simp add: settled_def)
    have f: "follows h c'"
      using c'(2,4) unfolding follows_def by (intro conjI exI [of _ h] exI [of _ "[]"]) simp_all
    obtain z r2 where z: "apply_active_records remaining r1 = (z, r2)" by fastforce
    have inv2: "data_inv a r2" by (rule apply_active_records_inv [OF z inv1])
    have "pending r2 = pending r1"
      using apply_active_records_fields [OF z] by (auto simp: pending_def)
    then have h2: "data_view h r2" using inv2 h(2) by (auto simp: data_inv_def)
    have r': "(res, r') = (case z of
        Inl e \<Rightarrow> (Inl e, r2\<lparr>rn_closed := c' # rn_closed r2\<rparr>)
      | Inr ok \<Rightarrow> if ok then write_attached js True (activate c' r2)
                  else (Inr (), r2\<lparr>rn_closed := c' # rn_closed r2\<rparr>))"
      using assms(1) Some rs Inr c'(1) z by (simp add: attach_candidate_def Let_def split: sum.splits bool.splits)
    have closed: "data_inv a (r2\<lparr>rn_closed := c' # rn_closed r2\<rparr>)"
      using view_closed [OF h2 follows_closed [OF f]] h(2) \<open>pending r2 = pending r1\<close>
      unfolding data_inv_def by (intro exI [of _ h]) simp
    have active: "data_inv a (activate c' r2)"
      using view_activate [OF h2 f settled] h(2) \<open>pending r2 = pending r1\<close>
      unfolding data_inv_def by (intro exI [of _ h]) simp
    show ?thesis
      using r' closed active data_inv_write_attached [of js True "activate c' r2" res r']
      by (auto split: sum.splits if_splits)
  qed
qed

lemma candidate_records_inv:
  assumes "candidate_records js records r = (res, r')" and "data_inv a r"
  shows "data_inv a r'"
proof -
  have rejected: "data_inv a (drop_candidate (trace_event ev r))" for ev
    using assms(2) by (simp add: data_inv_drop)
  from assms(1) consider "r' = r" | ev where "r' = drop_candidate (trace_event ev r)"
    | ev where "r' = (drop_candidate (trace_event ev r))\<lparr>rn_stop := True\<rparr>"
    | rows columns remaining where "attach_candidate js rows columns remaining r = (res, r')"
    unfolding candidate_records_def by (auto split: list.splits ipc_record.splits)
  then show ?thesis
    using assms(2) rejected attach_candidate_inv by cases simp_all
qed

lemma view_candidate:
  "data_view h r \<Longrightarrow> quiet c \<Longrightarrow> settled c \<Longrightarrow> data_view h (r\<lparr>rn_candidate := Some c\<rparr>)"
  by (simp add: data_view_def)

lemma view_drop_new_candidate:
  "data_view h r \<Longrightarrow> quiet c \<Longrightarrow> data_view h (drop_candidate (r\<lparr>rn_candidate := Some c\<rparr>))"
  by (simp add: data_view_def drop_candidate_def quiet_closed)

lemma candidate_step_inv:
  assumes "candidate_step js r = (res, r')" and "data_inv a r"
  shows "data_inv a r'"
proof (cases "rn_candidate r")
  case None
  with assms show ?thesis by (simp add: candidate_step_def read_candidate_def candidate_records_def)
next
  case (Some c)
  obtain q c' where rd: "read_records c = (q, c')" by fastforce
  have c: "quiet c" "settled c" using assms(2) Some by (auto simp: data_inv_def data_view_def)
  then have c': "quiet c'" "is_ok q \<Longrightarrow> settled c'"
    using read_records_result [OF rd] by (auto simp: quiet_def queue_ok_def queued_def)
  show ?thesis
  proof (cases q)
    case (Inl e)
    with assms(1) Some rd
    have "r' = drop_candidate (trace_io_error ''candidate_read_failed'' e (r\<lparr>rn_candidate := Some c'\<rparr>))"
      by (simp add: candidate_step_def read_candidate_def)
    then show ?thesis
      using c'(1) view_drop_new_candidate by (intro data_inv_view [OF assms(2)]) simp_all
  next
    case (Inr records)
    have "data_inv a (r\<lparr>rn_candidate := Some c'\<rparr>)"
      using c' Inr view_candidate by (intro data_inv_view [OF assms(2)]) simp_all
    moreover have "candidate_records js records (r\<lparr>rn_candidate := Some c'\<rparr>) = (res, r')"
      using assms(1) Some rd Inr by (simp add: candidate_step_def read_candidate_def)
    ultimately show ?thesis by (blast intro: candidate_records_inv)
  qed
qed

section \<open>A tick\<close>

interpretation stream: runner_relation
  "\<lambda>r r'. \<forall>a. data_inv a r \<longrightarrow> data_inv a r'" "\<lambda>r r'. \<forall>a. data_inv a r \<longrightarrow> data_inv a r'"
proof (unfold_locales, goal_cases)
  case (8 r bytes rd)
  then show ?case using something_read_inv by blast
next
  case (16 r r1)
  then show ?case by (simp add: data_inv_drop data_inv_drop_files)
qed (use nothing_read_inv flush_input_inv flush_active_inv serve_active_inv accept_loop_inv candidate_step_inv
    in \<open>auto simp: data_inv_drop accept_candidate_def\<close>)

lemma drain_pty_inv: "drain_pty r = (res, r') \<Longrightarrow> data_inv a r \<Longrightarrow> data_inv a r'"
  using stream.drain_whole by blast

lemma drain_step_inv: "drain_step js r = (res, r') \<Longrightarrow> data_inv a r \<Longrightarrow> data_inv a r'"
  using stream.drain_first by blast

lemma events_step_inv:
  "events_step js master listener cand active r = (res, r') \<Longrightarrow> data_inv a r \<Longrightarrow> data_inv a r'"
  using stream.events [of js master listener cand active r res r'] by (simp add: stream.via_def)

lemma runner_try_wait_inv: "runner_try_wait r = (res, r') \<Longrightarrow> data_inv a r' = data_inv a r"
  by (auto simp: runner_try_wait_def split: prod.splits)

lemma runner_tick_inv: "runner_tick js answer r = (Again, r') \<Longrightarrow> data_inv a r \<Longrightarrow> data_inv a r'"
  using stream.tick_again by blast

section \<open>Reachable states\<close>

inductive runner_step :: "json \<Rightarrow> runner \<Rightarrow> runner \<Rightarrow> bool" for js where
  tick: "runner_tick js answer r = (Again, r') \<Longrightarrow> runner_step js r r'"

inductive_cases runner_stepE [elim]: "runner_step js r r'"

lemma run_event_loop_reachable:
  "run_event_loop js answers r = (Again, r') \<Longrightarrow> (runner_step js)\<^sup>*\<^sup>* r r'"
proof (induction answers arbitrary: r)
  case (Cons answer answers)
  obtain q r1 where t: "runner_tick js answer r = (q, r1)" by fastforce
  with Cons.prems have "q = Again" by (cases q) auto
  with t Cons have "runner_step js r r1" "(runner_step js)\<^sup>*\<^sup>* r1 r'"
    by (auto intro: runner_step.tick)
  then show ?case by (rule converse_rtranclp_into_rtranclp)
qed simp

interpretation stream_steps: step_system "runner_step js" "data_inv a" for js a
  by unfold_locales (auto intro: runner_tick_inv)

text \<open>The state \<open>run_event_loop\<close> starts its loop with.\<close>

definition fresh_runner :: "runner \<Rightarrow> bool" where
  "fresh_runner r \<longleftrightarrow>
     rn_tail r = tail_new OUTPUT_TAIL_BYTES \<and> rn_input r = bq_new MAX_ATTACHMENT_QUEUE_BYTES \<and>
     rn_active r = None \<and> rn_candidate r = None \<and> rn_closed r = [] \<and> \<not> rn_stop r"

lemma fresh_data_view: "fresh_runner r \<Longrightarrow> data_view [] r"
  by (simp add: fresh_runner_def data_view_def tail_new_stands_for isize_max_def limits)

lemma fresh_data_inv: "fresh_runner r \<Longrightarrow> data_inv (pending r) r"
  unfolding data_inv_def by (rule exI [of _ "[]"]) (simp add: fresh_data_view)

lemma run_data_inv:
  "fresh_runner r0 \<Longrightarrow> run_event_loop js answers r0 = (Again, r) \<Longrightarrow> data_inv (pending r0) r"
  by (rule stream_steps.reachable_good [OF run_event_loop_reachable fresh_data_inv])

lemma decode_output_frames:
  assumes "\<forall>p \<in> set pieces. length p \<le> MAX_IPC_PAYLOAD_BYTES"
  shows "decode_all \<lparr>buffer = output_frames pieces\<rparr> = (Inr (map Output pieces), \<lparr>buffer = []\<rparr>)"
proof -
  have "output_frames pieces = concat (map record_frame (map Output pieces)) @ []"
    by (simp add: output_frames_def comp_def)
  moreover have "ipc_drain (concat (map record_frame (map Output pieces)) @ []) = (Inr (map Output pieces), [])"
    using assms by (intro ipc.drain_frames ipc.next_nil) auto
  ultimately show ?thesis by (simp add: decode_all_ipc_drain)
qed

section \<open>Properties\<close>

text \<open>
  C10: Whatever happened before, what has been written and queued for the attached client
  decodes to output records whose bytes are: the truncation marker if more than 256 KiB had
  been produced when it attached, the last 256 KiB of that output, and all output since.
\<close>

theorem attached_client_sees_replay_then_live:
  assumes "fresh_runner r0" and "run_event_loop js answers r0 = (Again, r)" and "rn_active r = Some c"
  shows "\<exists>seen later outs. pending r0 = seen @ later @ pending r \<and>
    decode_all \<lparr>buffer = sink (s_out (c_stream c)) @ bq_contents (c_output c)\<rparr> =
      (Inr (map Output outs), \<lparr>buffer = []\<rparr>) \<and>
    concat outs = (if 262144 < length seen then TRUNCATION_MARKER else []) @ last_bytes 262144 seen @ later"
proof -
  obtain h where h: "pending r0 = h @ pending r" "follows h c"
    using run_data_inv [OF assms(1,2)] assms(3) by (auto simp: data_inv_def data_view_def)
  then obtain seen later pieces where p: "h = seen @ later" "concat pieces = replay seen @ later"
    "queued c = output_frames pieces" "\<forall>p \<in> set pieces. length p \<le> MAX_IPC_PAYLOAD_BYTES"
    by (auto simp: follows_def carries_def)
  show ?thesis
    using h(1) p decode_output_frames [OF p(4)]
    by (intro exI [of _ seen] exI [of _ later] exI [of _ pieces])
      (simp add: queued_def [symmetric] replay_def limits)
qed

text \<open>
  C28: The ring stands for all output so far whether or not anybody is attached, and every
  buffer of the runner stays within its limit: the ring within 256 KiB, the input queue and
  the queues of both connections within 1 MiB, with room left in both decoders.
\<close>

theorem runner_memory_is_bounded:
  assumes "fresh_runner r0" and "run_event_loop js answers r0 = (Again, r)"
  shows "\<exists>history. pending r0 = history @ pending r \<and>
    tail_snapshot (rn_tail r) = last_bytes 262144 history \<and>
    (tail_is_truncated (rn_tail r) \<longleftrightarrow> 262144 < length history) \<and>
    length (tail_snapshot (rn_tail r)) \<le> 262144 \<and> length (bq_contents (rn_input r)) \<le> 1048576 \<and>
    (\<forall>c. rn_active r = Some c \<or> rn_candidate r = Some c \<longrightarrow>
       length (bq_contents (c_output c)) \<le> 1048576 \<and> 0 < remaining_capacity (c_decoder c))"
proof -
  obtain h where h: "pending r0 = h @ pending r" "data_view h r"
    using run_data_inv [OF assms] by (auto simp: data_inv_def)
  have "length (bq_contents (c_output c)) \<le> 1048576 \<and> 0 < remaining_capacity (c_decoder c)"
    if "rn_active r = Some c \<or> rn_candidate r = Some c" for c
  proof -
    have "queue_ok c" "settled c" using that h(2) by (auto simp: data_view_def follows_def quiet_def)
    then show ?thesis
      using decoder_settled_capacity by (simp add: queue_ok_def bq_wf_def settled_def limits)
  qed
  then show ?thesis
    using h by (intro exI [of _ h])
      (auto simp: data_view_def tail.stands_for_def tail_wf_def tail_snapshot_def bq_wf_def limits)
qed

section \<open>A run\<close>

definition sample_client :: accepted where
  "sample_client = \<lparr>ac_in = \<lparr>read_plan = [Data (record_frame (Attach 24 80))], when_dry = Would_block\<rparr>,
     ac_write_plan = [], ac_peer = Inr (1000, 1000), ac_nonblocking = Inr ()\<rparr>"

definition sample_runner :: runner where
  "sample_runner = \<lparr>rn_session = sample_session, rn_registry = sample_registry, rn_paths = sample_paths,
     rn_runner_pid = 2, rn_child_pid = 7, rn_started_at = 10,
     rn_master = \<lparr>pty_in = \<lparr>read_plan = [Data [104, 105]], when_dry = Would_block\<rparr>, pty_out = vec_writer,
       pty_size = \<lparr>ws_row = 24, ws_col = 80, ws_xpixel = 0, ws_ypixel = 0\<rparr>, pty_resize_plan = []\<rparr>,
     rn_child = stubborn_child, rn_accepts = [Accepted sample_client], rn_trace = None,
     rn_tail = tail_new OUTPUT_TAIL_BYTES, rn_input = bq_new MAX_ATTACHMENT_QUEUE_BYTES,
     rn_active = None, rn_candidate = None, rn_stop = False, rn_now = 0, rn_os = sample_os, rn_closed = []\<rparr>"

definition no_flags :: poll_flags where
  "no_flags = \<lparr>pf_in = False, pf_out = False, pf_hup = False, pf_err = False\<rparr>"

definition poll_accept :: poll_answer where
  "poll_accept = \<lparr>pa_result = Inr (no_flags, no_flags\<lparr>pf_in := True\<rparr>, no_flags, no_flags),
     pa_elapsed = 1, pa_clock = 100\<rparr>"

definition poll_candidate :: poll_answer where
  "poll_candidate = \<lparr>pa_result = Inr (no_flags, no_flags, no_flags\<lparr>pf_in := True\<rparr>, no_flags),
     pa_elapsed = 1, pa_clock = 100\<rparr>"

lemma sample_runner_fresh [simp]: "fresh_runner sample_runner"
  by (simp add: fresh_runner_def sample_runner_def)

lemma drain_loop_dry:
  "read_plan (pty_in (rn_master r)) = [] \<Longrightarrow> when_dry (pty_in (rn_master r)) = Would_block \<Longrightarrow>
   n < MAX_PTY_BYTES_PER_TICK \<Longrightarrow> drain_loop n r = (Inr (), r)"
  by (subst drain_loop.simps) (simp add: read_once_def set_pty_reader_def)

definition sample_drained :: runner where
  "sample_drained = deliver [104, 105] (set_pty_reader \<lparr>read_plan = [], when_dry = Would_block\<rparr> sample_runner)"

lemma sample_drain: "drain_pty sample_runner = (Inr (), sample_drained)"
proof -
  have "drain_pty sample_runner = drain_loop (Suc (Suc 0)) sample_drained"
    unfolding drain_pty_def
    by (subst drain_loop.simps)
      (simp add: sample_runner_def read_once_def limits sample_drained_def)
  also have "\<dots> = (Inr (), sample_drained)"
    by (rule drain_loop_dry) (simp_all add: sample_drained_def set_pty_reader_def limits)
  finally show ?thesis .
qed

lemma sample_drained_fields:
  "rn_active sample_drained = None" "rn_candidate sample_drained = None" "rn_trace sample_drained = None"
  "rn_child sample_drained = stubborn_child" "rn_now sample_drained = 0" "rn_os sample_drained = sample_os"
  "rn_accepts sample_drained = [Accepted sample_client]" "rn_stop sample_drained = False"
  "rn_input sample_drained = bq_new MAX_ATTACHMENT_QUEUE_BYTES" "rn_paths sample_drained = sample_paths"
  "read_plan (pty_in (rn_master sample_drained)) = []" "when_dry (pty_in (rn_master sample_drained)) = Would_block"
  "pty_resize_plan (rn_master sample_drained) = []"
  by (simp_all add: sample_drained_def deliver_def set_pty_reader_def sample_runner_def Let_def)

lemma stubborn_lives: "try_wait (stubborn_child, now) = (Inr None, (stubborn_child, now))"
  by (simp add: try_wait_def next_failure_def stubborn_child_def child_end_def)

lemma trace_none: "rn_trace r = None \<Longrightarrow> trace_event ev r = r"
  by (simp add: trace_event_def trace_entry_def)

definition sample_accepted :: runner where
  "sample_accepted = sample_drained\<lparr>rn_now := 1, rn_os := sample_os\<lparr>clock := 100\<rparr>, rn_accepts := [],
     rn_candidate := Some (connection_new (accepted_stream sample_client))\<rparr>"

lemma sample_tick1: "runner_tick sample_json poll_accept sample_runner = (Again, sample_accepted)"
proof -
  have "drain_step sample_json sample_runner = (Inr (), sample_drained)"
    by (simp add: drain_step_def io_try_apply sample_drain) (simp add: sample_runner_def)
  moreover have "runner_try_wait sample_drained = (Inr None, sample_drained)"
    by (simp add: runner_try_wait_def sample_drained_fields stubborn_lives)
  ultimately show ?thesis
    by (simp add: runner_tick_def poll_accept_def events_step_def io_try_apply io_ok_apply
        sample_drained_fields no_flags_def Let_def accept_candidate_def sample_accepted_def)
      (simp add: sample_client_def trace_none sample_drained_fields sample_os_def drop_candidate_def io_ok_apply)
qed

lemma sample_accepted_fields:
  "rn_active sample_accepted = None" "rn_trace sample_accepted = None"
  "rn_candidate sample_accepted = Some (connection_new (accepted_stream sample_client))"
  "rn_child sample_accepted = stubborn_child" "rn_now sample_accepted = 1"
  "rn_os sample_accepted = sample_os\<lparr>clock := 100\<rparr>" "rn_stop sample_accepted = False"
  "bq_contents (rn_input sample_accepted) = []" "rn_paths sample_accepted = sample_paths"
  "rn_master sample_accepted = rn_master sample_drained" "rn_tail sample_accepted = rn_tail sample_drained"
  by (simp_all add: sample_accepted_def sample_drained_fields)

lemma read_records_whole:
  assumes "buffer (c_decoder c) = []" and "read_once IO_CHUNK_BYTES (s_in (c_stream c)) = (Inr f, rd)"
    and "f \<noteq> []" and "length f \<le> MAX_IPC_RECORD_BYTES" and "decode_all \<lparr>buffer = f\<rparr> = (Inr rs, d)"
  shows "\<exists>c'. read_records c = (Inr rs, c')"
proof -
  have cap: "remaining_capacity (c_decoder c) = MAX_IPC_RECORD_BYTES"
    using assms(1) by (simp add: remaining_capacity_def)
  have "decoder_push (c_decoder c) f = (Inr (), \<lparr>buffer = f\<rparr>)"
    using assms(1,4) cap by (cases "c_decoder c") (simp add: decoder_push_def)
  moreover have "min MAX_IPC_RECORD_BYTES IO_CHUNK_BYTES = IO_CHUNK_BYTES" "IO_CHUNK_BYTES \<noteq> 0"
    by (simp_all add: limits)
  ultimately show ?thesis
    using assms(2,3,5) cap by (simp add: read_records_def Let_def)
qed

lemma sample_clean_clock: "clean_directory sample_registry (sample_os\<lparr>clock := t\<rparr>)" "no_faults (sample_os\<lparr>clock := t\<rparr>)"
proof -
  have "look (sample_os\<lparr>clock := t\<rparr>) = look sample_os" by (simp add: look_def fun_eq_iff)
  moreover have "temporary_path p (sample_os\<lparr>clock := t\<rparr>) = temporary_path p sample_os" for p
    by (simp add: temporary_path_def)
  ultimately show "clean_directory sample_registry (sample_os\<lparr>clock := t\<rparr>)"
    using sample_clean by (simp add: clean_directory_def not_directory_def)
qed (use sample_no_faults in \<open>simp add: no_faults_def\<close>)

lemma sample_read_candidate:
  "\<exists>c. read_records (connection_new (accepted_stream sample_client)) = (Inr [Attach 24 80], c) \<and>
     quiet c \<and> settled c"
proof -
  let ?c = "connection_new (accepted_stream sample_client)"
  let ?f = "record_frame (Attach 24 80)"
  have len: "length ?f = 9" by (simp add: length_record_frame limits)
  have "decode_all \<lparr>buffer = ?f\<rparr> = (Inr [Attach 24 80], \<lparr>buffer = []\<rparr>)"
    using ipc.drain_frames [of "[Attach 24 80]" "[]"] ipc.next_nil
    by (simp add: decode_all_ipc_drain valid_dimension_def limits)
  moreover have "read_once IO_CHUNK_BYTES (s_in (c_stream ?c)) = (Inr ?f, \<lparr>read_plan = [], when_dry = Would_block\<rparr>)"
    using len by (simp add: read_once_def connection_new_def accepted_stream_def sample_client_def limits)
  moreover have "?f \<noteq> []" using len by auto
  ultimately obtain c where c: "read_records ?c = (Inr [Attach 24 80], c)"
    using read_records_whole [of ?c ?f] len
    by (auto simp: connection_new_def decoder_default_def limits)
  then show ?thesis
    using read_records_result [OF c] quiet_new [of sample_client] by (simp add: quiet_def queue_ok_def queued_def)
qed

definition sample_polled :: runner where
  "sample_polled = sample_accepted\<lparr>rn_now := 2, rn_os := sample_os\<lparr>clock := 100\<rparr>\<rparr>"

lemma sample_polled_fields:
  "rn_active sample_polled = None" "rn_trace sample_polled = None"
  "rn_candidate sample_polled = Some (connection_new (accepted_stream sample_client))"
  "rn_os sample_polled = sample_os\<lparr>clock := 100\<rparr>" "rn_stop sample_polled = False"
  "bq_contents (rn_input sample_polled) = []" "rn_paths sample_polled = sample_paths"
  "rn_master sample_polled = rn_master sample_drained" "rn_tail sample_polled = rn_tail sample_drained"
  by (simp_all add: sample_polled_def sample_accepted_fields)

lemma sample_resize: "\<exists>r. resize 24 80 (sample_polled\<lparr>rn_candidate := None\<rparr>) = (Inr (), r)"
  by (simp add: resize_def set_window_size_def validate_dimensions_def limits tcsetwinsize_def
      sample_polled_fields sample_drained_fields)

lemma sample_tail_stands: "data_view [104, 105] sample_drained"
proof -
  have "data_view [] sample_runner" by (rule fresh_data_view) simp
  then have "data_view [] (set_pty_reader \<lparr>read_plan = [], when_dry = Would_block\<rparr> sample_runner)"
    unfolding data_view_reader .
  from deliver_view [OF this, of "[104, 105]"] show ?thesis
    by (simp only: sample_drained_def append_Nil)
qed

lemma sample_attach:
  "\<exists>r c. candidate_step sample_json sample_polled = (Inr (), r) \<and> rn_active r = Some c \<and> \<not> rn_stop r"
proof -
  obtain c where c: "read_records (connection_new (accepted_stream sample_client)) = (Inr [Attach 24 80], c)"
    "quiet c" using sample_read_candidate by blast
  obtain r2 where r2: "resize 24 80 (sample_polled\<lparr>rn_candidate := None\<rparr>) = (Inr (), r2)"
    using sample_resize by blast
  have fields: "rn_tail r2 = rn_tail sample_drained" "rn_active r2 = None" "rn_trace r2 = None"
    "rn_os r2 = sample_os\<lparr>clock := 100\<rparr>" "rn_paths r2 = sample_paths" "rn_stop r2 = False"
    using resize_fields [OF r2] by (auto simp: sample_polled_fields)
  obtain c' where c': "enqueue_replay (rn_tail r2) c = (Inr (), c')"
    using enqueue_replay_result [OF c(2), of "rn_tail r2" "[104, 105]"] fields(1) sample_tail_stands
    by (auto simp: data_view_def)
  let ?r3 = "r2\<lparr>rn_active := Some c'\<rparr>"
  have act: "activate c' r2 = ?r3"
    using fields by (simp add: activate_def Let_def trace_none drop_active_def)
  have vec: "to_vec sample_json (runner_metadata ?r3 True) = Some (bs ''live'')"
    by (simp add: sample_json_def runner_metadata_def live_metadata_def)
  obtain t where "atomic_write (p_metadata sample_paths) (bs ''live'') (sample_os\<lparr>clock := 100\<rparr>) = (Inr (), t)"
    by (rule clean_write [OF sample_clean_clock session_key_paths(1) [OF sample_session_wf]])
  then have w: "write_attached sample_json True ?r3 = (Inr (), ?r3\<lparr>rn_os := t\<rparr>)"
    using fields vec
    by (simp add: write_attached_def on_os_def write_metadata_def sample_length MAX_METADATA_BYTES_def)
  have "attach_candidate sample_json 24 80 [] (sample_polled\<lparr>rn_candidate := Some c\<rparr>) = (Inr (), ?r3\<lparr>rn_os := t\<rparr>)"
    using r2 c' w act by (simp add: attach_candidate_def Let_def)
  then have "candidate_step sample_json sample_polled = (Inr (), ?r3\<lparr>rn_os := t\<rparr>)"
    using c(1) by (simp add: candidate_step_def read_candidate_def sample_polled_fields candidate_records_def)
  then show ?thesis using fields(6) by simp
qed

lemma sample_tick2:
  "\<exists>r c. runner_tick sample_json poll_candidate sample_accepted = (Again, r) \<and> rn_active r = Some c"
proof -
  obtain r c where cs: "candidate_step sample_json sample_polled = (Inr (), r)" "rn_active r = Some c" "\<not> rn_stop r"
    using sample_attach by blast
  have "drain_pty sample_accepted = (Inr (), sample_accepted)"
    unfolding drain_pty_def
    by (rule drain_loop_dry) (simp_all add: sample_accepted_fields sample_drained_fields limits)
  then have d: "drain_step sample_json sample_accepted = (Inr (), sample_accepted)"
    by (simp add: drain_step_def io_try_apply sample_accepted_fields)
  have w: "runner_try_wait sample_accepted = (Inr None, sample_accepted)"
    by (simp add: runner_try_wait_def sample_accepted_fields stubborn_lives)
  have e: "events_step sample_json no_flags no_flags (no_flags\<lparr>pf_in := True\<rparr>) no_flags sample_polled = (Inr (), r)"
    using cs(1)
    by (simp add: events_step_def io_try_apply io_ok_apply no_flags_def readable_def sample_polled_fields Let_def)
  have "sample_accepted\<lparr>rn_now := rn_now sample_accepted + 1, rn_os := (rn_os sample_accepted)\<lparr>clock := 100\<rparr>\<rparr> = sample_polled"
    by (simp add: sample_polled_def sample_accepted_fields)
  then have "runner_tick sample_json poll_candidate sample_accepted = (Again, r)"
    using d w e cs(3) by (simp add: runner_tick_def poll_candidate_def Let_def)
  then show ?thesis using cs(2) by blast
qed

lemma sample_run:
  obtains r c where "run_event_loop sample_json [poll_accept, poll_candidate] sample_runner = (Again, r)"
    "rn_active r = Some c"
  using sample_tick1 sample_tick2 by auto

lemma attached_client_sees_replay_then_live_witness:
  "\<exists>r c outs. run_event_loop sample_json [poll_accept, poll_candidate] sample_runner = (Again, r) \<and>
     rn_active r = Some c \<and>
     decode_all \<lparr>buffer = sink (s_out (c_stream c)) @ bq_contents (c_output c)\<rparr> =
       (Inr (map Output outs), \<lparr>buffer = []\<rparr>)"
proof -
  obtain r c where r: "run_event_loop sample_json [poll_accept, poll_candidate] sample_runner = (Again, r)"
    "rn_active r = Some c" by (rule sample_run)
  from attached_client_sees_replay_then_live [OF sample_runner_fresh r] r show ?thesis by blast
qed

lemma runner_memory_is_bounded_witness:
  "\<exists>r c. run_event_loop sample_json [poll_accept, poll_candidate] sample_runner = (Again, r) \<and>
     rn_active r = Some c \<and> length (bq_contents (c_output c)) \<le> 1048576 \<and> 0 < remaining_capacity (c_decoder c)"
proof -
  obtain r c where r: "run_event_loop sample_json [poll_accept, poll_candidate] sample_runner = (Again, r)"
    "rn_active r = Some c" by (rule sample_run)
  from runner_memory_is_bounded [OF sample_runner_fresh r(1)] r show ?thesis by blast
qed

end
