(* ===== verification/Runner_Record.thy ===== *)
theory Runner_Record
  imports Runner_Stream
begin

text \<open>
  The record of a session on disk: while the runner lives, its metadata says whether a
  client is attached; when it has ended, the completed record stands for the output.
\<close>

section \<open>Steps that only trace\<close>

definition same_session :: "runner \<Rightarrow> runner \<Rightarrow> bool" where
  "same_session r r' \<longleftrightarrow> rn_session r' = rn_session r \<and> rn_registry r' = rn_registry r \<and> rn_paths r' = rn_paths r \<and>
     rn_runner_pid r' = rn_runner_pid r \<and> rn_child_pid r' = rn_child_pid r \<and> rn_started_at r' = rn_started_at r"

definition trace_ok :: "runner \<Rightarrow> bool" where
  "trace_ok r \<longleftrightarrow> (\<forall>t. rn_trace r = Some t \<longrightarrow> tr_path t = p_trace (rn_paths r))"

definition traces_only :: "runner \<Rightarrow> runner \<Rightarrow> bool" where
  "traces_only r r' \<longleftrightarrow> same_session r r' \<and>
     (trace_ok r \<longrightarrow> trace_ok r' \<and> changes_only {p_trace (rn_paths r)} (rn_os r) (rn_os r'))"

named_theorems tracing "steps that change the file system by tracing only"

lemma traces_only_refl [tracing, simp]: "traces_only r r"
  by (simp add: traces_only_def same_session_def)

lemma traces_only_trans: "traces_only r s \<Longrightarrow> traces_only s t \<Longrightarrow> traces_only r t"
  unfolding traces_only_def same_session_def by (auto intro: changes_only_trans)

lemma traces_only_fields:
  "same_session r r' \<Longrightarrow> rn_trace r' = rn_trace r \<Longrightarrow> rn_os r' = rn_os r \<Longrightarrow> traces_only r r'"
  by (simp add: traces_only_def trace_ok_def same_session_def)

lemma traces_only_entry [tracing]: "traces_only r (trace_entry e r)"
proof (cases "rn_trace r")
  case None
  then show ?thesis by (simp add: trace_entry_def)
next
  case (Some t)
  obtain t' s' where "trace_record e t (rn_os r) = (t', s')" by fastforce
  with Some trace_record_keeps [of e t "rn_os r" t' s'] show ?thesis
    by (auto simp: trace_entry_def traces_only_def same_session_def trace_ok_def)
qed

lemma traces_only_traces [tracing]:
  "traces_only r (trace_event ev r)" "traces_only r (trace_io_error ev err r)"
  "traces_only r (trace_process_exit ex r)"
  using trace_is_entry(1) [of ev] trace_is_entry(2) [of ev err] trace_is_entry(3) [of ex] traces_only_entry
  by auto

lemma traces_only_updates [tracing]:
  "traces_only r (drop_active r)" "traces_only r (drop_candidate r)" "traces_only r (set_pty_reader rd r)"
  "traces_only r (deliver bytes r)"
  by (rule traces_only_fields; auto simp: same_session_def set_pty_reader_def deliver_def Let_def drop_active_def
      drop_candidate_def split: option.splits prod.splits sum.splits)+

lemma traces_only_update:
  "traces_only r (r\<lparr>rn_active := x\<rparr>)" "traces_only r (r\<lparr>rn_candidate := x\<rparr>)" "traces_only r (r\<lparr>rn_closed := cs\<rparr>)"
  "traces_only r (r\<lparr>rn_input := q\<rparr>)" "traces_only r (r\<lparr>rn_master := p\<rparr>)" "traces_only r (r\<lparr>rn_accepts := a\<rparr>)"
  "traces_only r (r\<lparr>rn_child := ch\<rparr>)" "traces_only r (r\<lparr>rn_now := n\<rparr>)" "traces_only r (r\<lparr>rn_stop := b\<rparr>)"
  by (rule traces_only_fields; simp add: same_session_def)+

text \<open>The same, one step after others.\<close>

lemma then_traces:
  assumes "traces_only r s"
  shows "traces_only r (trace_event ev s)" "traces_only r (trace_io_error ev err s)"
    "traces_only r (trace_process_exit ex s)" "traces_only r (drop_active s)" "traces_only r (drop_candidate s)"
    "traces_only r (set_pty_reader rd s)" "traces_only r (deliver bytes s)" "traces_only r (s\<lparr>rn_active := x\<rparr>)"
    "traces_only r (s\<lparr>rn_candidate := x\<rparr>)" "traces_only r (s\<lparr>rn_closed := cs\<rparr>)"
    "traces_only r (s\<lparr>rn_stop := b\<rparr>)" "traces_only r (s\<lparr>rn_accepts := a\<rparr>)"
  by (rule traces_only_trans [OF assms], simp add: tracing traces_only_update)+

text \<open>What the steps of the loop over the terminal's output keep, the whole loop keeps.\<close>

lemma drain_loop_keeps:
  assumes "\<And>x rd. P x \<Longrightarrow> P (set_pty_reader rd x)" and "\<And>x bytes. P x \<Longrightarrow> P (deliver bytes x)"
    and "\<And>x ev. P x \<Longrightarrow> P (trace_event ev x)" and "\<And>x ev e. P x \<Longrightarrow> P (trace_io_error ev e x)"
  shows "drain_loop n r = (res, r') \<Longrightarrow> P r \<Longrightarrow> P r'"
proof (induction n r arbitrary: res r' rule: drain_loop.induct)
  case (1 n r)
  obtain q rd where rd: "read_once IO_CHUNK_BYTES (pty_in (rn_master r)) = (q, rd)" by fastforce
  let ?r = "set_pty_reader rd r"
  have r: "P ?r" using assms(1) "1.prems"(2) .
  show ?case
  proof (cases "n < MAX_PTY_BYTES_PER_TICK")
    case False
    with "1.prems" show ?thesis by (simp add: drain_loop.simps [of n r])
  next
    case busy: True
    show ?thesis
    proof (cases q)
      case (Inl e)
      show ?thesis
      proof (cases "err_kind e = WouldBlock \<or> raw_os_error e = Some EIO \<or> err_kind e \<noteq> Interrupted")
        case True
        with "1.prems" busy rd Inl r assms(4) show ?thesis
          by (auto simp: drain_loop.simps [of n r] split: if_splits)
      next
        case False
        with "1.prems" busy rd Inl have "drain_loop n ?r = (res, r')" by (simp add: drain_loop.simps [of n r])
        with "1.IH"(1) [OF busy rd [symmetric] Inl] False r show ?thesis by simp
      qed
    next
      case (Inr bytes)
      show ?thesis
      proof (cases "bytes = []")
        case True
        with "1.prems" busy rd Inr r assms(3) show ?thesis by (auto simp: drain_loop.simps [of n r])
      next
        case False
        with "1.prems" busy rd Inr have "drain_loop (n + length bytes) (deliver bytes ?r) = (res, r')"
          by (simp add: drain_loop.simps [of n r])
        with "1.IH"(2) [OF busy rd [symmetric] Inr False] r assms(2) show ?thesis by simp
      qed
    qed
  qed
qed

lemma deliver_active_None: "rn_active r = None \<Longrightarrow> rn_active (deliver bytes r) = None"
  by (simp add: deliver_def Let_def)

lemma set_pty_reader_fields [simp]:
  "rn_active (set_pty_reader rd r) = rn_active r" "rn_child (set_pty_reader rd r) = rn_child r"
  "rn_now (set_pty_reader rd r) = rn_now r" "rn_os (set_pty_reader rd r) = rn_os r"
  by (simp_all add: set_pty_reader_def)

lemma deliver_fields [simp]:
  "rn_child (deliver bytes r) = rn_child r" "rn_now (deliver bytes r) = rn_now r" "rn_os (deliver bytes r) = rn_os r"
  by (auto simp: deliver_def Let_def split: option.splits prod.splits sum.splits)

lemma trace_child_fields [simp]:
  "rn_child (trace_entry t r) = rn_child r" "rn_now (trace_entry t r) = rn_now r"
  "rn_child (trace_event ev r) = rn_child r" "rn_now (trace_event ev r) = rn_now r"
  "rn_child (trace_io_error ev e r) = rn_child r" "rn_now (trace_io_error ev e r) = rn_now r"
  by (auto simp: trace_event_def trace_io_error_def trace_entry_def split: option.splits prod.splits)

lemma drain_pty_traces:
  assumes "drain_pty r = (res, r')"
  shows "traces_only r r'" and "rn_active r = None \<Longrightarrow> rn_active r' = None"
    and "rn_child r' = rn_child r" and "rn_now r' = rn_now r"
proof -
  have "traces_only r r' \<and> (rn_active r = None \<longrightarrow> rn_active r' = None) \<and> rn_child r' = rn_child r \<and> rn_now r' = rn_now r"
    by (rule drain_loop_keeps [OF _ _ _ _ assms [unfolded drain_pty_def]])
      (auto simp: then_traces deliver_active_None)
  then show "traces_only r r'" "rn_active r = None \<Longrightarrow> rn_active r' = None"
    "rn_child r' = rn_child r" "rn_now r' = rn_now r" by simp_all
qed

lemma flush_input_traces:
  "traces_only r (flush_input r) \<and> (rn_active r = None \<longrightarrow> rn_active (flush_input r) = None)"
proof -
  obtain res q w where f: "bq_flush (rn_input r, pty_out (rn_master r)) = (res, (q, w))" by (metis surj_pair)
  let ?r = "r\<lparr>rn_input := q, rn_master := (rn_master r)\<lparr>pty_out := w\<rparr>\<rparr>"
  have "traces_only r ?r" by (rule traces_only_fields) (simp_all add: same_session_def)
  then have "traces_only r (drop_active (trace_io_error ev e ?r))" for ev e
    by (intro then_traces)
  with \<open>traces_only r ?r\<close> f show ?thesis
    by (auto simp: flush_input_def Let_def split: sum.splits)
qed

lemma flush_active_traces: "traces_only r (flush_active r)"
proof (cases "rn_active r")
  case (Some c)
  obtain res c' where f: "flush_connection c = (res, c')" by fastforce
  have "traces_only r (drop_active (trace_io_error ev e (r\<lparr>rn_active := Some c'\<rparr>)))" for ev e
    by (intro then_traces traces_only_refl)
  with Some f show ?thesis
    by (cases res) (auto simp: flush_active_def traces_only_update)
qed (simp add: flush_active_def)

lemma apply_active_records_traces:
  assumes "apply_active_records recs r = (res, r')"
  shows "traces_only r r' \<and> rn_active r' = rn_active r"
  using apply_active_records_fields [OF assms]
  by (auto intro!: traces_only_fields simp: same_session_def)

lemma serve_active_traces:
  assumes "serve_active r = (res, r')"
  shows "traces_only r r'"
proof -
  obtain q r1 where rd: "read_active r = (q, r1)" by fastforce
  then have r1: "traces_only r r1"
    by (auto simp: read_active_def traces_only_update split: option.splits prod.splits)
  have rej: "traces_only r (drop_active (trace_event ev x))" "traces_only r (drop_active (trace_io_error ev e x))"
    if "traces_only r x" for ev e x
    by (intro then_traces, rule that)+
  show ?thesis
  proof (cases q)
    case (Inl e)
    with assms rd rej [OF r1] show ?thesis by (auto simp: serve_active_def)
  next
    case (Inr records)
    obtain z r2 where z: "apply_active_records records r1 = (z, r2)" by fastforce
    then have "traces_only r1 r2" using apply_active_records_traces by blast
    with r1 have "traces_only r r2" by (rule traces_only_trans)
    with assms rd Inr z rej show ?thesis
      by (auto simp: serve_active_def io_simps split: sum.splits if_splits)
  qed
qed

lemma accept_loop_traces:
  "accept_loop as r = (res, r') \<Longrightarrow> traces_only r r' \<and> rn_active r' = rn_active r"
proof (induction as r arbitrary: res r' rule: accept_loop.induct)
  case (3 x as r)
  define r0 where "r0 = (if rn_candidate r \<noteq> None then trace_event ''candidate_replaced'' r else r)"
  define r1 where "r1 = trace_event ''candidate_accepted'' r0"
  let ?r2 = "(drop_candidate r1)\<lparr>rn_candidate := Some (connection_new (accepted_stream x))\<rparr>"
  have r0: "traces_only r r0" "rn_active r0 = rn_active r" by (simp_all add: r0_def tracing)
  then have r1: "traces_only r r1" "rn_active r1 = rn_active r"
    unfolding r1_def by (intro then_traces, simp_all)
  then have r2: "traces_only r ?r2" "rn_active ?r2 = rn_active r"
    by (intro then_traces, simp_all)
  show ?case
  proof (cases "peer_uid (ac_peer x)")
    case (Inl e)
    with "3.prems" show ?thesis by (auto simp: traces_only_update)
  next
    case (Inr peer)
    show ?thesis
    proof (cases "peer \<noteq> os_uid (rn_os r)")
      case True
      with Inr "3.prems" have "accept_loop as (trace_event ''candidate_peer_rejected'' r) = (res, r')" by simp
      from "3.IH"(1) [OF Inr True this] show ?thesis
        by (auto intro: traces_only_trans [OF traces_only_traces(1)])
    next
      case peer: False
      show ?thesis
      proof (cases "ac_nonblocking x")
        case (Inl e)
        with \<open>peer_uid (ac_peer x) = Inr peer\<close> peer "3.prems" show ?thesis by (auto simp: traces_only_update)
      next
        case (Inr u)
        with \<open>peer_uid (ac_peer x) = Inr peer\<close> peer "3.prems" have "accept_loop as ?r2 = (res, r')"
          by (simp add: Let_def r0_def r1_def)
        from "3.IH"(2) [OF \<open>peer_uid (ac_peer x) = Inr peer\<close> peer Inr r0_def r1_def this] r2
        show ?thesis by (auto intro: traces_only_trans [OF r2(1)])
      qed
    qed
  qed
qed (auto simp: traces_only_update split: if_splits)


section \<open>The record of a live session\<close>

text \<open>The runner's session, directory and user are those of the state \<open>k\<close> it started in.\<close>

definition located :: "runner \<Rightarrow> runner \<Rightarrow> bool" where
  "located k r \<longleftrightarrow> session_wf (rn_session r) \<and> rn_paths r = paths_of (rn_registry r) (rn_session r) \<and> trace_ok r \<and>
     same_session k r \<and> (\<forall>xs. own_file (rn_os r) xs = own_file (rn_os k) xs)"

text \<open>The metadata file holds the live record with this attachment flag.\<close>

definition meta_says :: "json \<Rightarrow> bool \<Rightarrow> runner \<Rightarrow> bool" where
  "meta_says js attached r \<longleftrightarrow>
     (\<exists>xs. to_vec js (runner_metadata r attached) = Some xs \<and>
        look (rn_os r) (p_metadata (rn_paths r)) = Some (own_file (rn_os r) xs))"

definition meta_inv :: "json \<Rightarrow> runner \<Rightarrow> runner \<Rightarrow> bool" where
  "meta_inv js k r \<longleftrightarrow> located k r \<and> meta_says js (rn_active r \<noteq> None) r"

lemma same_session_metadata: "same_session r r' \<Longrightarrow> runner_metadata r' b = runner_metadata r b"
  by (simp add: same_session_def runner_metadata_def)

lemma located_traces: "traces_only r r' \<Longrightarrow> located k r \<Longrightarrow> located k r'"
  by (auto simp: located_def traces_only_def same_session_def changes_only_def dest: own_file_process)

lemma meta_traces:
  assumes "traces_only r r'" and "located k r" and "meta_says js b r"
  shows "meta_says js b r'"
proof -
  let ?p = "p_metadata (rn_paths r)"
  have same: "same_session r r'" and ch: "changes_only {p_trace (rn_paths r)} (rn_os r) (rn_os r')"
    using assms(1,2) by (auto simp: traces_only_def located_def)
  have "?p \<notin> {p_trace (rn_paths r)}"
    using assms(2) by (auto simp: located_def paths_of_session_path bs_def)
  with ch have "look (rn_os r') ?p = look (rn_os r) ?p" by (rule changes_only_look)
  moreover have "own_file (rn_os r') xs = own_file (rn_os r) xs" for xs
    using ch by (intro own_file_process) (simp add: changes_only_def)
  moreover have "rn_paths r' = rn_paths r" using same by (simp add: same_session_def)
  ultimately show ?thesis
    using assms(3) unfolding meta_says_def same_session_metadata [OF same] by simp
qed

lemma meta_inv_traces:
  "traces_only r r' \<Longrightarrow> located k r \<Longrightarrow> meta_says js b r \<Longrightarrow> (rn_active r' \<noteq> None) = b \<Longrightarrow> meta_inv js k r'"
  by (auto simp: meta_inv_def intro: located_traces meta_traces)

text \<open>The rewritten record says what it was given, and nothing else is changed.\<close>

lemma write_attached_says:
  assumes "write_attached js b r = (Inr u, r')" and "located k r"
  shows "meta_says js b r' \<and> located k r' \<and> rn_active r' = rn_active r"
proof -
  obtain s where w: "write_metadata js (rn_paths r) (runner_metadata r b) (rn_os r) = (Inr u, s)"
    and r': "r' = r\<lparr>rn_os := s\<rparr>"
    using on_os_fields [OF assms(1) [unfolded write_attached_def]] by blast
  have wf: "session_wf (rn_session r)" and paths: "rn_paths r = paths_of (rn_registry r) (rn_session r)"
    using assms(2) by (auto simp: located_def)
  from w obtain xs where xs: "to_vec js (runner_metadata r b) = Some xs"
    "atomic_write (p_metadata (rn_paths r)) xs (rn_os r) = (Inr u, s)"
    by (auto elim: write_metadata_cases)
  note key = session_key_paths(1) [OF wf, of "rn_registry r", folded paths]
  have "look s (p_metadata (rn_paths r)) = Some (own_file (rn_os r) xs)"
    using atomic_write_session(2) [OF key xs(2) key] by simp
  moreover have "own_file s xs = own_file (rn_os r) xs" for xs
    using atomic_write_session(1) [OF key xs(2)] own_file_process by blast
  ultimately show ?thesis
    using xs(1) assms(2) r'
    by (auto simp: meta_says_def runner_metadata_def located_def trace_ok_def same_session_def)
qed

lemma write_attached_inv:
  "write_attached js b r = (Inr u, r') \<Longrightarrow> located k r \<Longrightarrow> (rn_active r \<noteq> None) = b \<Longrightarrow> meta_inv js k r'"
  using write_attached_says [of js b r u r'] by (auto simp: meta_inv_def)

lemma drain_step_meta:
  assumes "drain_step js r = (Inr u, r')" and "meta_inv js k r"
  shows "meta_inv js k r'"
proof -
  obtain q r1 where d: "drain_pty r = (q, r1)" by fastforce
  then have d1: "traces_only r r1" "rn_active r = None \<Longrightarrow> rn_active r1 = None"
    using drain_pty_traces [of r q r1] by simp_all
  have r: "located k r" "meta_says js (rn_active r \<noteq> None) r" using assms(2) by (simp_all add: meta_inv_def)
  show ?thesis
  proof (cases "rn_active r \<noteq> None \<and> rn_active r1 = None")
    case True
    let ?r1 = "trace_event ''attachment_output_queue_full'' r1"
    have "located k ?r1" using then_traces(1) [OF d1(1)] r(1) by (rule located_traces)
    moreover have "rn_active ?r1 = None" using True by simp
    moreover have "write_attached js False ?r1 = (Inr u, r')"
      using assms(1) d True by (auto simp: drain_step_def io_try_apply split: sum.splits)
    ultimately show ?thesis using write_attached_inv by blast
  next
    case False
    with assms(1) d have "r' = r1" by (auto simp: drain_step_def io_try_apply split: sum.splits)
    with False d1 meta_inv_traces [OF d1(1) r] show ?thesis by blast
  qed
qed

lemma active_step_meta:
  assumes "active_step js event r = (Inr u, r')" and "located k r" and "meta_says js True r"
  shows "meta_inv js k r'"
proof -
  define r1 where "r1 = (if pf_hup event then trace_event ''attachment_poll_hangup'' r else r)"
  define r2 where "r2 = (if pf_err event then trace_event ''attachment_poll_error'' r1 else r1)"
  define r3 where "r3 = (if pf_out event then flush_active r2 else r2)"
  have "traces_only r r1" by (simp add: r1_def tracing)
  then have "traces_only r r2" by (simp add: r2_def then_traces)
  then have r3: "traces_only r r3" using traces_only_trans flush_active_traces by (simp add: r3_def)
  obtain z r4 where s: "(if rn_active r3 \<noteq> None \<and> readable event then serve_active else io_ok ()) r3 = (z, r4)"
    by fastforce
  then have "traces_only r3 r4"
    using serve_active_traces by (auto simp: io_ok_apply split: if_splits)
  with r3 have r4: "traces_only r r4" by (rule traces_only_trans)
  have "(if rn_active r4 = None then write_attached js False r4 else (Inr (), r4)) = (Inr u, r')"
    using assms(1) s unfolding active_step_def Let_def r1_def [symmetric] r2_def [symmetric] r3_def [symmetric]
    by (cases z) (simp_all add: io_try_apply)
  then show ?thesis
    using write_attached_inv [of js False r4 u r'] located_traces [OF r4 assms(2)]
      meta_inv_traces [OF r4 assms(2,3)] by (cases "rn_active r4 = None") auto
qed

lemma attach_candidate_meta:
  assumes "attach_candidate js rows columns recs r = (Inr u, r')" and "meta_inv js k r"
  shows "meta_inv js k r'"
proof (cases "rn_candidate r")
  case None
  with assms show ?thesis by (simp add: attach_candidate_def)
next
  case (Some c)
  let ?r = "r\<lparr>rn_candidate := None\<rparr>"
  obtain q r1 where rs: "resize rows columns ?r = (q, r1)" by fastforce
  then have "traces_only ?r r1" "rn_active r1 = rn_active ?r"
    by (auto simp: resize_def traces_only_update split: prod.splits)
  then have r1: "traces_only r r1" "rn_active r1 = rn_active r"
    using traces_only_trans [OF traces_only_update(2)] by auto
  obtain e c1 where er: "enqueue_replay (rn_tail r1) c = (e, c1)" by fastforce
  obtain z r2 where ap: "apply_active_records recs r1 = (z, r2)" by fastforce
  then have "traces_only r1 r2" "rn_active r2 = rn_active r1"
    using apply_active_records_traces by blast+
  then have r2: "traces_only r r2" "rn_active r2 = rn_active r"
    using r1 traces_only_trans by auto
  from assms(1) Some rs er ap obtain w where w: "q = Inr ()" "e = Inr ()" "z = Inr w"
    by (cases q; cases e; cases z) (simp_all add: attach_candidate_def Let_def)
  have loc: "located k r" "meta_says js (rn_active r \<noteq> None) r" using assms(2) by (simp_all add: meta_inv_def)
  show ?thesis
  proof (cases w)
    case False
    with assms(1) Some rs er ap w have "r' = r2\<lparr>rn_closed := c1 # rn_closed r2\<rparr>"
      by (simp add: attach_candidate_def Let_def)
    then show ?thesis
      using meta_inv_traces [OF then_traces(10) [OF r2(1)] loc] r2(2) by auto
  next
    case True
    with assms(1) Some rs er ap w have wr: "write_attached js True (activate c1 r2) = (Inr u, r')"
      by (simp add: attach_candidate_def Let_def)
    have "traces_only r (activate c1 r2)"
      unfolding activate_def Let_def
      by (cases "rn_active r2") (simp_all add: then_traces r2(1))
    with loc(1) have "located k (activate c1 r2)" by (blast intro: located_traces)
    moreover have "rn_active (activate c1 r2) \<noteq> None" by (simp add: activate_def)
    ultimately show ?thesis using write_attached_inv [OF wr] by blast
  qed
qed


lemma candidate_step_meta:
  assumes "candidate_step js r = (Inr u, r')" and "meta_inv js k r"
  shows "meta_inv js k r'"
proof -
  obtain q r1 where rd: "read_candidate r = (q, r1)" by fastforce
  then have r1: "traces_only r r1" "rn_active r1 = rn_active r"
    by (auto simp: read_candidate_def traces_only_update split: option.splits prod.splits)
  have loc: "located k r" "meta_says js (rn_active r \<noteq> None) r" using assms(2) by (simp_all add: meta_inv_def)
  have keep: "meta_inv js k x" if "traces_only r x" "rn_active x = rn_active r" for x
    using meta_inv_traces [OF that(1) loc] that(2) by simp
  show ?thesis
  proof (cases q)
    case (Inl e)
    with assms(1) rd have "r' = drop_candidate (trace_io_error ''candidate_read_failed'' e r1)"
      by (simp add: candidate_step_def)
    then show ?thesis using keep [of r'] r1 by (simp add: then_traces)
  next
    case (Inr recs)
    with assms(1) rd have c: "candidate_records js recs r1 = (Inr u, r')" by (simp add: candidate_step_def)
    have "r' = r1 \<or> (\<exists>rows cols rest. attach_candidate js rows cols rest r1 = (Inr u, r')) \<or>
        r' = (drop_candidate (trace_event ''stop_requested'' r1))\<lparr>rn_stop := True\<rparr> \<or>
        r' = drop_candidate (trace_event ''candidate_rejected'' r1)"
      using c by (auto simp: candidate_records_def split: list.splits ipc_record.splits)
    then show ?thesis
      using keep [of r1] keep [of r'] r1 attach_candidate_meta by (auto simp: then_traces)
  qed
qed

lemma events_step_meta:
  assumes "events_step js master listener cand active r = (Inr u, r')" and "meta_inv js k r"
  shows "meta_inv js k r'"
proof -
  define r0 where "r0 = (if pf_out master \<and> \<not> bq_is_empty (rn_input r) then flush_input r else r)"
  define ev where "ev = active\<lparr>pf_out := pf_out active \<and>
    (case rn_active r of None \<Rightarrow> False | Some c \<Rightarrow> \<not> bq_is_empty (c_output c))\<rparr>"
  have loc: "located k r" "meta_says js (rn_active r \<noteq> None) r" using assms(2) by (simp_all add: meta_inv_def)
  have r0: "traces_only r r0" "rn_active r = None \<Longrightarrow> rn_active r0 = None"
    using flush_input_traces [of r] by (auto simp: r0_def)
  obtain q1 r1 where a: "(if rn_active r \<noteq> None then active_step js ev else io_ok ()) r0 = (q1, r1)" by fastforce
  obtain q2 r2 where l: "(if pf_in listener then accept_candidate else io_ok ()) r1 = (q2, r2)" by fastforce
  from assms(1) a l obtain u1 u2 where q: "q1 = Inr u1" "q2 = Inr u2"
    and c: "(if rn_candidate r \<noteq> None \<and> readable cand then candidate_step js else io_ok ()) r2 = (Inr u, r')"
    unfolding events_step_def Let_def r0_def [symmetric] ev_def [symmetric]
    by (cases q1; cases q2) (simp_all add: io_try_apply)
  have "meta_inv js k r1"
  proof (cases "rn_active r = None")
    case True
    with a q have "r1 = r0" by (simp add: io_ok_apply)
    with True r0 meta_inv_traces [OF r0(1) loc] show ?thesis by simp
  next
    case False
    with a q have "active_step js ev r0 = (Inr u1, r1)" by simp
    then show ?thesis
      using active_step_meta located_traces [OF r0(1) loc(1)] meta_traces [OF r0(1) loc] False by simp
  qed
  moreover have "traces_only r1 r2" "rn_active r2 = rn_active r1"
    using l accept_loop_traces [of _ r1 q2 r2] by (auto simp: accept_candidate_def io_ok_apply split: if_splits)
  ultimately have "meta_inv js k r2" using meta_inv_traces by (auto simp: meta_inv_def)
  then show ?thesis using c candidate_step_meta by (auto simp: io_ok_apply split: if_splits)
qed

lemma meta_inv_fields:
  assumes "meta_inv js k r" and "same_session r r'" and "rn_trace r' = rn_trace r" and "rn_active r' = rn_active r"
    and "look (rn_os r') = look (rn_os r)" and "os_uid (rn_os r') = os_uid (rn_os r)" and "os_umask (rn_os r') = os_umask (rn_os r)"
  shows "meta_inv js k r'"
  using assms same_session_metadata [OF assms(2)]
  by (auto simp: meta_inv_def located_def meta_says_def trace_ok_def same_session_def own_file_def new_entry_def)

lemma runner_tick_meta:
  assumes "runner_tick js answer r = (Again, r')" and "meta_inv js k r"
  shows "meta_inv js k r'"
proof -
  have waited: "meta_inv js k (r2\<lparr>rn_now := n, rn_os := (rn_os r2)\<lparr>clock := t\<rparr>\<rparr>)"
    if "drain_step js r = (Inr (), r1)" "runner_try_wait r1 = (Inr None, r2)" for r1 r2 n t
    by (rule meta_inv_fields [OF drain_step_meta [OF that(1) assms(2)]])
      (use that(2) in \<open>auto simp: runner_try_wait_def same_session_def look_def fun_eq_iff split: prod.splits\<close>)
  from assms(1) show ?thesis
  proof (cases rule: runner_tick_Again)
    case (1 r1 r2)
    then show ?thesis using waited by simp
  next
    case (2 r1 r2 master listener cand active)
    then show ?thesis using waited events_step_meta by blast
  qed
qed

interpretation meta_steps: step_system "runner_step js" "meta_inv js k" for js
  by unfold_locales (auto intro: runner_tick_meta)

end
