(* ===== verification/Runner_End.thy ===== *)
theory Runner_End
  imports Runner_Record
begin

text \<open>
  The end of a session: what \<open>complete_session\<close> leaves on disk, in which order it does so,
  and what the client that is attached to the end is sent.
\<close>

section \<open>The record of completion\<close>

definition completed_record :: "runner \<Rightarrow> process_exit \<Rightarrow> u64 \<Rightarrow> nat \<Rightarrow> bool \<Rightarrow> session_metadata" where
  "completed_record r exit finished_at output_bytes truncated =
     Completed \<lparr>cs_session_id = session_to_string (rn_session r), cs_started_at = rn_started_at r,
       cs_finished_at = finished_at, cs_exit = exit_metadata_from exit,
       cs_output_bytes = output_bytes, cs_truncated = truncated\<rparr>"

text \<open>The output file and the completed record that stands for it.\<close>

definition completed_on_disk :: "json \<Rightarrow> process_exit \<Rightarrow> runner \<Rightarrow> os \<Rightarrow> bool" where
  "completed_on_disk js exit r s \<longleftrightarrow>
     (let output = tail_snapshot (rn_tail r) in
      look s (p_output (rn_paths r)) = Some (own_file (rn_os r) output) \<and>
      (\<exists>finished_at xs. 0 \<le> clock s \<and> finished_at = word_of_int (clock s) \<and>
         to_vec js (completed_record r exit finished_at (length output) (tail_is_truncated (rn_tail r))) = Some xs \<and>
         look s (p_metadata (rn_paths r)) = Some (own_file (rn_os r) xs)))"

lemma runner_keys:
  assumes "located k r"
  shows "p_metadata (rn_paths r) \<in> session_keys (rn_registry r)" "p_output (rn_paths r) \<in> session_keys (rn_registry r)"
    "p_metadata (rn_paths r) \<noteq> p_output (rn_paths r)"
    "p_metadata (rn_paths r) \<notin> {p_socket (rn_paths r), p_lock (rn_paths r)}"
    "p_output (rn_paths r) \<notin> {p_socket (rn_paths r), p_lock (rn_paths r)}"
  using assms by (auto simp: located_def) (auto simp: paths_of_session_path bs_def)

text \<open>The metadata changes only after the output file is in place.\<close>

lemma record_completion_cases:
  assumes "record_completion js exit r = (res, r')" and "located k r"
  shows "\<exists>s. r' = r\<lparr>rn_os := s\<rparr> \<and>
    (look s (p_metadata (rn_paths r)) = look (rn_os r) (p_metadata (rn_paths r)) \<and> \<not> is_ok res \<or>
     completed_on_disk js exit r s \<and> is_ok res)"
proof -
  let ?out = "tail_snapshot (rn_tail r)"
  let ?rest = "\<lambda>finished_at. io_try (write_metadata js (rn_paths r)
      (completed_record r exit finished_at (length ?out) (tail_is_truncated (rn_tail r))))
      (\<lambda>_. remove_live_files (rn_paths r))"
  note keys = runner_keys [OF assms(2)]
  obtain s where s: "io_try (write_output (rn_paths r) ?out) (\<lambda>_. io_try now_seconds ?rest) (rn_os r) = (res, s)"
    "r' = r\<lparr>rn_os := s\<rparr>"
    using on_os_fields [OF assms(1) [unfolded record_completion_def Let_def]]
    by (auto simp: completed_record_def)
  obtain q1 s1 where o: "write_output (rn_paths r) ?out (rn_os r) = (q1, s1)" by fastforce
  have out: "look s1 p = (if p = p_output (rn_paths r) \<and> is_ok q1 then Some (own_file (rn_os r) ?out) else look (rn_os r) p)"
    if "p \<in> session_keys (rn_registry r)" for p
    using o
  proof (cases rule: write_output_cases)
    case 2
    then show ?thesis using atomic_write_session(2) [OF keys(2) 2(2) that] by simp
  qed simp
  have same: "own_file s1 xs = own_file (rn_os r) xs" for xs
    using o
  proof (cases rule: write_output_cases)
    case 2
    then show ?thesis using atomic_write_session(1) [OF keys(2) 2(2)] own_file_process by blast
  qed simp
  show ?thesis
  proof (cases q1)
    case (Inl e)
    with s o out [OF keys(1)] keys(3) show ?thesis by (auto simp: io_try_apply)
  next
    case q1: (Inr u)
    show ?thesis
    proof (cases "fst (now_seconds s1)")
      case (Inl e)
      with s o q1 out [OF keys(1)] keys(3) show ?thesis
        by (auto simp: io_try_apply now_seconds_def split: if_splits)
    next
      case (Inr t)
      then have now: "now_seconds s1 = (Inr t, s1)" "0 \<le> clock s1" "t = word_of_int (clock s1)"
        by (auto simp: now_seconds_def split: if_splits)
      let ?m = "completed_record r exit t (length ?out) (tail_is_truncated (rn_tail r))"
      obtain q2 s2 where m: "write_metadata js (rn_paths r) ?m s1 = (q2, s2)" by fastforce
      have fin: "if is_ok q2 then remove_live_files (rn_paths r) s2 = (res, s) else \<not> is_ok res \<and> s = s2"
        using s(1) o q1 now(1) m by (cases q2) (auto simp: io_try_apply)
      from m show ?thesis
      proof (cases rule: write_metadata_cases)
        case (1 e)
        with fin s(2) out [OF keys(1)] keys(3) show ?thesis by auto
      next
        case (2 xs)
        note w = atomic_write_session(2) [OF keys(1) 2(3)]
        show ?thesis
        proof (cases q2)
          case (Inl e)
          with fin s(2) w [OF keys(1)] out [OF keys(1)] keys(3) show ?thesis by auto
        next
          case (Inr v)
          with fin have r: "remove_live_files (rn_paths r) s2 = (res, s)" by simp
          have "touches {p_socket (rn_paths r), p_lock (rn_paths r)} (remove_live_files (rn_paths r))"
            by (rule touches_remove_live_files) simp_all
          note ch = touchesD [OF this r]
          note t = changes_only_look [OF ch]
          have clock: "clock s = clock s1"
            using same_process_fields(5) [OF atomic_write_session(1) [OF keys(1) 2(3)]] ch
              same_process_fields(5) [of s2 s] by (simp add: changes_only_def)
          have "is_ok res" using r by (auto simp: remove_live_files_def io_simps)
          moreover have "completed_on_disk js exit r s"
            unfolding completed_on_disk_def Let_def
            using t [OF keys(4)] t [OF keys(5)] w [OF keys(1)] w [OF keys(2)] out [OF keys(2)] q1 Inr same keys(3) 2(1) clock now(2,3)
            by auto
          ultimately show ?thesis using s(2) by blast
        qed
      qed
    qed
  qed
qed

lemma completed_on_disk_fields:
  "rn_tail r' = rn_tail r \<Longrightarrow> same_session r r' \<Longrightarrow> (\<And>xs. own_file (rn_os r') xs = own_file (rn_os r) xs) \<Longrightarrow>
   look s' (p_output (rn_paths r)) = look s (p_output (rn_paths r)) \<Longrightarrow>
   look s' (p_metadata (rn_paths r)) = look s (p_metadata (rn_paths r)) \<Longrightarrow> clock s' = clock s \<Longrightarrow>
   completed_on_disk js exit r' s' = completed_on_disk js exit r s"
  by (simp add: completed_on_disk_def completed_record_def same_session_def)

lemma complete_session_cases:
  assumes "complete_session js exit r = (res, r')" and "located k r"
  shows "look (rn_os r') (p_metadata (rn_paths r)) = look (rn_os r) (p_metadata (rn_paths r)) \<and> \<not> is_ok res \<or>
    completed_on_disk js exit r (rn_os r') \<and> is_ok res"
proof -
  obtain q r1 where rec: "record_completion js exit r = (q, r1)" by fastforce
  obtain s where s: "r1 = r\<lparr>rn_os := s\<rparr>"
    "look s (p_metadata (rn_paths r)) = look (rn_os r) (p_metadata (rn_paths r)) \<and> \<not> is_ok q \<or>
     completed_on_disk js exit r s \<and> is_ok q"
    using record_completion_cases [OF rec assms(2)] by blast
  have keys: "p_metadata (rn_paths r) \<notin> {p_socket (rn_paths r), p_lock (rn_paths r)}"
    "p_output (rn_paths r) \<notin> {p_socket (rn_paths r), p_lock (rn_paths r)}"
    using runner_keys [OF assms(2)] by simp_all
  obtain d t where d: "drop_session_files (rn_paths r) s = (d, t)" by fastforce
  have "touches {p_socket (rn_paths r), p_lock (rn_paths r)} (drop_session_files (rn_paths r))"
    by (rule touches_drop_session_files) simp_all
  note ch = touchesD [OF this d]
  note t = changes_only_look [OF ch]
  have drop: "drop_files r1 = r\<lparr>rn_os := t\<rparr>" using d s(1) by (simp add: drop_files_def on_os_def)
  have "rn_os r' = t \<and> (is_ok res \<longleftrightarrow> is_ok q)"
    using assms(1) rec drop by (cases q) (auto simp: complete_session_def)
  moreover have "completed_on_disk js exit r t = completed_on_disk js exit r s"
    using t [OF keys(1)] t [OF keys(2)] ch same_process_fields(5) [of s t]
    by (simp add: completed_on_disk_def changes_only_def)
  ultimately show ?thesis using s(2) t [OF keys(1)] by auto
qed

section \<open>The last tick\<close>

text \<open>The managed process has ended, with this status.\<close>

definition exited :: "runner \<Rightarrow> exit_status \<Rightarrow> bool" where
  "exited r status \<longleftrightarrow> (\<exists>at \<le> rn_now r. child_end (rn_child r) = Some (at, status))"

lemma runner_try_wait_exited:
  "runner_try_wait r = (Inr (Some status), r') \<Longrightarrow> exited r' status"
  using try_wait_result same_child_fields
  by (fastforce simp: runner_try_wait_def exited_def split: prod.splits)

lemma stop_child_exited:
  assumes "stop_child (rn_child r, rn_now r) = Some (Inr status, (c, now))"
  shows "exited (r\<lparr>rn_child := c, rn_now := now\<rparr>) status"
  using stop_child_result [of "rn_child r" "rn_now r"] assms by (auto simp: stopped_def exited_def)

text \<open>A tick that ends the loop well completes the session from a state of the invariants.\<close>

lemma drain_pty_located: "drain_pty r = (res, r') \<Longrightarrow> located k r \<Longrightarrow> located k r'"
  using drain_pty_traces(1) located_traces by blast

lemma located_fields:
  "located k r \<Longrightarrow> same_session r r' \<Longrightarrow> rn_trace r' = rn_trace r \<Longrightarrow>
   os_uid (rn_os r') = os_uid (rn_os r) \<Longrightarrow> os_umask (rn_os r') = os_umask (rn_os r) \<Longrightarrow> located k r'"
  by (auto simp: located_def trace_ok_def same_session_def own_file_def new_entry_def)

lemma runner_tick_Returns:
  assumes "runner_tick js answer r = (Returns (Inr u), r')" and "meta_inv js k r" and "data_inv a r"
  obtains r1 status where "completes js status r1 = (Returns (Inr u), r')" "located k r1" "data_inv a r1" "exited r1 status"
proof -
  obtain q r1 where d: "drain_step js r = (q, r1)" by fastforce
  then obtain v where q: "q = Inr v"
    using assms(1) by (cases q) (simp_all add: runner_tick_def fails_def)
  then have i1: "meta_inv js k r1" "data_inv a r1"
    using d assms(2,3) drain_step_meta drain_step_inv by blast+
  obtain w r2 where t: "runner_try_wait r1 = (w, r2)" by fastforce
  have i2: "meta_inv js k r2" "data_inv a r2"
    using runner_try_wait_inv [OF t] i1(2) t
    by (auto intro: meta_inv_fields [OF i1(1)] simp: runner_try_wait_def same_session_def split: prod.splits)
  obtain x where w: "w = Inr x"
    using assms(1) d q t by (cases w) (simp_all add: runner_tick_def fails_def)
  show thesis
  proof (cases x)
    case (Some status)
    let ?r = "trace_event ''child_exited'' r2"
    obtain z r3 where dr: "drain_pty ?r = (z, r3)" by fastforce
    with assms(1) d q t w Some obtain y where "z = Inr y" and c: "completes js status r3 = (Returns (Inr u), r')"
      by (cases z) (simp_all add: runner_tick_def child_exited_def fails_def)
    have "located k ?r" using i2(1) located_traces [OF traces_only_traces(1)] by (simp add: meta_inv_def)
    then have "located k r3" by (rule drain_pty_located [OF dr])
    moreover have "data_inv a r3" using drain_pty_inv [OF dr] i2(2) by simp
    moreover have "exited r3 status"
      using runner_try_wait_exited [of r1 status r2] t w Some drain_pty_traces(3,4) [OF dr] by (simp add: exited_def)
    ultimately show thesis using that c by blast
  next
    case None
    let ?r = "r2\<lparr>rn_now := rn_now r2 + pa_elapsed answer, rn_os := (rn_os r2)\<lparr>clock := pa_clock answer\<rparr>\<rparr>"
    have i3: "meta_inv js k ?r"
      by (rule meta_inv_fields [OF i2(1)]) (auto simp: same_session_def look_def fun_eq_iff)
    obtain m l c ac where f: "pa_result answer = Inr (m, l, c, ac)"
      using assms(1) d q t w None
      by (cases "pa_result answer") (auto simp: runner_tick_def fails_def Let_def split: if_splits)
    obtain z r3 where e: "events_step js m l c ac ?r = (z, r3)" by fastforce
    with assms(1) d q t w None f obtain y where z: "z = Inr y" and stop: "runner_stop js r3 = (Returns (Inr u), r')"
      by (cases z) (simp_all add: runner_tick_def fails_def Let_def split: if_splits)
    have i4: "meta_inv js k r3" "data_inv a r3"
      using events_step_meta [OF e [unfolded z] i3] events_step_inv [OF e [unfolded z]] i2(2) by simp_all
    obtain status ch now where st: "stop_child (rn_child r3, rn_now r3) = Some (Inr status, (ch, now))"
      and c: "completes js status (r3\<lparr>rn_child := ch, rn_now := now\<rparr>) = (Returns (Inr u), r')"
      using stop by (auto simp: runner_stop_def fails_def Let_def split: option.splits prod.splits sum.splits)
    have "located k (r3\<lparr>rn_child := ch, rn_now := now\<rparr>)"
      by (rule located_fields [of k r3]) (use i4(1) in \<open>simp_all add: meta_inv_def same_session_def\<close>)
    moreover have "data_inv a (r3\<lparr>rn_child := ch, rn_now := now\<rparr>)" using i4(2) by simp
    ultimately show thesis using that c stop_child_exited [OF st] by blast
  qed
qed

lemma run_event_loop_last:
  assumes "run_event_loop js answers r = (Returns res, r')"
  shows "\<exists>answer r1. (runner_step js)\<^sup>*\<^sup>* r r1 \<and> runner_tick js answer r1 = (Returns res, r')"
  using assms
proof (induction answers arbitrary: r)
  case (Cons answer answers)
  obtain q r1 where t: "runner_tick js answer r = (q, r1)" by fastforce
  show ?case
  proof (cases q)
    case Again
    with t Cons.prems have "run_event_loop js answers r1 = (Returns res, r')" by simp
    from Cons.IH [OF this] obtain answer' r2
      where "(runner_step js)\<^sup>*\<^sup>* r1 r2" "runner_tick js answer' r2 = (Returns res, r')" by blast
    moreover have "runner_step js r r1" using t Again by (auto intro: runner_step.tick)
    ultimately show ?thesis by (meson converse_rtranclp_into_rtranclp)
  qed (use t Cons.prems in auto)
qed simp

lemma completes_facts:
  assumes "completes js status r = (Returns (Inr u), r')"
  shows "\<exists>r1. complete_session js (process_exit_of status) (trace_process_exit (process_exit_of status) r) = (Inr u, r1) \<and>
    r' = drop_candidate r1"
  using assms by (auto simp: completes_def split: prod.splits)


lemma drop_fields [simp]:
  "rn_child (drop_active r) = rn_child r" "rn_now (drop_active r) = rn_now r" "rn_os (drop_active r) = rn_os r"
  "rn_child (drop_candidate r) = rn_child r" "rn_now (drop_candidate r) = rn_now r" "rn_os (drop_candidate r) = rn_os r"
  by (auto simp: drop_active_def drop_candidate_def split: option.splits)

lemma complete_session_fields:
  assumes "complete_session js exit r = (res, r')"
  shows "rn_child r' = rn_child r \<and> rn_now r' = rn_now r"
proof -
  obtain q r1 where rec: "record_completion js exit r = (q, r1)" by fastforce
  obtain s where "r1 = r\<lparr>rn_os := s\<rparr>"
    using on_os_fields [OF rec [unfolded record_completion_def Let_def]] by blast
  moreover obtain t where "drop_files r1 = r1\<lparr>rn_os := t\<rparr>"
    by (cases "drop_session_files (rn_paths r1) (rn_os r1)") (simp add: drop_files_def on_os_def)
  ultimately show ?thesis
    using assms rec by (cases q) (auto simp: complete_session_def)
qed

lemma exit_trace_fields [simp]:
  "rn_child (trace_process_exit e r) = rn_child r" "rn_now (trace_process_exit e r) = rn_now r"
  "rn_tail (trace_process_exit e r) = rn_tail r"
  by (simp_all add: trace_process_exit_def split: process_exit.splits)

lemma completes_on_disk:
  assumes "completes js status r = (Returns (Inr u), r')" and "located k r"
  shows "completed_on_disk js (process_exit_of status) r (rn_os r') \<and> rn_child r' = rn_child r \<and> rn_now r' = rn_now r"
proof -
  let ?r = "trace_process_exit (process_exit_of status) r"
  obtain r1 where c: "complete_session js (process_exit_of status) ?r = (Inr u, r1)" "r' = drop_candidate r1"
    using completes_facts [OF assms(1)] by blast
  have t: "traces_only r ?r" by (rule tracing)
  then have loc: "located k ?r" using assms(2) by (rule located_traces)
  have "own_file (rn_os ?r) xs = own_file (rn_os r) xs" for xs
    using loc assms(2) by (simp add: located_def)
  moreover have "same_session r ?r" using t by (simp add: traces_only_def)
  ultimately have "completed_on_disk js (process_exit_of status) ?r (rn_os r1) = completed_on_disk js (process_exit_of status) r (rn_os r1)"
    by (intro completed_on_disk_fields) simp_all
  then show ?thesis
    using complete_session_cases [OF c(1) loc] complete_session_fields [OF c(1)] c(2) by simp
qed

text \<open>The state \<open>run\_event\_loop\<close> starts with, once its first record is on disk.\<close>

definition started_runner :: "json \<Rightarrow> runner \<Rightarrow> bool" where
  "started_runner js r \<longleftrightarrow> fresh_runner r \<and> session_wf (rn_session r) \<and>
     rn_paths r = paths_of (rn_registry r) (rn_session r) \<and> trace_ok r \<and> meta_says js False r"

lemma started_meta_inv: "started_runner js r \<Longrightarrow> meta_inv js r r"
  by (simp add: started_runner_def meta_inv_def located_def same_session_def fresh_runner_def)

section \<open>When completion succeeds\<close>

text \<open>A healthy file system in which nothing is in the way of the two files.\<close>

definition can_write :: "path \<Rightarrow> os \<Rightarrow> bool" where
  "can_write p s \<longleftrightarrow> look s (temporary_path p s) = None \<and> not_directory s p"

definition can_complete :: "session_paths \<Rightarrow> os \<Rightarrow> bool" where
  "can_complete ps s \<longleftrightarrow>
     no_faults s \<and> 0 \<le> clock s \<and> can_write (p_output ps) s \<and> can_write (p_metadata ps) s"

text \<open>A JSON encoder that never fails and stays within the limit.\<close>

definition encodes :: "json \<Rightarrow> bool" where
  "encodes js \<longleftrightarrow> (\<forall>m. \<exists>xs. to_vec js m = Some xs \<and> length xs \<le> MAX_METADATA_BYTES)"

lemma can_write_now:
  assumes "can_write p s" and "no_faults s" and "p \<in> session_keys reg"
  obtains t where "atomic_write p xs s = (Inr (), t)"
proof -
  have "is_ok (fst (atomic_write p xs s))"
    using assms session_key_file_name session_key_temporary [OF assms(3,3)]
    by (intro atomic_write_succeeds) (auto simp: can_write_def)
  then show thesis using that by (rule is_ok_E)
qed

lemma can_write_after:
  assumes "can_write q s" and "atomic_write p xs s = (Inr u, t)"
    and "p \<in> session_keys reg" and "q \<in> session_keys reg"
  shows "can_write q t"
proof -
  have ne: "temporary_path p s \<noteq> p" using session_key_temporary [OF assms(3,3)] .
  note t = atomic_write_Inr [OF assms(2) ne]
  have "temporary_path q s \<noteq> p" "temporary_path p s \<noteq> q"
    using session_key_temporary [OF assms(4,3)] session_key_temporary [OF assms(3,4)] by simp_all
  then show ?thesis
    using t assms(1) temporary_path_process [of s t]
    by (auto simp: can_write_def not_directory_def own_file_def new_entry_def is_dir_def)
qed

lemma can_complete_after:
  assumes "can_complete ps s" and "atomic_write p xs s = (Inr u, t)" and "ps = paths_of reg session" and "session_wf session"
    and "p \<in> {p_output ps, p_metadata ps}"
  shows "can_complete ps t"
proof -
  have keys: "p_output ps \<in> session_keys reg" "p_metadata ps \<in> session_keys reg" using assms(3,4) by auto
  then have p: "p \<in> session_keys reg" using assms(5) by auto
  have "same_process s t" using atomic_write_session(1) [OF p assms(2)] .
  then show ?thesis
    using assms(1) can_write_after [OF _ assms(2) p] keys no_faults_process [of s t]
    by (auto simp: can_complete_def same_process_fields)
qed

lemma can_complete_traces:
  assumes "changes_only {p_trace ps} s t" and "can_complete ps s" and "ps = paths_of reg session" and "session_wf session"
  shows "can_complete ps t"
proof -
  have keys: "p_output ps \<in> session_keys reg" "p_metadata ps \<in> session_keys reg" "p_trace ps \<in> session_keys reg"
    using assms(3,4) by auto
  have "can_write q t" if "can_write q s" "q \<in> session_keys reg" "q \<noteq> p_trace ps" for q
  proof -
    have "temporary_path q t = temporary_path q s" "temporary_path q s \<noteq> p_trace ps"
      using assms(1) that(2) session_key_temporary [OF that(2) keys(3)]
      by (simp_all add: temporary_path_process changes_only_def)
    then show ?thesis
      using that assms(1) by (simp add: can_write_def not_directory_def changes_only_look)
  qed
  moreover have "p_output ps \<noteq> p_trace ps" "p_metadata ps \<noteq> p_trace ps"
    using assms(3) by (auto simp: paths_of_session_path bs_def)
  moreover have "same_process s t" using assms(1) by (simp add: changes_only_def)
  ultimately show ?thesis
    using assms(2) keys no_faults_process [of s t] by (auto simp: can_complete_def same_process_fields)
qed

lemma write_metadata_ready:
  assumes "can_complete ps s" and "encodes js" and "ps = paths_of reg session" and "session_wf session"
  obtains t where "write_metadata js ps m s = (Inr (), t)" "can_complete ps t"
proof -
  have key: "p_metadata ps \<in> session_keys reg" using assms(3,4) by auto
  obtain xs where xs: "to_vec js m = Some xs" "length xs \<le> MAX_METADATA_BYTES" using assms(2) by (auto simp: encodes_def)
  obtain t where t: "atomic_write (p_metadata ps) xs s = (Inr (), t)"
    using can_write_now [OF _ _ key] assms(1) by (auto simp: can_complete_def)
  have "write_metadata js ps m s = (Inr (), t)" using xs t by (simp add: write_metadata_def)
  then show thesis using that can_complete_after [OF assms(1) t assms(3,4)] by simp
qed

lemma record_completion_succeeds:
  assumes "can_complete (rn_paths r) (rn_os r)" and "encodes js" and "located k r"
    and "length (tail_snapshot (rn_tail r)) \<le> OUTPUT_TAIL_BYTES"
  obtains r' where "record_completion js exit r = (Inr (), r')"
proof -
  have loc: "rn_paths r = paths_of (rn_registry r) (rn_session r)" "session_wf (rn_session r)"
    using assms(3) by (simp_all add: located_def)
  obtain s1 where o: "atomic_write (p_output (rn_paths r)) (tail_snapshot (rn_tail r)) (rn_os r) = (Inr (), s1)"
    using can_write_now [OF _ _ runner_keys(2) [OF assms(3)]] assms(1) by (auto simp: can_complete_def)
  have s1: "can_complete (rn_paths r) s1" by (rule can_complete_after [OF assms(1) o loc]) simp
  then have now: "now_seconds s1 = (Inr (word_of_int (clock s1)), s1)" by (simp add: now_seconds_def can_complete_def)
  obtain s2 where m: "write_metadata js (rn_paths r)
      (Completed \<lparr>cs_session_id = session_to_string (rn_session r), cs_started_at = rn_started_at r,
         cs_finished_at = word_of_int (clock s1), cs_exit = exit_metadata_from exit,
         cs_output_bytes = length (tail_snapshot (rn_tail r)), cs_truncated = tail_is_truncated (rn_tail r)\<rparr>) s1 = (Inr (), s2)"
    by (rule write_metadata_ready [OF s1 assms(2) loc])
  have out: "write_output (rn_paths r) (tail_snapshot (rn_tail r)) (rn_os r) = (Inr (), s1)"
    using o assms(4) by (simp add: write_output_def)
  obtain s3 where l: "remove_live_files (rn_paths r) s2 = (Inr (), s3)"
    by (simp add: remove_live_files_def io_simps)
  have "record_completion js exit r = (Inr (), r\<lparr>rn_os := s3\<rparr>)"
    using out now m l by (simp add: record_completion_def on_os_def io_try_apply)
  then show thesis by (rule that)
qed

text \<open>Errors of the terminal that the loop takes for nothing to read, or for its end.\<close>

definition harmless :: "io_error \<Rightarrow> bool" where
  "harmless e \<longleftrightarrow> err_kind e = WouldBlock \<or> err_kind e = Interrupted \<or> raw_os_error e = Some EIO"

definition terminal_ok :: "runner \<Rightarrow> bool" where
  "terminal_ok r \<longleftrightarrow> (\<forall>e. Read_fails e \<in> set (read_plan (pty_in (rn_master r))) \<longrightarrow> harmless e)"

lemma read_once_harmless:
  assumes "read_once n rd = (res, rd')" and "\<And>e. Read_fails e \<in> set (read_plan rd) \<Longrightarrow> harmless e"
  shows "(\<forall>e. res = Inl e \<longrightarrow> harmless e) \<and> (\<forall>e. Read_fails e \<in> set (read_plan rd') \<longrightarrow> harmless e)"
proof -
  have "harmless (io_error_new WouldBlock)" by (simp add: harmless_def)
  with assms show ?thesis
    by (auto simp: read_once_def split: list.splits read_response.splits dry.splits if_splits)
qed

lemma trace_master [simp]:
  "rn_master (trace_event ev r) = rn_master r" "rn_master (trace_io_error ev e r) = rn_master r"
  by (auto simp: trace_event_def trace_io_error_def trace_entry_def split: option.splits prod.splits)

lemma terminal_ok_trace [simp]:
  "terminal_ok (trace_event ev r) = terminal_ok r" "terminal_ok (trace_io_error ev e r) = terminal_ok r"
  "terminal_ok (deliver bytes r) = terminal_ok r"
  by (simp_all add: terminal_ok_def)

lemma drain_loop_ok:
  "drain_loop n r = (res, r') \<Longrightarrow> terminal_ok r \<Longrightarrow> is_ok res \<and> terminal_ok r'"
proof (induction n r arbitrary: res r' rule: drain_loop.induct)
  case (1 n r)
  obtain q rd where rd: "read_once IO_CHUNK_BYTES (pty_in (rn_master r)) = (q, rd)" by fastforce
  let ?r = "set_pty_reader rd r"
  have plan: "harmless e" if "Read_fails e \<in> set (read_plan (pty_in (rn_master r)))" for e
    using "1.prems"(2) that by (simp add: terminal_ok_def)
  note rh = read_once_harmless [OF rd plan]
  then have h: "harmless e" if "q = Inl e" for e using that by blast
  have r: "terminal_ok ?r" using rh by (simp add: terminal_ok_def)
  have d: "terminal_ok (deliver bytes ?r)" for bytes using r by simp
  show ?case
  proof (cases "n < MAX_PTY_BYTES_PER_TICK")
    case False
    with "1.prems" show ?thesis by (auto simp: drain_loop.simps [of n r])
  next
    case busy: True
    show ?thesis
    proof (cases q)
      case (Inl e)
      show ?thesis
      proof (cases "err_kind e = WouldBlock \<or> raw_os_error e = Some EIO")
        case True
        with "1.prems" busy rd Inl r show ?thesis by (auto simp: drain_loop.simps [of n r] split: if_splits)
      next
        case False
        with h [OF Inl] have "err_kind e = Interrupted" by (simp add: harmless_def)
        with "1.prems" busy rd Inl False have "drain_loop n ?r = (res, r')" by (simp add: drain_loop.simps [of n r])
        with "1.IH"(1) [OF busy rd [symmetric] Inl] False \<open>err_kind e = Interrupted\<close> r show ?thesis by simp
      qed
    next
      case (Inr bytes)
      show ?thesis
      proof (cases "bytes = []")
        case True
        with "1.prems" busy rd Inr r show ?thesis by (auto simp: drain_loop.simps [of n r])
      next
        case False
        with "1.prems" busy rd Inr have "drain_loop (n + length bytes) (deliver bytes ?r) = (res, r')"
          by (simp add: drain_loop.simps [of n r])
        with "1.IH"(2) [OF busy rd [symmetric] Inr False] d show ?thesis by simp
      qed
    qed
  qed
qed

text \<open>A runner whose terminal and files are well.\<close>

definition sound :: "runner \<Rightarrow> byte list \<Rightarrow> runner \<Rightarrow> bool" where
  "sound k a r \<longleftrightarrow> located k r \<and> data_inv a r \<and> terminal_ok r \<and> can_complete (rn_paths r) (rn_os r)"

lemma soundD:
  assumes "sound k a r"
  shows "located k r" "data_inv a r" "terminal_ok r" "can_complete (rn_paths r) (rn_os r)" "trace_ok r"
    "rn_paths r = paths_of (rn_registry r) (rn_session r)" "session_wf (rn_session r)"
  using assms unfolding sound_def located_def by blast+

lemma sound_traces:
  assumes "sound k a r" and "traces_only r r'" and "data_inv a r'" and "terminal_ok r'"
  shows "sound k a r'"
proof -
  note snd = soundD [OF assms(1)]
  have "changes_only {p_trace (rn_paths r)} (rn_os r) (rn_os r')"
    using assms(2) snd(5) by (simp only: traces_only_def)
  then have "can_complete (rn_paths r) (rn_os r')" using snd(4,6,7) by (rule can_complete_traces)
  moreover have "rn_paths r' = rn_paths r" using assms(2) by (simp add: traces_only_def same_session_def)
  ultimately show ?thesis
    unfolding sound_def using assms(3,4) located_traces [OF assms(2) snd(1)] by simp
qed

lemma sound_event: "sound k a r \<Longrightarrow> sound k a (trace_event ev r)"
  by (rule sound_traces [of k a r]) (simp_all add: tracing soundD)

lemma sound_drain:
  assumes "drain_pty r = (q, r')" and "sound k a r"
  shows "q = Inr () \<and> sound k a r' \<and> rn_child r' = rn_child r \<and> rn_now r' = rn_now r"
proof -
  have "is_ok q" "terminal_ok r'"
    using drain_loop_ok [OF assms(1) [unfolded drain_pty_def]] assms(2) by (simp_all add: sound_def)
  moreover have "data_inv a r'" using drain_pty_inv [OF assms(1)] assms(2) by (simp add: sound_def)
  ultimately show ?thesis
    using sound_traces [OF assms(2) drain_pty_traces(1) [OF assms(1)]] drain_pty_traces(3,4) [OF assms(1)]
    by (cases q) auto
qed

lemma sound_drain_step:
  assumes "sound k a r" and "encodes js"
  shows "\<exists>r'. drain_step js r = (Inr (), r') \<and> sound k a r' \<and> rn_child r' = rn_child r \<and> rn_now r' = rn_now r"
proof -
  obtain q r1 where d: "drain_pty r = (q, r1)" by fastforce
  note r1 = sound_drain [OF d assms(1)]
  show ?thesis
  proof (cases "rn_active r \<noteq> None \<and> rn_active r1 = None")
    case False
    with d r1 show ?thesis by (auto simp: drain_step_def io_try_apply)
  next
    case True
    let ?r = "trace_event ''attachment_output_queue_full'' r1"
    have snd: "sound k a ?r" using r1 by (simp add: sound_event)
    obtain s where w: "write_metadata js (rn_paths ?r) (runner_metadata ?r False) (rn_os ?r) = (Inr (), s)"
      "can_complete (rn_paths ?r) s"
      by (rule write_metadata_ready [OF soundD(4) [OF snd] assms(2) soundD(6,7) [OF snd]])
    then have a: "write_attached js False ?r = (Inr (), ?r\<lparr>rn_os := s\<rparr>)"
      by (simp add: write_attached_def on_os_def)
    then have "located k (?r\<lparr>rn_os := s\<rparr>)" using write_attached_says [OF a soundD(1) [OF snd]] by simp
    then have "sound k a (?r\<lparr>rn_os := s\<rparr>)"
      unfolding sound_def using soundD(2,3) [OF snd] w(2) by (simp add: terminal_ok_def)
    moreover have "drain_step js r = (Inr (), ?r\<lparr>rn_os := s\<rparr>)"
      using True d r1 a by (simp add: drain_step_def io_try_apply)
    ultimately show ?thesis using r1 by simp
  qed
qed

lemma sound_complete_session:
  assumes "sound k a r" and "encodes js"
  shows "\<exists>r'. complete_session js exit r = (Inr (), r')"
proof -
  obtain h where "data_view h r" using soundD(2) [OF assms(1)] unfolding data_inv_def by blast
  then have len: "length (tail_snapshot (rn_tail r)) \<le> OUTPUT_TAIL_BYTES"
    by (auto simp: data_view_def tail.stands_for_def last_bytes_def)
  obtain r1 where "record_completion js exit r = (Inr (), r1)"
    by (rule record_completion_succeeds [OF soundD(4) [OF assms(1)] assms(2) soundD(1) [OF assms(1)] len])
  then show ?thesis by (simp add: complete_session_def)
qed

lemma sound_completes:
  assumes "sound k a r" and "encodes js"
  shows "\<exists>r'. completes js status r = (Returns (Inr ()), r')"
proof -
  let ?r = "trace_process_exit (process_exit_of status) r"
  have "rn_master ?r = rn_master r"
    by (simp add: trace_process_exit_def trace_entry_def split: process_exit.splits option.splits prod.splits)
  then have "sound k a ?r"
    by (intro sound_traces [OF assms(1)]) (use soundD [OF assms(1)] in \<open>simp_all add: tracing terminal_ok_def\<close>)
  from sound_complete_session [OF this assms(2), of "process_exit_of status"] show ?thesis
    by (auto simp: completes_def)
qed

lemma ended_tick:
  assumes "sound k a r" and "encodes js" and "exited r status" and "ch_fails (rn_child r) = []"
  shows "\<exists>r'. runner_tick js answer r = (Returns (Inr ()), r')"
proof -
  obtain r1 where r1: "drain_step js r = (Inr (), r1)" "sound k a r1" "rn_child r1 = rn_child r" "rn_now r1 = rn_now r"
    using sound_drain_step [OF assms(1,2)] by blast
  have "try_wait (rn_child r1, rn_now r1) = (Inr (Some status), (rn_child r1, rn_now r1))"
    using assms(3,4) r1(3,4) by (auto simp: try_wait_def next_failure_def exited_def)
  then have t: "runner_try_wait r1 = (Inr (Some status), r1)" by (simp add: runner_try_wait_def)
  let ?r = "trace_event ''child_exited'' r1"
  have "sound k a ?r" using r1(2) by (rule sound_event)
  moreover obtain q r2 where d: "drain_pty ?r = (q, r2)" by fastforce
  ultimately have r2: "q = Inr ()" "sound k a r2" using sound_drain [OF d] by simp_all
  from sound_completes [OF r2(2) assms(2)] obtain r' where "completes js status r2 = (Returns (Inr ()), r')" by blast
  then show ?thesis using r1(1) t d r2(1) by (simp add: runner_tick_def child_exited_def)
qed

section \<open>The last client\<close>

lemma bq_flush_plan:
  "bq_flush (q, w) = (res, (q', w')) \<Longrightarrow> accepting (write_plan w) \<Longrightarrow> accepting (write_plan w')"
proof (induction "(q, w)" arbitrary: q w rule: bq_flush.induct)
  case (1 q w)
  show ?case
  proof (cases "bq_contents q = []")
    case True
    with "1.prems" show ?thesis by (simp add: bq_flush.simps [of q w])
  next
    case False
    obtain p w1 where p: "write_once (bq_slice q) w = (p, w1)" by fastforce
    note acc = write_once_accepting [OF p "1.prems"(2) bq_slice_nonempty [OF False]]
    show ?thesis
    proof (cases p)
      case (Inl e)
      with acc have "err_kind e = Interrupted" "accepting (write_plan w1)" by auto
      with "1.hyps"(1) [OF _ p [symmetric] Inl] "1.prems" False p Inl show ?thesis
        by (simp add: bq_flush.simps [of q w])
    next
      case (Inr n)
      with acc have "n \<noteq> 0" "accepting (write_plan w1)" by auto
      with "1.hyps"(2) [OF _ p [symmetric] Inr] "1.prems" False p Inr show ?thesis
        by (simp add: bq_flush.simps [of q w])
    qed
  qed
qed

lemma flush_connection_accepting:
  assumes "accepting (write_plan (s_out (c_stream c)))"
  obtains c' where "flush_connection c = (Inr (), c')" "bq_contents (c_output c') = []"
    "sink (s_out (c_stream c')) = queued c" "accepting (write_plan (s_out (c_stream c')))"
    "q_limit (c_output c') = q_limit (c_output c)"
proof -
  obtain q w where f: "bq_flush (c_output c, s_out (c_stream c)) = (Inr (), (q, w))" "bq_contents q = []"
    "sink w = sink (s_out (c_stream c)) @ bq_contents (c_output c)"
    using bq_flush_accepting [OF assms] by blast
  then show thesis
    using bq_flush_plan [OF f(1) assms] bq_flush_moves [OF f(1)]
    by (intro that [of "c\<lparr>c_output := q, c_stream := (c_stream c)\<lparr>s_out := w\<rparr>\<rparr>"]) (auto simp: flush_connection_def queued_def)
qed

lemma farewell_accepting:
  assumes "queue_ok c" and "accepting (write_plan (s_out (c_stream c)))"
  shows "sink (s_out (c_stream (farewell exit c))) = queued c @ record_frame (Exit exit)"
proof -
  obtain c1 where f: "flush_connection c = (Inr (), c1)" "bq_contents (c_output c1) = []"
    "sink (s_out (c_stream c1)) = queued c" "accepting (write_plan (s_out (c_stream c1)))"
    "q_limit (c_output c1) = q_limit (c_output c)"
    by (rule flush_connection_accepting [OF assms(2)])
  have e: "encode (Exit exit) = Inr (record_frame (Exit exit))" by (cases exit) (simp_all add: encode_frame limits)
  have len: "length (record_frame (Exit exit)) \<le> MAX_ATTACHMENT_QUEUE_BYTES"
    by (cases exit) (simp_all add: length_record_frame limits)
  then obtain o1 where p: "bq_push (c_output c1) (record_frame (Exit exit)) = (True, o1)"
    "bq_contents o1 = record_frame (Exit exit)"
    using f(2,5) assms(1) by (simp add: bq_push_eq queue_ok_def bq_contents_push)
  obtain c2 where "flush_connection (c1\<lparr>c_output := o1\<rparr>) = (Inr (), c2)"
    "sink (s_out (c_stream c2)) = queued (c1\<lparr>c_output := o1\<rparr>)"
    using flush_connection_accepting [of "c1\<lparr>c_output := o1\<rparr>"] f(4) by auto
  then show ?thesis using f p e by (simp add: farewell_def queued_def)
qed

lemma complete_session_client:
  assumes "complete_session js exit r = (Inr u, r')" and "rn_active r = Some c"
  shows "rn_closed r' = farewell exit c # rn_closed r"
proof -
  obtain r1 where rec: "record_completion js exit r = (Inr u, r1)"
    using assms(1) by (cases "record_completion js exit r"; cases "fst (record_completion js exit r)")
      (auto simp: complete_session_def)
  obtain s where s: "r1 = r\<lparr>rn_os := s\<rparr>"
    using on_os_fields [OF rec [unfolded record_completion_def Let_def]] by blast
  obtain t where "drop_files r1 = r1\<lparr>rn_os := t\<rparr>"
    by (cases "drop_session_files (rn_paths r1) (rn_os r1)") (simp add: drop_files_def on_os_def)
  then show ?thesis
    using assms rec s by (auto simp: complete_session_def drop_active_def)
qed

lemma decode_frames_exit:
  assumes "\<forall>p \<in> set pieces. length p \<le> MAX_IPC_PAYLOAD_BYTES" and "valid_record (Exit exit)"
  shows "decode_all \<lparr>buffer = output_frames pieces @ record_frame (Exit exit)\<rparr> =
    (Inr (map Output pieces @ [Exit exit]), \<lparr>buffer = []\<rparr>)"
proof -
  let ?rs = "map Output pieces @ [Exit exit]"
  have "output_frames pieces @ record_frame (Exit exit) = concat (map record_frame ?rs) @ []"
    by (simp add: output_frames_def comp_def)
  moreover have "ipc_drain (concat (map record_frame ?rs) @ []) = (Inr ?rs, [])"
    using assms by (intro ipc.drain_frames ipc.next_nil) auto
  ultimately show ?thesis by (simp add: decode_all_ipc_drain)
qed

lemma completed_run:
  assumes "started_runner js r0" and "run_event_loop js answers r0 = (Returns (Inr ()), r)"
  obtains history rest at status finished_at xs where
    "pending r0 = history @ rest" "at \<le> rn_now r" "child_end (rn_child r) = Some (at, status)"
    "look (rn_os r) (p_output (rn_paths r0)) = Some (own_file (rn_os r0) (last_bytes 262144 history))"
    "look (rn_os r) (p_metadata (rn_paths r0)) = Some (own_file (rn_os r0) xs)"
    "to_vec js (completed_record r0 (process_exit_of status) finished_at (min 262144 (length history))
      (262144 < length history)) = Some xs"
    "0 \<le> clock (rn_os r)" "finished_at = word_of_int (clock (rn_os r))"
proof -
  obtain answer r1 where r1: "(runner_step js)\<^sup>*\<^sup>* r0 r1" "runner_tick js answer r1 = (Returns (Inr ()), r)"
    using run_event_loop_last [OF assms(2)] by blast
  have "fresh_runner r0" using assms(1) by (simp add: started_runner_def)
  then have data: "data_inv (pending r0) r1"
    by (rule stream_steps.reachable_good [OF r1(1) fresh_data_inv])
  have meta: "meta_inv js r0 r1"
    by (rule meta_steps.reachable_good [OF r1(1) started_meta_inv [OF assms(1)]])
  obtain r2 status where r2: "completes js status r2 = (Returns (Inr ()), r)" "located r0 r2"
      "data_inv (pending r0) r2" "exited r2 status"
    by (rule runner_tick_Returns [OF r1(2) meta data])
  obtain h where h: "pending r0 = h @ pending r2" "data_view h r2" using r2(3) by (auto simp: data_inv_def)
  have snap: "tail_snapshot (rn_tail r2) = last_bytes 262144 h" "tail_is_truncated (rn_tail r2) \<longleftrightarrow> 262144 < length h"
    using h(2) by (auto simp: data_view_def tail.stands_for_def limits)
  have same: "same_session r0 r2" "\<And>xs. own_file (rn_os r2) xs = own_file (rn_os r0) xs"
    using r2(2) by (auto simp: located_def)
  have len: "length (last_bytes 262144 h) = min 262144 (length h)" by (simp add: last_bytes_def)
  note d = completes_on_disk [OF r2(1,2)]
  then obtain finished_at xs where "to_vec js (completed_record r2 (process_exit_of status) finished_at (min 262144 (length h)) (262144 < length h)) = Some xs"
    "look (rn_os r) (p_metadata (rn_paths r2)) = Some (own_file (rn_os r2) xs)"
    "0 \<le> clock (rn_os r)" "finished_at = word_of_int (clock (rn_os r))"
    by (auto simp: completed_on_disk_def Let_def snap len)
  moreover have "completed_record r2 = completed_record r0"
    using same(1) by (simp add: completed_record_def same_session_def fun_eq_iff)
  moreover obtain at where "at \<le> rn_now r2" "child_end (rn_child r2) = Some (at, status)"
    using r2(4) by (auto simp: exited_def)
  ultimately show thesis
    using d h(1) same snap
    by (intro that [of h "pending r2" at status xs finished_at])
      (auto simp: completed_on_disk_def Let_def same_session_def exited_def)
qed

section \<open>Properties\<close>

text \<open>
  C14: At the head of every tick the metadata file of a live session holds the session's live
  record, and its attachment flag is true exactly if a client is attached.
\<close>

theorem metadata_tracks_attachment:
  assumes "started_runner js r0" and "run_event_loop js answers r0 = (Again, r)"
  shows "\<exists>xs. to_vec js (live_metadata (rn_session r0) (rn_runner_pid r0) (rn_child_pid r0) (rn_started_at r0)
      (rn_active r \<noteq> None)) = Some xs \<and>
    look (rn_os r) (p_metadata (paths_of (rn_registry r0) (rn_session r0))) = Some (own_file (rn_os r0) xs)"
proof -
  have "meta_inv js r0 r"
    by (rule meta_steps.reachable_good [OF run_event_loop_reachable [OF assms(2)] started_meta_inv [OF assms(1)]])
  then show ?thesis
    by (auto simp: meta_inv_def meta_says_def located_def same_session_def runner_metadata_def)
qed





text \<open>
  C17: Once the managed process has ended, the next tick ends the loop without an error,
  whatever \<open>poll\<close> would answer and whether or not a client is attached, provided the status
  can be fetched, the terminal reports no error but the end of its input, and nothing on
  disk is in the way.
\<close>

theorem ended_session_completes:
  assumes "sound r0 a r" and "encodes js" and "exited r status" and "ch_fails (rn_child r) = []"
  shows "\<exists>r'. runner_tick js answer r = (Returns (Inr ()), r')"
  using assms by (rule ended_tick)

text \<open>
  C22: Whatever fails while a session is completed, the metadata file is as it was, or it is
  the completed record and the whole output it speaks of is in the output file; the latter
  exactly if success is reported.
\<close>

theorem completion_is_ordered:
  assumes "located k r" and "complete_session js exit r = (res, r')"
  shows "if is_ok res
    then look (rn_os r') (p_output (rn_paths r)) = Some (own_file (rn_os r) (tail_snapshot (rn_tail r))) \<and>
      (\<exists>finished_at xs. to_vec js (completed_record r exit finished_at (length (tail_snapshot (rn_tail r)))
           (tail_is_truncated (rn_tail r))) = Some xs \<and>
         look (rn_os r') (p_metadata (rn_paths r)) = Some (own_file (rn_os r) xs))
    else look (rn_os r') (p_metadata (rn_paths r)) = look (rn_os r) (p_metadata (rn_paths r))"
  using complete_session_cases [OF assms(2,1)] by (auto simp: completed_on_disk_def Let_def)

text \<open>
  A client that is attached when the session completes and that takes what it is sent
  has received: its replay, all output since, and then exactly one exit record with the
  status of the session.
\<close>

theorem last_client_gets_exit:
  assumes "data_inv all_output r" and "rn_active r = Some c" and "accepting (write_plan (s_out (c_stream c)))"
    and "complete_session js exit r = (Inr (), r')" and "valid_record (Exit exit)"
  shows "\<exists>c' seen later outs. rn_closed r' = c' # rn_closed r \<and> all_output = seen @ later @ pending r \<and>
    decode_all \<lparr>buffer = sink (s_out (c_stream c'))\<rparr> = (Inr (map Output outs @ [Exit exit]), \<lparr>buffer = []\<rparr>) \<and>
    concat outs = (if 262144 < length seen then TRUNCATION_MARKER else []) @ last_bytes 262144 seen @ later"
proof -
  obtain h where h: "all_output = h @ pending r" "follows h c"
    using assms(1,2) by (auto simp: data_inv_def data_view_def)
  then obtain seen later pieces where p: "h = seen @ later" "concat pieces = replay seen @ later"
    "queued c = output_frames pieces" "\<forall>p \<in> set pieces. length p \<le> MAX_IPC_PAYLOAD_BYTES"
    by (auto simp: follows_def carries_def)
  have "queue_ok c" using h(2) by (simp add: follows_def)
  from farewell_accepting [OF this assms(3)] p(3)
  have "sink (s_out (c_stream (farewell exit c))) = output_frames pieces @ record_frame (Exit exit)" by simp
  then show ?thesis
    using h(1) p decode_frames_exit [OF p(4) assms(5)] complete_session_client [OF assms(4,2)]
    by (intro exI [of _ "farewell exit c"] exI [of _ seen] exI [of _ later] exI [of _ pieces])
      (simp add: replay_def limits)
qed

section \<open>A session that ends\<close>

definition started_os :: os where
  "started_os = snd (atomic_write (p_metadata sample_paths) (bs ''live'') sample_os)"

lemma started_os_facts:
  "clean_directory sample_registry started_os" "no_faults started_os" "same_process sample_os started_os"
  "look started_os (p_metadata sample_paths) = Some (own_file sample_os (bs ''live''))"
proof -
  note key = session_key_paths(1) [OF sample_session_wf, of sample_registry]
  obtain t where t: "atomic_write (p_metadata sample_paths) (bs ''live'') sample_os = (Inr (), t)"
    "clean_directory sample_registry t" "no_faults t"
    by (rule clean_write [OF sample_clean sample_no_faults key])
  then have "started_os = t" by (simp add: started_os_def)
  with t atomic_write_session [OF key t(1)] key
  show "clean_directory sample_registry started_os" "no_faults started_os" "same_process sample_os started_os"
    "look started_os (p_metadata sample_paths) = Some (own_file sample_os (bs ''live''))" by simp_all
qed

definition ended_runner :: runner where
  "ended_runner = sample_runner\<lparr>rn_os := started_os,
     rn_child := stubborn_child\<lparr>ch_natural := Some (0, \<lparr>es_code = Some 3, es_signal = None\<rparr>)\<rparr>\<rparr>"

lemma ended_runner_fields:
  "rn_session ended_runner = sample_session" "rn_registry ended_runner = sample_registry"
  "rn_paths ended_runner = sample_paths" "rn_trace ended_runner = None" "rn_os ended_runner = started_os"
  "rn_master ended_runner = rn_master sample_runner" "ch_fails (rn_child ended_runner) = []" "rn_now ended_runner = 0"
  by (simp_all add: ended_runner_def sample_runner_def stubborn_child_def)

lemma ended_runner_fresh: "fresh_runner ended_runner"
  using sample_runner_fresh unfolding fresh_runner_def ended_runner_def by simp

lemma sample_live_written:
  "rn_session r = sample_session \<Longrightarrow> rn_paths r = sample_paths \<Longrightarrow> rn_os r = started_os \<Longrightarrow> meta_says sample_json False r"
  using started_os_facts(3,4) own_file_process
  by (simp add: meta_says_def runner_metadata_def live_metadata_def sample_json_def)

lemma ended_runner_started: "started_runner sample_json ended_runner"
  using ended_runner_fresh sample_live_written [of ended_runner]
  by (simp add: started_runner_def ended_runner_fields trace_ok_def)

lemma sample_encodes: "encodes sample_json"
  unfolding encodes_def
proof
  fix m
  show "\<exists>xs. to_vec sample_json m = Some xs \<and> length xs \<le> MAX_METADATA_BYTES"
    by (cases m) (simp_all add: sample_json_def bs_def MAX_METADATA_BYTES_def)
qed

lemma ended_runner_sound: "sound ended_runner (pending ended_runner) ended_runner"
proof -
  have "can_complete sample_paths started_os"
    using started_os_facts(1,2) same_process_fields(5) [OF started_os_facts(3)]
      session_key_paths(1,2) [OF sample_session_wf, of sample_registry]
    by (simp add: can_complete_def can_write_def clean_directory_def) (simp add: sample_os_def)
  moreover have "located ended_runner ended_runner"
    using started_meta_inv [OF ended_runner_started] by (simp add: meta_inv_def)
  moreover have "terminal_ok ended_runner"
    by (simp add: terminal_ok_def ended_runner_fields) (simp add: sample_runner_def)
  ultimately show ?thesis
    using fresh_data_inv [OF ended_runner_fresh] by (simp add: sound_def ended_runner_fields)
qed

lemma ended_runner_exited: "exited ended_runner \<lparr>es_code = Some 3, es_signal = None\<rparr>"
  by (simp add: exited_def ended_runner_def sample_runner_def child_end_def stubborn_child_def)

definition parting_runner :: runner where
  "parting_runner = ended_runner\<lparr>rn_active := Some (connection_new (accepted_stream sample_client))\<rparr>"

lemma parting_runner_sound: "sound ended_runner (pending ended_runner) parting_runner"
proof -
  let ?c = "connection_new (accepted_stream sample_client)"
  have "data_view [] ended_runner" by (rule fresh_data_view [OF ended_runner_fresh])
  moreover have "carries [] ?c"
    unfolding carries_def
    using quiet_new(1) [of sample_client]
    by (intro exI [of _ "[]"]) (simp add: quiet_def output_frames_def)
  then have "follows [] ?c"
    using quiet_new(1) [of sample_client] by (simp add: quiet_def follows_def replay_def last_bytes_def)
  ultimately have "data_view [] parting_runner"
    using quiet_new(2) by (simp add: data_view_def parting_runner_def)
  then have "data_inv (pending ended_runner) parting_runner"
    unfolding data_inv_def by (intro exI [of _ "[]"]) (simp add: pending_def parting_runner_def)
  then show ?thesis
    using ended_runner_sound located_traces [OF traces_only_update(1)]
    by (simp add: sound_def parting_runner_def terminal_ok_def)
qed

definition waiting_runner :: runner where
  "waiting_runner =
     set_pty_reader \<lparr>read_plan = [], when_dry = Would_block\<rparr> (sample_runner\<lparr>rn_os := started_os\<rparr>)"

lemma waiting_runner_fields:
  "rn_session waiting_runner = sample_session" "rn_paths waiting_runner = sample_paths"
  "rn_os waiting_runner = started_os" "rn_registry waiting_runner = sample_registry" "rn_trace waiting_runner = None"
  "rn_active waiting_runner = None" "rn_child waiting_runner = stubborn_child"
  "read_plan (pty_in (rn_master waiting_runner)) = []" "when_dry (pty_in (rn_master waiting_runner)) = Would_block"
  "fresh_runner waiting_runner"
  using sample_runner_fresh
  by (simp_all add: waiting_runner_def set_pty_reader_def sample_runner_def fresh_runner_def)

lemma waiting_runner_tick:
  "\<exists>r. runner_tick sample_json \<lparr>pa_result = Inl EINTR, pa_elapsed = 1, pa_clock = 100\<rparr> waiting_runner = (Again, r)"
proof -
  have "drain_pty waiting_runner = (Inr (), waiting_runner)"
    unfolding drain_pty_def by (rule drain_loop_dry [OF waiting_runner_fields(8,9)]) (simp add: limits)
  then have "drain_step sample_json waiting_runner = (Inr (), waiting_runner)"
    by (simp add: drain_step_def io_try_apply waiting_runner_fields)
  moreover have "runner_try_wait waiting_runner = (Inr None, waiting_runner)"
    by (simp add: runner_try_wait_def waiting_runner_fields stubborn_lives)
  ultimately show ?thesis by (simp add: runner_tick_def Let_def)
qed

lemma metadata_tracks_attachment_witness:
  "\<exists>r xs. run_event_loop sample_json [\<lparr>pa_result = Inl EINTR, pa_elapsed = 1, pa_clock = 100\<rparr>] waiting_runner = (Again, r) \<and>
     look (rn_os r) (p_metadata sample_paths) = Some (own_file started_os xs)"
proof -
  have s: "started_runner sample_json waiting_runner"
    using sample_live_written [of waiting_runner]
    by (simp add: started_runner_def trace_ok_def waiting_runner_fields)
  obtain r where r: "run_event_loop sample_json [\<lparr>pa_result = Inl EINTR, pa_elapsed = 1, pa_clock = 100\<rparr>] waiting_runner = (Again, r)"
    using waiting_runner_tick by auto
  from metadata_tracks_attachment [OF s r] r show ?thesis by (auto simp: waiting_runner_fields)
qed


lemma ended_session_completes_witness:
  "\<exists>r'. runner_tick sample_json poll_accept ended_runner = (Returns (Inr ()), r')"
  by (rule ended_session_completes [OF ended_runner_sound sample_encodes ended_runner_exited ended_runner_fields(7)])

lemma completion_is_ordered_witness:
  "\<exists>r'. complete_session sample_json (Code 3) ended_runner = (Inr (), r') \<and>
     look (rn_os r') (p_output sample_paths) = Some (own_file started_os (tail_snapshot (rn_tail ended_runner)))"
proof -
  obtain r' where c: "complete_session sample_json (Code 3) ended_runner = (Inr (), r')"
    using sound_complete_session [OF ended_runner_sound sample_encodes] by blast
  with completion_is_ordered [OF soundD(1) [OF ended_runner_sound] c] show ?thesis
    by (simp add: ended_runner_fields)
qed

lemma last_client_gets_exit_witness:
  "\<exists>r' c' outs. complete_session sample_json (Code 3) parting_runner = (Inr (), r') \<and>
     rn_closed r' = c' # rn_closed parting_runner \<and>
     decode_all \<lparr>buffer = sink (s_out (c_stream c'))\<rparr> = (Inr (map Output outs @ [Exit (Code 3)]), \<lparr>buffer = []\<rparr>)"
proof -
  obtain r' where c: "complete_session sample_json (Code 3) parting_runner = (Inr (), r')"
    using sound_complete_session [OF parting_runner_sound sample_encodes] by blast
  have a: "rn_active parting_runner = Some (connection_new (accepted_stream sample_client))"
    by (simp add: parting_runner_def)
  have w: "accepting (write_plan (s_out (c_stream (connection_new (accepted_stream sample_client)))))"
    by (simp add: connection_new_def accepted_stream_def sample_client_def)
  have v: "valid_record (Exit (Code 3))" by simp
  from last_client_gets_exit [OF soundD(2) [OF parting_runner_sound] a w c v] c show ?thesis by blast
qed

end
