(* ===== verification/Runner_Start.thy ===== *)
theory Runner_Start
  imports Startup Runner_End
begin

text \<open>
  src/runner.rs, from the launch of a session's runner to its event loop: \<open>launch_runner\<close> in
  the launching process, \<open>hidden_runner\<close> and \<open>start_runner\<close> in the new one, and \<open>hidden_child\<close>
  in the process that becomes the session's command.

  The process calls of rustix and std::process are data of the environment: whether they
  fail, and what \<open>spawn\<close> returns for a program and its arguments.
\<close>

section \<open>The runner's side\<close>

text \<open>What the new runner acts on: its standard input, a socket, and the operating system.\<close>

record host =
  ho_in :: reader
  ho_out :: writer
  ho_os :: os
  ho_child :: "process option"

record start_env =
  se_json :: json
  se_setsid :: "int option"
  se_openpty :: "winsize \<Rightarrow> int + pty"
  se_dup_stdout :: "int option"
  se_dup_stderr :: "int option"
  se_exe :: "path io_result"
  se_spawn :: "path \<Rightarrow> os_string list \<Rightarrow> child io_result"
  se_master :: "unit terminal"
  se_accepts :: "accept_response list"
  se_now :: nat

definition host_os :: "(os, 'a) io \<Rightarrow> (host, 'a) io" where
  "host_os m h = (case m (ho_os h) of (res, s) \<Rightarrow> (res, h\<lparr>ho_os := s\<rparr>))"

definition host_out :: "(writer, 'a) io \<Rightarrow> (host, 'a) io" where
  "host_out m h = (case m (ho_out h) of (res, w) \<Rightarrow> (res, h\<lparr>ho_out := w\<rparr>))"

definition outcome_of :: "'a io_result \<Rightarrow> ('s, 'a) io" where
  "outcome_of res s = (res, s)"

definition errno_result :: "int option \<Rightarrow> unit io_result" where
  "errno_result failed = (case failed of None \<Rightarrow> Inr () | Some code \<Rightarrow> Inl (io_error_from_errno code))"

definition become_session_leader :: "int option \<Rightarrow> unit io_result" where
  "become_session_leader setsid = errno_result setsid"

definition acquire_controlling_terminal :: "int option \<Rightarrow> unit io_result" where
  "acquire_controlling_terminal tiocsctty = errno_result tiocsctty"

definition default_shell :: "(os, os_string) io" where
  "default_shell s =
     (case env_shell s of
        None \<Rightarrow> (Inr (bs ''/bin/sh''), s)
      | Some shell \<Rightarrow>
          if path_is_absolute shell \<and>
             (case fst (fs_stat shell s) of Inl _ \<Rightarrow> False | Inr e \<Rightarrow> is_file e \<and> e_mode e AND 73 \<noteq> 0)
          then (Inr shell, s) else (Inr (bs ''/bin/sh''), s))"

definition start_event :: "string \<Rightarrow> trace option \<Rightarrow> (host, trace option) io" where
  "start_event event t h =
     (case t of
        None \<Rightarrow> (Inr None, h)
      | Some t \<Rightarrow> (case trace_record (Trace_event (bs event)) t (ho_os h) of
          (t', s') \<Rightarrow> (Inr (Some t'), h\<lparr>ho_os := s'\<rparr>)))"

definition start_trace :: "bool \<Rightarrow> path \<Rightarrow> (os, trace option) io" where
  "start_trace enabled p =
     (if enabled then io_try (trace_create p (bs ''runner'')) (\<lambda>t. io_ok (Some t)) else io_ok None)"

text \<open>The locals \<open>run_event_loop\<close> begins with.\<close>

definition first_runner ::
    "start_env \<Rightarrow> session_id \<Rightarrow> registry \<Rightarrow> session_paths \<Rightarrow> pty \<Rightarrow> child \<Rightarrow> u64 \<Rightarrow> trace option \<Rightarrow> os \<Rightarrow> runner" where
  "first_runner env session reg paths master c started_at t s =
     \<lparr>rn_session = session, rn_registry = reg, rn_paths = paths, rn_runner_pid = os_pid s,
       rn_child_pid = ch_id c, rn_started_at = started_at, rn_master = master, rn_child = c,
       rn_accepts = se_accepts env, rn_trace = t, rn_tail = tail_new OUTPUT_TAIL_BYTES,
       rn_input = bq_new MAX_ATTACHMENT_QUEUE_BYTES, rn_active = None, rn_candidate = None,
       rn_stop = False, rn_now = se_now env, rn_os = s, rn_closed = []\<rparr>"

text \<open>The child is killed and reaped if the runner cannot report that it is ready.\<close>

definition kill_child :: "host \<Rightarrow> host" where
  "kill_child h =
     (case ho_child h of
        None \<Rightarrow> h
      | Some p \<Rightarrow>
          (let p = snd (kill_process SIGKILL p)
           in h\<lparr>ho_child := Some (case wait_child p of None \<Rightarrow> p | Some (_, p) \<Rightarrow> p)\<rparr>))"

definition report_ready ::
    "start_env \<Rightarrow> session_id \<Rightarrow> session_paths \<Rightarrow> u32 \<Rightarrow> u64 \<Rightarrow> (host, unit) io" where
  "report_ready env session paths child_pid started_at h =
     io_match
       (io_try (host_os (write_metadata (se_json env) paths
          (live_metadata session (os_pid (ho_os h)) child_pid started_at False))) (\<lambda>_.
        host_out (write_startup_response STARTUP_READY)))
       (\<lambda>e h. (Inl e, kill_child h))
       io_ok h"

definition launch_child ::
    "start_env \<Rightarrow> startup_config \<Rightarrow> trace option \<Rightarrow> (host, child \<times> trace option) io" where
  "launch_child env config t =
     io_try (if sc_command config = [] then io_try (host_os default_shell) (\<lambda>shell. io_ok [shell])
             else io_ok (sc_command config)) (\<lambda>command.
     io_try (outcome_of (errno_result (se_dup_stdout env))) (\<lambda>_.
     io_try (outcome_of (errno_result (se_dup_stderr env))) (\<lambda>_.
     io_try (outcome_of (se_exe env)) (\<lambda>exe.
     io_try (outcome_of (se_spawn env exe (bs ''__child'' # command))) (\<lambda>c h.
     io_try (start_event ''child_started'' t) (\<lambda>t. io_ok (c, t)) (h\<lparr>ho_child := Some (c, se_now env)\<rparr>))))))"

text \<open>From the bound session on; every error return drops the session files.\<close>

definition start_body ::
    "start_env \<Rightarrow> session_id \<Rightarrow> registry \<Rightarrow> session_paths \<Rightarrow> startup_config \<Rightarrow> (host, runner) io" where
  "start_body env session reg paths config =
     io_try (host_os (start_trace (sc_trace config) (p_trace paths))) (\<lambda>t.
     io_try (start_event ''runner_started'' t) (\<lambda>t.
     io_try (outcome_of (create_pty (se_openpty env) (sc_rows config) (sc_columns config))) (\<lambda>master.
     io_try (launch_child env config t) (\<lambda>(c, t).
     io_try (host_os now_seconds) (\<lambda>started_at.
     io_try (report_ready env session paths (ch_id c) started_at) (\<lambda>_.
     io_try (outcome_of (fst (set_nonblocking (se_master env)))) (\<lambda>_ h.
       (Inr (first_runner env session reg paths master c started_at t (ho_os h)), h))))))))"

definition start_bound ::
    "start_env \<Rightarrow> session_id \<Rightarrow> registry \<Rightarrow> session_paths \<Rightarrow> startup_config \<Rightarrow> (host, runner) io" where
  "start_bound env session reg paths config =
     io_match (start_body env session reg paths config)
       (\<lambda>e. io_ignore (host_os (drop_session_files paths)) (io_fail e))
       io_ok"

definition start_runner :: "start_env \<Rightarrow> session_id \<Rightarrow> startup_config \<Rightarrow> (host, runner) io" where
  "start_runner env session config =
     io_try (outcome_of (become_session_leader (se_setsid env))) (\<lambda>_ h.
     io_try (host_os (registry_open (se_json env))) (\<lambda>reg.
     io_try (host_os (bind_session (se_json env) reg session)) (\<lambda>paths.
     start_bound env session reg paths config)) (h\<lparr>ho_os := (ho_os h)\<lparr>os_umask := 63\<rparr>\<rparr>))"

definition failure_response :: "io_error \<Rightarrow> byte" where
  "failure_response e = (if err_kind e = AlreadyExists then STARTUP_EXISTS else STARTUP_FAILED)"

definition respond :: "byte \<Rightarrow> host \<Rightarrow> host" where
  "respond response h = snd (host_out (write_startup_response response) h)"

text \<open>\<open>hidden\_runner\<close>: the start and, over the answers of \<open>poll\<close>, the event loop.\<close>

definition hidden_runner :: "start_env \<Rightarrow> session_id \<Rightarrow> poll_answer list \<Rightarrow> host \<Rightarrow> outcome \<times> host" where
  "hidden_runner env session answers h =
     (case read_startup_config (ho_in h) of
        (Inl e, rd) \<Rightarrow> (Returns (Inl e), respond STARTUP_FAILED (h\<lparr>ho_in := rd\<rparr>))
      | (Inr config, rd) \<Rightarrow>
          (case start_runner env session config (h\<lparr>ho_in := rd\<rparr>) of
             (Inl e, h) \<Rightarrow> (Returns (Inl e), respond (failure_response e) h)
           | (Inr r, h) \<Rightarrow>
               (case run_event_loop (se_json env) answers r of
                  (Returns (Inl e), r) \<Rightarrow> (Returns (Inl e), respond (failure_response e) (h\<lparr>ho_os := rn_os r\<rparr>))
                | (result, r) \<Rightarrow> (result, h\<lparr>ho_os := rn_os r\<rparr>))))"

section \<open>The launcher's side\<close>

record launch_env =
  la_pair :: "stream io_result"
  la_exe :: "path io_result"
  la_spawn :: "path \<Rightarrow> os_string list \<Rightarrow> unit io_result"

definition read_startup_response :: "(reader, unit) io" where
  "read_startup_response =
     io_try (read_exact 1) (\<lambda>response.
       if response ! 0 = STARTUP_READY then io_ok ()
       else if response ! 0 = STARTUP_EXISTS then io_fail (io_error_new AlreadyExists)
       else io_fail (io_error_new Other))"

definition launch_runner ::
    "launch_env \<Rightarrow> session_id \<Rightarrow> bool \<Rightarrow> os_string list \<Rightarrow> u16 \<Rightarrow> u16 \<Rightarrow> unit io_result" where
  "launch_runner env session trace command rows columns =
     (case la_pair env of
        Inl e \<Rightarrow> Inl e
      | Inr launcher \<Rightarrow>
          (case la_exe env of
             Inl e \<Rightarrow> Inl e
           | Inr exe \<Rightarrow>
               (case la_spawn env exe [bs ''__runner'', session_to_string session] of
                  Inl e \<Rightarrow> Inl e
                | Inr _ \<Rightarrow>
                    (case fst (write_startup_config trace command rows columns (s_out launcher)) of
                       Inl e \<Rightarrow> Inl e
                     | Inr _ \<Rightarrow> fst (read_startup_response (s_in launcher))))))"

section \<open>The child's side\<close>

text \<open>
  \<open>hidden\_child\<close>: \<open>exec\<close> returns only if it fails, so a call that returns is an error, and
  \<open>None\<close> is a process that has become the command.
\<close>

definition hidden_child ::
    "int option \<Rightarrow> int option \<Rightarrow> (os_string \<Rightarrow> os_string list \<Rightarrow> io_error option) \<Rightarrow> os_string list \<Rightarrow>
     unit io_result option" where
  "hidden_child setsid tiocsctty exec command =
     (case become_session_leader setsid of
        Inl e \<Rightarrow> Some (Inl e)
      | Inr _ \<Rightarrow>
          (case acquire_controlling_terminal tiocsctty of
             Inl e \<Rightarrow> Some (Inl e)
           | Inr _ \<Rightarrow>
               (case command of
                  [] \<Rightarrow> Some (Inl (io_error_new InvalidInput))
                | program # arguments \<Rightarrow> map_option Inl (exec program arguments))))"


section \<open>What the start changes\<close>

text \<open>
  A step of the start changes only files of \<open>P\<close>, and what it returns satisfies \<open>Q\<close>.
\<close>

definition confined :: "path set \<Rightarrow> ('a \<Rightarrow> bool) \<Rightarrow> (host, 'a) io \<Rightarrow> bool" where
  "confined P Q m \<longleftrightarrow> (\<forall>h res h'. m h = (res, h') \<longrightarrow>
     changes_only P (ho_os h) (ho_os h') \<and> (\<forall>a. res = Inr a \<longrightarrow> Q a))"

named_theorems confining "steps of the start and the files they change"

lemma confinedD: "confined P Q m \<Longrightarrow> m h = (res, h') \<Longrightarrow> changes_only P (ho_os h) (ho_os h')"
  by (simp add: confined_def)

lemma confined_try [confining]:
  assumes "confined P Q m" and "\<And>a. Q a \<Longrightarrow> confined P R (f a)"
  shows "confined P R (io_try m f)"
  unfolding confined_def
proof (intro allI impI)
  fix h res h'
  assume run: "io_try m f h = (res, h')"
  obtain q h1 where q: "m h = (q, h1)" by fastforce
  with assms(1) have c: "changes_only P (ho_os h) (ho_os h1)" "\<And>a. q = Inr a \<Longrightarrow> Q a"
    by (auto simp: confined_def)
  show "changes_only P (ho_os h) (ho_os h') \<and> (\<forall>a. res = Inr a \<longrightarrow> R a)"
  proof (cases q)
    case (Inl e)
    with run q c(1) show ?thesis by (auto simp: io_try_apply)
  next
    case (Inr a)
    with run q have "f a h1 = (res, h')" by (simp add: io_try_apply)
    with assms(2) [OF c(2) [OF Inr]] have "changes_only P (ho_os h1) (ho_os h')" "\<forall>a. res = Inr a \<longrightarrow> R a"
      by (auto simp: confined_def)
    with changes_only_trans [OF c(1)] show ?thesis by blast
  qed
qed

lemma confined_ok [confining]: "Q a \<Longrightarrow> confined P Q (io_ok a)"
  by (simp add: confined_def io_ok_apply)

lemma confined_fail [confining]: "confined P Q (io_fail e)"
  by (simp add: confined_def io_fail_apply)

lemma confined_outcome [confining]: "confined P (\<lambda>_. True) (outcome_of res)"
  by (simp add: confined_def outcome_of_def)

lemma host_os_result: "host_os m h = (res, h') \<Longrightarrow> m (ho_os h) = (res, ho_os h') \<and> h' = h\<lparr>ho_os := ho_os h'\<rparr>"
  by (auto simp: host_os_def split: prod.splits)

lemma confined_os [confining]: "touches P m \<Longrightarrow> confined P (\<lambda>_. True) (host_os m)"
  unfolding confined_def using host_os_result touchesD by blast

lemma confined_out [confining]: "confined P (\<lambda>_. True) (host_out m)"
  by (auto simp: confined_def host_out_def split: prod.splits)

text \<open>The trace file of a session.\<close>

definition traces_to :: "path \<Rightarrow> trace option \<Rightarrow> bool" where
  "traces_to p t \<longleftrightarrow> (\<forall>tr. t = Some tr \<longrightarrow> tr_path tr = p)"

lemma touches_trace_create:
  assumes "p \<in> P"
  shows "touches P (trace_create p c)"
  unfolding touches_def
proof (intro allI impI)
  fix s r t
  assume run: "trace_create p c s = (r, t)"
  obtain q s1 where q: "fs_create_new p 384 s = (q, s1)" by fastforce
  have c1: "changes_only P s s1" using touches_writes(4) [OF assms] q by (rule touchesD)
  show "changes_only P s t"
  proof (cases q)
    case (Inl e)
    with run q c1 show ?thesis by (simp add: trace_create_def io_try_apply)
  next
    case (Inr u)
    obtain t1 s2 where w: "trace_write (bs ''trace_started'') None \<lparr>tr_path = p, tr_component = c, tr_written = 0\<rparr> s1 = (t1, s2)"
      by fastforce
    with run q Inr have "t = s2" by (simp add: trace_create_def io_try_apply)
    moreover have "changes_only {p} s1 s2" using trace_write_keeps [OF w] by simp
    ultimately show ?thesis using c1 assms changes_only_trans changes_only_mono by blast
  qed
qed

lemma confined_start_trace [confining]:
  assumes "p \<in> P"
  shows "confined P (traces_to p) (host_os (start_trace enabled p))"
  unfolding confined_def
proof (intro allI impI)
  fix h res h'
  assume run: "host_os (start_trace enabled p) h = (res, h')"
  have "touches P (start_trace enabled p)"
    by (auto simp: start_trace_def intro!: touching touches_trace_create assms)
  then have "changes_only P (ho_os h) (ho_os h')" using host_os_result [OF run] touchesD by blast
  moreover have "traces_to p a" if "res = Inr a" for a
    using host_os_result [OF run] that trace_create_counts [of p "bs ''runner''"]
    by (auto simp: start_trace_def traces_to_def io_simps split: if_splits prod.splits sum.splits)
  ultimately show "changes_only P (ho_os h) (ho_os h') \<and> (\<forall>a. res = Inr a \<longrightarrow> traces_to p a)" by blast
qed

lemma confined_event [confining]:
  assumes "traces_to p t" and "p \<in> P"
  shows "confined P (traces_to p) (start_event event t)"
proof (cases t)
  case None
  then show ?thesis by (simp add: confined_def start_event_def traces_to_def)
next
  case (Some tr)
  then have "changes_only P s s' \<and> tr_path tr' = p"
    if "trace_record (Trace_event (bs event)) tr s = (tr', s')" for s tr' s'
    using trace_record_keeps [OF that] assms changes_only_mono by (auto simp: traces_to_def)
  with Some show ?thesis by (fastforce simp: confined_def start_event_def traces_to_def split: prod.splits)
qed

lemma default_shell_reads: "reads default_shell"
  by (auto simp: reads_def default_shell_def split: option.splits)

lemma confined_spawned:
  "confined P Q m \<Longrightarrow> confined P Q (\<lambda>h. m (h\<lparr>ho_child := x\<rparr>))"
  by (fastforce simp: confined_def)

lemma confined_launch [confining]:
  assumes "traces_to p t" and "p \<in> P"
  shows "confined P (\<lambda>(c, t). traces_to p t) (launch_child env config t)"
proof -
  have shell: "confined P (\<lambda>_. True)
      (if sc_command config = [] then io_try (host_os default_shell) (\<lambda>shell. io_ok [shell]) else io_ok (sc_command config))"
    by (auto intro!: confining reads_touches default_shell_reads)
  have "confined P (\<lambda>(c, t). traces_to p t) (io_try (start_event ''child_started'' t) (\<lambda>t. io_ok (c, t)))" for c :: child
    by (rule confined_try [OF confined_event [OF assms]]) (auto intro!: confining)
  then have "confined P (\<lambda>(c, t). traces_to p t)
      (\<lambda>h. io_try (start_event ''child_started'' t) (\<lambda>t. io_ok (c, t)) (h\<lparr>ho_child := Some (c, se_now env)\<rparr>))" for c :: child
    by (rule confined_spawned)
  then show ?thesis
    unfolding launch_child_def by (intro confined_try [OF shell] confined_try [OF confined_outcome])
qed

lemma kill_child_fields [simp]: "ho_os (kill_child h) = ho_os h" "ho_out (kill_child h) = ho_out h"
  by (auto simp: kill_child_def Let_def split: option.splits)

lemma confined_ready [confining]:
  assumes "p_metadata paths \<in> P" and "\<And>s. temporary_path (p_metadata paths) s \<in> P"
  shows "confined P (\<lambda>_. True) (report_ready env session paths pid started_at)"
proof -
  have "touches P (write_metadata js paths m)" for js m
    unfolding write_metadata_def by (auto intro!: touching touches_atomic_write assms split: option.splits)
  then have body: "confined P (\<lambda>_. True) (io_try (host_os (write_metadata js paths m)) (\<lambda>_. host_out w))" for js m w
    by (intro confined_try [OF confined_os] confined_out)
  have "confined P (\<lambda>_. True) (io_match m (\<lambda>e h. (Inl e, kill_child h)) io_ok)" if "confined P (\<lambda>_. True) m" for m :: "(host, unit) io"
    using that by (auto simp: confined_def io_match_apply io_ok_apply split: prod.splits sum.splits)
  from this [OF body] show ?thesis
    unfolding confined_def report_ready_def by blast
qed

text \<open>The files the start of a runner works on after the session is bound.\<close>

definition start_files :: "session_paths \<Rightarrow> path set" where
  "start_files paths = {p_trace paths, p_metadata paths} \<union> {temporary_path (p_metadata paths) s |s. True}"

lemma start_files_paths [simp]:
  "p_trace paths \<in> start_files paths" "p_metadata paths \<in> start_files paths"
  "temporary_path (p_metadata paths) s \<in> start_files paths"
  by (auto simp: start_files_def)


text \<open>A runner that has just been made: nothing in its buffers, and its trace is the session's.\<close>

definition new_runner :: "session_id \<Rightarrow> registry \<Rightarrow> session_paths \<Rightarrow> runner \<Rightarrow> bool" where
  "new_runner session reg paths r \<longleftrightarrow> fresh_runner r \<and> trace_ok r \<and>
     rn_session r = session \<and> rn_registry r = reg \<and> rn_paths r = paths"

lemma confined_start_body:
  "confined (start_files paths) (new_runner session reg paths) (start_body env session reg paths config)"
proof -
  note ev = confined_event [where p = "p_trace paths" and P = "start_files paths"]
  have last: "confined (start_files paths) (new_runner session reg paths)
      (\<lambda>h. (Inr (first_runner env session reg paths master c started_at t (ho_os h)), h))"
    if "traces_to (p_trace paths) t" for master c started_at t
    using that
    by (simp add: confined_def new_runner_def fresh_runner_def first_runner_def trace_ok_def traces_to_def)
  have now: "confined (start_files paths) (\<lambda>_. True) (host_os now_seconds)"
    by (intro confined_os reads_touches reads_now_seconds)
  have fin: "confined (start_files paths) (new_runner session reg paths)
      (case ct of (c, t) \<Rightarrow>
        io_try (host_os now_seconds) (\<lambda>started_at.
        io_try (report_ready env session paths (ch_id c) started_at) (\<lambda>_.
        io_try (outcome_of (fst (set_nonblocking (se_master env)))) (\<lambda>_ h.
          (Inr (first_runner env session reg paths master c started_at t (ho_os h)), h)))))"
    if "case ct of (c, t) \<Rightarrow> traces_to (p_trace paths) t" for ct master
    using that
    by (cases ct) (auto intro!: confined_try [OF now] confined_try [OF confined_ready]
        confined_try [OF confined_outcome] last)
  show ?thesis
    unfolding start_body_def
    by (intro confined_try [OF confined_start_trace] confined_try [OF ev]
        confined_try [OF confined_outcome] confined_try [OF confined_launch] fin) simp_all
qed

text \<open>What the ready runner has written.\<close>

lemma report_ready_Inr:
  assumes "report_ready env session paths pid started_at h = (Inr u, h')"
  shows "write_metadata (se_json env) paths (live_metadata session (os_pid (ho_os h)) pid started_at False) (ho_os h) =
      (Inr (), ho_os h') \<and> write_startup_response STARTUP_READY (ho_out h) = (Inr (), ho_out h')"
  using assms
  by (auto simp: report_ready_def io_match_apply io_try_apply host_os_def host_out_def io_ok_apply
      split: prod.splits sum.splits)

lemma host_os_out: "host_os m h = (res, h') \<Longrightarrow> ho_out h' = ho_out h"
  by (auto simp: host_os_def split: prod.splits)

lemma start_event_out: "start_event ev t h = (res, h') \<Longrightarrow> ho_out h' = ho_out h"
  by (auto simp: start_event_def split: option.splits prod.splits)

lemma launch_child_out: "launch_child env config t h = (Inr a, h') \<Longrightarrow> ho_out h' = ho_out h"
  by (auto simp: launch_child_def io_simps outcome_of_def host_os_def split: prod.splits sum.splits if_splits
      dest!: start_event_out)

lemma start_body_Inr:
  assumes "start_body env session reg paths config h = (Inr r, h')"
  obtains h1 :: host where "write_metadata (se_json env) paths (runner_metadata r False) (ho_os h1) = (Inr (), ho_os h')"
    "write_startup_response STARTUP_READY (ho_out h) = (Inr (), ho_out h')" "rn_os r = ho_os h'"
proof -
  obtain t h1 t1 h2 master c t2 h3 started_at h4 h5 where s:
    "host_os (start_trace (sc_trace config) (p_trace paths)) h = (Inr t, h1)"
    "start_event ''runner_started'' t h1 = (Inr t1, h2)"
    "launch_child env config t1 h2 = (Inr (c, t2), h3)"
    "host_os now_seconds h3 = (Inr started_at, h4)"
    "report_ready env session paths (ch_id c) started_at h4 = (Inr (), h5)"
    "h' = h5" "r = first_runner env session reg paths master c started_at t2 (ho_os h5)"
    using assms unfolding start_body_def
    by (auto simp: io_simps outcome_of_def split: prod.splits sum.splits)
  have out: "ho_out h4 = ho_out h"
    using start_event_out [OF s(2)] launch_child_out [OF s(3)]
    by (simp add: host_os_out [OF s(1)] host_os_out [OF s(4)])
  note ready = report_ready_Inr [OF s(5)]
  have "confined (start_files paths) (\<lambda>_. True) (report_ready env session paths (ch_id c) started_at)"
    by (rule confined_ready) simp_all
  from confinedD [OF this s(5)] have "os_pid (ho_os h5) = os_pid (ho_os h4)"
    by (simp add: changes_only_def same_process_fields)
  then have "runner_metadata r False = live_metadata session (os_pid (ho_os h4)) (ch_id c) started_at False"
    by (simp add: s(7) runner_metadata_def first_runner_def)
  then show thesis
    using that [of h4] ready out s(6,7) by (simp add: first_runner_def)
qed

lemma start_bound_Inr:
  assumes "start_bound env session reg paths config h = (Inr r, h')"
  shows "start_body env session reg paths config h = (Inr r, h')"
  using assms by (auto simp: start_bound_def io_simps split: prod.splits sum.splits)

lemma start_bound_started:
  assumes "start_bound env session reg paths config h = (Inr r, h')"
    and "session_wf session" and "paths = paths_of reg session"
  shows "started_runner (se_json env) r \<and> rn_os r = ho_os h' \<and> rn_session r = session \<and> rn_registry r = reg \<and>
    write_startup_response STARTUP_READY (ho_out h) = (Inr (), ho_out h')"
proof -
  note body = start_bound_Inr [OF assms(1)]
  obtain h1 :: host where b: "write_metadata (se_json env) paths (runner_metadata r False) (ho_os h1) = (Inr (), ho_os h')"
    "write_startup_response STARTUP_READY (ho_out h) = (Inr (), ho_out h')" "rn_os r = ho_os h'"
    by (rule start_body_Inr [OF body])
  have new: "new_runner session reg paths r"
    using confined_start_body [of paths session reg env config] body by (auto simp: confined_def)
  note key = session_key_paths(1) [OF assms(2), of reg, folded assms(3)]
  from b(1) obtain xs where xs: "to_vec (se_json env) (runner_metadata r False) = Some xs"
    "atomic_write (p_metadata paths) xs (ho_os h1) = (Inr (), ho_os h')"
    by (auto elim: write_metadata_cases)
  have "look (ho_os h') (p_metadata paths) = Some (own_file (ho_os h') xs)"
    using atomic_write_session [OF key xs(2)] key own_file_process by auto
  then have "meta_says (se_json env) False r"
    using xs(1) b(3) new by (simp add: meta_says_def new_runner_def)
  then show ?thesis
    using new assms(2,3) b by (simp add: started_runner_def new_runner_def)
qed

section \<open>The whole start\<close>

lemma touches_cleanup_entries: "touches UNIV (cleanup_entries js reg now names)"
proof (induction names)
  case Nil
  then show ?case by (simp add: touching)
next
  case (Cons name names)
  then show ?case by (auto intro!: touching split: option.splits)
qed

lemma registry_open_process:
  assumes "registry_open js s = (Inr reg, t)"
  shows "same_process s t"
proof -
  obtain home s1 s2 u1 u2 u3 where o:
    "ensure_private_directory ATTEMPTS (path_join home (bs ''.afk'')) s = (Inr u1, s1)"
    "ensure_private_directory ATTEMPTS (root reg) s1 = (Inr u2, s2)" "cleanup_expired js reg s2 = (Inr u3, t)"
    by (rule registry_open_Inr [OF assms])
  have "touches UNIV (cleanup_expired js reg)"
    unfolding cleanup_expired_def by (intro touching touches_cleanup_entries)
  then show ?thesis
    using o touches_process touches_ensure_private_directory [OF UNIV_I] same_process_trans by blast
qed

lemma bind_session_process:
  assumes "bind_session js reg session s = (Inr paths, t)"
  shows "same_process s t \<and> paths = paths_of reg session"
proof -
  obtain u s1 v where b: "paths = paths_of reg session" "make_room js reg session paths s = (Inr u, s1)"
    "bind_listener paths s1 = (Inr v, t)"
    by (rule bind_session_Inr [OF assms])
  have "touches UNIV (bind_listener paths)"
    unfolding bind_listener_def Let_def by (auto intro!: touching)
  then have "same_process s1 t" using b(3) touches_process by blast
  moreover have "same_process s s1" using touches_process [OF touches_make_room b(2) [unfolded b(1)]] .
  ultimately show ?thesis using b(1) same_process_trans by blast
qed

lemma start_runner_Inr:
  assumes "start_runner env session config h = (Inr r, h')"
  obtains reg h1 where "start_bound env session reg (paths_of reg session) config h1 = (Inr r, h')"
    "ho_out h1 = ho_out h" "os_umask (ho_os h1) = 63"
proof -
  let ?h = "h\<lparr>ho_os := (ho_os h)\<lparr>os_umask := 63\<rparr>\<rparr>"
  obtain reg h1 paths h2 where s: "host_os (registry_open (se_json env)) ?h = (Inr reg, h1)"
    "host_os (bind_session (se_json env) reg session) h1 = (Inr paths, h2)"
    "start_bound env session reg paths config h2 = (Inr r, h')"
    using assms unfolding start_runner_def by (auto simp: io_try_Inr outcome_of_def)
  have "same_process (ho_os ?h) (ho_os h1)" using host_os_result [OF s(1)] registry_open_process by blast
  moreover have b: "same_process (ho_os h1) (ho_os h2) \<and> paths = paths_of reg session"
    using host_os_result [OF s(2)] bind_session_process by blast
  ultimately have "os_umask (ho_os h2) = 63"
    using same_process_fields(4) [of "ho_os ?h" "ho_os h1"] same_process_fields(4) [of "ho_os h1" "ho_os h2"] by simp
  moreover have "ho_out h2 = ho_out h" using host_os_out [OF s(1)] host_os_out [OF s(2)] by simp
  ultimately show thesis using that s(3) b by blast
qed

lemma start_bound_umask:
  assumes "start_bound env session reg paths config h = (Inr r, h')" and "os_umask (ho_os h) = 63"
  shows "os_umask (ho_os h') = 63"
  using confinedD [OF confined_start_body start_bound_Inr [OF assms(1)]] assms(2)
    same_process_fields(4) [of "ho_os h" "ho_os h'"] by (simp add: changes_only_def)

lemma write_startup_response_vec:
  "write_plan w = [] \<Longrightarrow> write_startup_response b w = (Inr (), w\<lparr>sink := sink w @ [b]\<rparr>)"
  using write_response_bytes_all [of w "[b]"] by (simp add: write_startup_response_def errno_plan_def write_all_vec)

lemma write_response_bytes_sink: "write_response_bytes xs w = (Inr u, w') \<Longrightarrow> sink w' = sink w @ xs"
proof (induction xs w rule: write_response_bytes.induct)
  case (1 xs w)
  show ?case
  proof (cases "xs = []")
    case True
    with "1.prems" show ?thesis by (simp add: write_response_bytes.simps [of "[]" w])
  next
    case False
    obtain q w1 where q: "write_once xs w = (q, w1)" by fastforce
    show ?thesis
    proof (cases q)
      case (Inl e)
      with "1.prems" False q have "raw_os_error e = Some EINTR" "write_response_bytes xs w1 = (Inr u, w')"
        by (auto simp: write_response_bytes.simps [of xs w] split: if_splits)
      with "1.IH"(1) [OF False q [symmetric] Inl] write_once_Inl [of xs w e w1] q Inl show ?thesis by simp
    next
      case (Inr n)
      with "1.prems" False q have n: "n \<noteq> 0" "write_response_bytes (drop n xs) w1 = (Inr u, w')"
        by (auto simp: write_response_bytes.simps [of xs w] split: if_splits)
      with "1.IH"(2) [OF False q [symmetric] Inr] write_once_Inr [of xs w n w1] q Inr show ?thesis by simp
    qed
  qed
qed

section \<open>When the start fails\<close>

lemma drop_session_files_gone:
  assumes "drop_session_files ps s = (res, t)" and "no_faults s" and "not_directory s (p_socket ps)"
    and "not_directory s (p_lock ps)" and "p_socket ps \<noteq> p_lock ps"
  shows "look t = (look s)(p_socket ps := None, p_lock ps := None)"
  using assms
  by (auto simp: drop_session_files_def io_simps fs_remove_file_def fs_close_listener_def syscall_def no_faults_def
      not_directory_def fun_eq_iff del_entry_def look_def delete_conv' split: option.splits)

text \<open>Nothing has been sent to the launcher when the start fails before the end.\<close>

lemma report_ready_Inl:
  assumes "report_ready env session paths pid started_at h = (Inl e, h')" and "write_plan (ho_out h) = []"
  shows "ho_out h' = ho_out h"
  using assms
  by (auto simp: report_ready_def io_match_apply io_try_apply host_os_def host_out_def io_ok_apply
      write_startup_response_vec split: prod.splits sum.splits)

lemma launch_child_out_any: "launch_child env config t h = (res, h') \<Longrightarrow> ho_out h' = ho_out h"
  by (auto simp: launch_child_def io_simps outcome_of_def split: prod.splits sum.splits if_splits
      dest!: start_event_out host_os_out)

lemma start_bound_Inl:
  assumes "start_bound env session reg paths config h = (Inl e, h')"
  obtains h1 where "start_body env session reg paths config h = (Inl e, h1)"
    "snd (host_os (drop_session_files paths) h1) = h'"
  using assms by (auto simp: start_bound_def io_simps split: prod.splits sum.splits)

lemma start_body_silent:
  assumes "start_body env session reg paths config h = (Inl e, h')" and "write_plan (ho_out h) = []"
    and "is_ok (fst (set_nonblocking (se_master env)))"
  shows "ho_out h' = ho_out h"
  using assms unfolding start_body_def
  by (auto simp: io_simps outcome_of_def split: prod.splits sum.splits
      dest!: host_os_out start_event_out launch_child_out_any dest: report_ready_Inl)


lemma own_file_mode: "os_umask s = 63 \<Longrightarrow> e_mode (own_file s xs) = 384"
  by (simp add: own_file_def new_entry_def)

lemma read_startup_response_delivers:
  assumes "delivers rd (b # rest)"
  shows "fst (read_startup_response rd) =
    (if b = STARTUP_READY then Inr () else if b = STARTUP_EXISTS then Inl (io_error_new AlreadyExists)
     else Inl (io_error_new Other))"
proof -
  obtain rd' where "read_exact 1 rd = (Inr [b], rd')"
    using read_exact_delivers [of rd "[b]" rest 1] assms by auto
  then show ?thesis by (simp add: read_startup_response_def io_simps)
qed

lemma start_runner_started:
  assumes "start_runner env session config h = (Inr r, h')" and "session_wf session"
  shows "started_runner (se_json env) r \<and> rn_session r = session \<and> rn_os r = ho_os h' \<and>
    write_startup_response STARTUP_READY (ho_out h) = (Inr (), ho_out h') \<and> os_umask (ho_os h') = 63"
proof -
  obtain reg h1 where b: "start_bound env session reg (paths_of reg session) config h1 = (Inr r, h')"
    "ho_out h1 = ho_out h" "os_umask (ho_os h1) = 63"
    by (rule start_runner_Inr [OF assms(1)])
  then show ?thesis
    using start_bound_started [OF b(1) assms(2) refl] start_bound_umask [OF b(1,3)] by simp
qed

lemma start_bound_silent:
  assumes "start_bound env session reg paths config h = (Inl e, h')" and "write_plan (ho_out h) = []"
    and "is_ok (fst (set_nonblocking (se_master env)))"
  shows "ho_out h' = ho_out h"
proof -
  obtain h1 where h1: "start_body env session reg paths config h = (Inl e, h1)"
    "snd (host_os (drop_session_files paths) h1) = h'"
    by (rule start_bound_Inl [OF assms(1)])
  then have "ho_out h' = ho_out h1" by (auto simp: host_os_def split: prod.splits)
  with start_body_silent [OF h1(1) assms(2,3)] show ?thesis by simp
qed

lemma start_runner_silent:
  assumes "start_runner env session config h = (Inl e, h')" and "write_plan (ho_out h) = []"
    and "is_ok (fst (set_nonblocking (se_master env)))"
  shows "ho_out h' = ho_out h"
proof -
  let ?h = "h\<lparr>ho_os := (ho_os h)\<lparr>os_umask := 63\<rparr>\<rparr>"
  obtain q1 h1 where o: "host_os (registry_open (se_json env)) ?h = (q1, h1)" by fastforce
  then have h1: "ho_out h1 = ho_out h" using host_os_out [OF o] by simp
  show ?thesis
  proof (cases "become_session_leader (se_setsid env)")
    case (Inl err)
    with assms(1) show ?thesis by (simp add: start_runner_def io_try_apply outcome_of_def)
  next
    case leader: (Inr u)
    show ?thesis
    proof (cases q1)
      case (Inl err)
      with assms(1) leader o h1 show ?thesis by (auto simp: start_runner_def io_try_apply outcome_of_def)
    next
      case reg: (Inr reg)
      obtain q2 h2 where b: "host_os (bind_session (se_json env) reg session) h1 = (q2, h2)" by fastforce
      then have h2: "ho_out h2 = ho_out h" using host_os_out [OF b] h1 by simp
      show ?thesis
      proof (cases q2)
        case (Inl err)
        with assms(1) leader o reg b h2 show ?thesis by (auto simp: start_runner_def io_try_apply outcome_of_def)
      next
        case (Inr paths)
        with assms(1) leader o reg b have "start_bound env session reg paths config h2 = (Inl e, h')"
          by (simp add: start_runner_def io_try_apply outcome_of_def)
        then show ?thesis using start_bound_silent h2 assms(2,3) by simp
      qed
    qed
  qed
qed

lemma respond_vec: "write_plan (ho_out h) = [] \<Longrightarrow> sink (ho_out (respond b h)) = sink (ho_out h) @ [b]"
  by (simp add: respond_def host_out_def write_startup_response_vec)

text \<open>What the launcher gets to read begins with the verdict on the start.\<close>

lemma hidden_runner_says:
  assumes "hidden_runner env session answers h = (result, h')" and "ho_out h = vec_writer" and "session_wf session"
    and "is_ok (fst (set_nonblocking (se_master env)))" and "read_startup_config (ho_in h) = (Inr config, rd')"
  shows "\<exists>later. sink (ho_out h') =
    (case fst (start_runner env session config (h\<lparr>ho_in := rd'\<rparr>)) of
       Inr _ \<Rightarrow> STARTUP_READY | Inl e \<Rightarrow> failure_response e) # later"
proof -
  obtain q h1 where st: "start_runner env session config (h\<lparr>ho_in := rd'\<rparr>) = (q, h1)" by fastforce
  show ?thesis
  proof (cases q)
    case (Inl e)
    with start_runner_silent [of env session config "h\<lparr>ho_in := rd'\<rparr>" e h1] st assms(2,4)
    have "ho_out h1 = vec_writer" by (simp add: vec_writer_def)
    then have "sink (ho_out (respond (failure_response e) h1)) = [failure_response e]"
      by (simp add: respond_vec vec_writer_def)
    then show ?thesis using assms(1,5) st Inl by (auto simp: hidden_runner_def)
  next
    case (Inr r)
    with start_runner_started [of env session config "h\<lparr>ho_in := rd'\<rparr>" r h1] st assms(2,3)
    have out: "ho_out h1 = vec_writer\<lparr>sink := [STARTUP_READY]\<rparr>"
      by (simp add: write_startup_response_vec vec_writer_def)
    obtain z r' where run: "run_event_loop (se_json env) answers r = (z, r')" by fastforce
    have "h' = h1\<lparr>ho_os := rn_os r'\<rparr> \<or> (\<exists>b. h' = respond b (h1\<lparr>ho_os := rn_os r'\<rparr>))"
      using assms(1,5) st Inr run by (auto simp: hidden_runner_def split: outcome.splits sum.splits)
    then have "\<exists>later. sink (ho_out h') = STARTUP_READY # later"
      using out by (auto simp: respond_vec vec_writer_def)
    then show ?thesis using st Inr by simp
  qed
qed

section \<open>Properties\<close>

text \<open>
  C19: A start that succeeds has told the launcher so with exactly one byte, and hands to the
  event loop a state of the form its invariants start from: empty buffers, no client, the
  session's own paths and trace, and the live record, not attached, on disk; every file the
  runner writes from then on is readable and writable by the owner alone.
\<close>

theorem start_establishes_the_loop_invariant:
  assumes "start_runner env session config h = (Inr r, h')" and "session_wf session"
  shows "started_runner (se_json env) r \<and> rn_session r = session \<and> rn_os r = ho_os h' \<and>
    sink (ho_out h') = sink (ho_out h) @ [STARTUP_READY] \<and> (\<forall>xs. e_mode (own_file (rn_os r) xs) = 384)"
  using start_runner_started [OF assms] own_file_mode
    write_response_bytes_sink [of "[STARTUP_READY]" "ho_out h" "()" "ho_out h'"]
  by (simp add: write_startup_response_def)

text \<open>
  C24: A start that fails after the session was bound leaves neither its socket nor its lock,
  and has changed no file but the session's own.
\<close>

theorem failed_start_leaves_no_endpoint:
  assumes "start_bound env session reg paths config h = (Inl e, h')"
    and "session_wf session" and "paths = paths_of reg session" and "no_faults (ho_os h)"
    and "not_directory (ho_os h) (p_socket paths)" and "not_directory (ho_os h) (p_lock paths)"
  shows "look (ho_os h') (p_socket paths) = None \<and> look (ho_os h') (p_lock paths) = None \<and>
    (\<forall>q. q \<notin> start_files paths \<union> {p_socket paths, p_lock paths} \<longrightarrow> look (ho_os h') q = look (ho_os h) q)"
proof -
  obtain h1 where h1: "start_body env session reg paths config h = (Inl e, h1)"
    "snd (host_os (drop_session_files paths) h1) = h'"
    by (rule start_bound_Inl [OF assms(1)])
  note ch = confinedD [OF confined_start_body h1(1)]
  obtain res t where d: "drop_session_files paths (ho_os h1) = (res, t)" by fastforce
  note keys = session_key_paths [OF assms(2), of reg, folded assms(3)]
  have outside: "p_socket paths \<notin> start_files paths" "p_lock paths \<notin> start_files paths" "p_socket paths \<noteq> p_lock paths"
    using session_key_temporary [OF keys(1) keys(3)] session_key_temporary [OF keys(1) keys(4)] assms(3)
    by (auto simp: start_files_def) (auto simp: paths_of_session_path bs_def)
  have "no_faults (ho_os h1)" using ch assms(4) no_faults_process by (auto simp: changes_only_def)
  moreover have "not_directory (ho_os h1) (p_socket paths)" "not_directory (ho_os h1) (p_lock paths)"
    using changes_only_look [OF ch outside(1)] changes_only_look [OF ch outside(2)] assms(5,6)
    by (simp_all add: not_directory_def)
  ultimately have "look t = (look (ho_os h1))(p_socket paths := None, p_lock paths := None)"
    using drop_session_files_gone [OF d] outside(3) by simp
  moreover have "ho_os h' = t" using h1(2) d by (auto simp: host_os_def)
  ultimately show ?thesis using changes_only_look [OF ch] by simp
qed



section \<open>A start that succeeds\<close>

definition sample_env :: start_env where
  "sample_env = \<lparr>se_json = sample_json, se_setsid = None,
     se_openpty = (\<lambda>sz. Inr \<lparr>pty_in = \<lparr>read_plan = [], when_dry = Would_block\<rparr>, pty_out = vec_writer,
       pty_size = sz, pty_resize_plan = []\<rparr>),
     se_dup_stdout = None, se_dup_stderr = None, se_exe = Inr (bs ''/afk''),
     se_spawn = (\<lambda>exe args. Inr stubborn_child),
     se_master = \<lparr>tm_attrs = (), tm_size = \<lparr>ws_row = 24, ws_col = 80, ws_xpixel = 0, ws_ypixel = 0\<rparr>,
       tm_flags = 2, tm_fails = (\<lambda>_. None)\<rparr>,
     se_accepts = [], se_now = 0\<rparr>"

definition plain_config :: startup_config where
  "plain_config = sample_config\<lparr>sc_trace := False\<rparr>"

definition sample_host :: host where
  "sample_host = \<lparr>ho_in = \<lparr>read_plan = [Data (config_bytes plain_config)], when_dry = At_eof\<rparr>,
     ho_out = vec_writer, ho_os = sample_os, ho_child = None\<rparr>"

lemma sample_env_master: "is_ok (fst (set_nonblocking (se_master sample_env)))"
  by code_simp

lemma sample_start_bound:
  assumes "can_complete paths (ho_os h)" and "paths = paths_of reg session" and "session_wf session"
    and "write_plan (ho_out h) = []"
  shows "\<exists>r h'. start_bound sample_env session reg paths plain_config h = (Inr r, h')"
proof -
  have config: "sc_trace plain_config = False" "sc_command plain_config \<noteq> []" "sc_rows plain_config = 24" "sc_columns plain_config = 80"
    by (simp_all add: plain_config_def sample_config_def)
  obtain master where pty: "create_pty (se_openpty sample_env) 24 80 = Inr master"
    by (simp add: create_pty_def validate_dimensions_def limits sample_env_def)
  let ?h = "h\<lparr>ho_child := Some (stubborn_child, 0)\<rparr>"
  have child: "launch_child sample_env plain_config None h = (Inr (stubborn_child, None), ?h)"
    using config(2) by (simp add: launch_child_def io_simps outcome_of_def errno_result_def sample_env_def start_event_def)
  have now: "host_os now_seconds ?h = (Inr (word_of_int (clock (ho_os h))), ?h)"
    using assms(1) by (simp add: host_os_def now_seconds_def can_complete_def)
  obtain s where s: "write_metadata sample_json paths (live_metadata session (os_pid (ho_os h)) (ch_id stubborn_child)
      (word_of_int (clock (ho_os h))) False) (ho_os h) = (Inr (), s)"
    by (rule write_metadata_ready [OF assms(1) sample_encodes assms(2,3)])
  have "\<exists>h2. report_ready sample_env session paths (ch_id stubborn_child) (word_of_int (clock (ho_os h))) ?h = (Inr (), h2)"
    using s assms(4)
    by (simp add: report_ready_def io_simps host_os_def sample_env_def)
      (simp add: host_out_def write_startup_response_vec io_ok_apply)
  then obtain h2 where ready: "report_ready sample_env session paths (ch_id stubborn_child) (word_of_int (clock (ho_os h))) ?h = (Inr (), h2)"
    by blast
  obtain flags where nb: "fst (set_nonblocking (se_master sample_env)) = Inr flags"
    using sample_env_master by (cases "fst (set_nonblocking (se_master sample_env))") auto
  show ?thesis
    using config pty child now ready nb
    by (simp add: start_bound_def start_body_def io_simps start_trace_def start_event_def host_os_def outcome_of_def)
qed

text \<open>A home directory whose paths are all shorter than those of a session.\<close>

definition short_paths :: "os \<Rightarrow> bool" where
  "short_paths s \<longleftrightarrow> list_all (\<lambda>(p, e). length p \<le> 32) (files s)"

lemma short_paths_look: "short_paths s \<Longrightarrow> 32 < length p \<Longrightarrow> look s p = None"
  by (force simp: short_paths_def list_all_iff look_def map_of_eq_None_iff)

lemma short_paths_keys:
  assumes "short_paths s" and "p \<in> session_keys reg"
  shows "look s p = None" "look s (temporary_path p s) = None"
  using session_key_long [OF assms(2)] temporary_long [of p s] short_paths_look [OF assms(1)] by auto

lemma fresh_bind:
  assumes "no_faults s" and "short_paths s" and "session_wf session"
    and "registry_paths reg session s = (Inr (paths_of reg session), s)"
  obtains t where "bind_session js reg session s = (Inr (paths_of reg session), t)"
    "changes_only {p_socket (paths_of reg session), p_lock (paths_of reg session)} s t"
proof -
  let ?ps = "paths_of reg session"
  note keys = short_paths_keys(1) [OF assms(2) session_key_paths(1) [OF assms(3)]]
    short_paths_keys(1) [OF assms(2) session_key_paths(3) [OF assms(3)]]
    short_paths_keys(1) [OF assms(2) session_key_paths(4) [OF assms(3)]]
  have room: "make_room js reg session ?ps s = (Inr (), s)"
    using assms(1,4) keys
    by (simp add: make_room_def read_metadata_def io_try_apply io_match_apply io_ok_apply io_fail_apply
        missing_calls Let_def)
  have "p_lock ?ps \<noteq> p_socket ?ps" using paths_of_distinct [of reg session] by auto
  then have "is_ok (fst (bind_listener ?ps s))"
    using assms(1) keys by (intro bind_listener_fresh) simp_all
  then obtain t where b: "bind_listener ?ps s = (Inr (), t)" by (rule is_ok_E)
  have "touches {p_socket ?ps, p_lock ?ps} (bind_listener ?ps)"
    unfolding bind_listener_def Let_def by (auto intro!: touching)
  then have "changes_only {p_socket ?ps, p_lock ?ps} s t" using b touchesD by blast
  then show thesis
    using that room b assms(4) by (simp add: bind_session_def io_try_apply io_ok_apply)
qed

lemma bound_can_complete:
  assumes "changes_only {p_socket ps, p_lock ps} s t" and "ps = paths_of reg session" and "session_wf session"
    and "no_faults s" and "short_paths s" and "0 \<le> clock s"
  shows "can_complete ps t"
proof -
  note same = assms(1) [unfolded changes_only_def, THEN conjunct1]
  have "can_write p t" if p: "p \<in> session_keys reg" "p \<notin> {p_socket ps, p_lock ps}" for p
  proof -
    have "temporary_path p s \<notin> {p_socket ps, p_lock ps}"
      using session_key_temporary [OF p(1) session_key_paths(3) [OF assms(3)]]
        session_key_temporary [OF p(1) session_key_paths(4) [OF assms(3)]] assms(2) by auto
    then show ?thesis
      using short_paths_keys [OF assms(5) p(1)] changes_only_look [OF assms(1)] p(2) temporary_path_process [OF same]
      by (simp add: can_write_def not_directory_def)
  qed
  moreover have "p_output ps \<notin> {p_socket ps, p_lock ps}" "p_metadata ps \<notin> {p_socket ps, p_lock ps}"
    using assms(2) by (auto simp: paths_of_session_path bs_def)
  ultimately show ?thesis
    using assms(2,3,4,6) no_faults_process [OF same] same_process_fields(5) [OF same] by (simp add: can_complete_def)
qed

lemma sample_registry_open:
  obtains reg t where "registry_open sample_json sample_os = (Inr reg, t)" "short_paths t"
    "root reg = bs ''/h/.afk/run''" "same_process sample_os t"
proof -
  have "is_ok (fst (registry_open sample_json sample_os))" by code_simp
  then obtain reg t where o: "registry_open sample_json sample_os = (Inr reg, t)"
    by (cases "registry_open sample_json sample_os"; cases "fst (registry_open sample_json sample_os)") auto
  have "short_paths (snd (registry_open sample_json sample_os))" by code_simp
  moreover obtain home where "env_home sample_os = Some home"
    "root reg = path_join (path_join home (bs ''.afk'')) (bs ''run'')"
    using registry_open_Inr [OF o] by metis
  then have "root reg = bs ''/h/.afk/run''"
    by (auto simp: sample_os_def path_join_def with_slash_def bs_def slash_def)
  ultimately show thesis using that o registry_open_process [OF o] by simp
qed

lemma sample_start:
  obtains r h' where "start_runner sample_env sample_session plain_config (sample_host\<lparr>ho_in := rd\<rparr>) = (Inr r, h')"
proof -
  obtain reg s where o: "registry_open sample_json sample_os = (Inr reg, s)" "short_paths s"
    "root reg = bs ''/h/.afk/run''" "same_process sample_os s"
    by (rule sample_registry_open)
  have s: "no_faults s" using no_faults_process [OF o(4)] sample_no_faults by simp
  have "clock s = 100" using same_process_fields(5) [OF o(4)] by (simp add: sample_os_def)
  then have clock: "0 \<le> clock s" by simp
  let ?ps = "paths_of reg sample_session"
  have "length (p_socket ?ps) \<le> UNIX_SOCKET_PATH_BYTES"
    using o(3) by (simp add: paths_of_session_path session_path_def path_join_def with_slash_def slash_def
        length_session_to_string bs_def UNIX_SOCKET_PATH_BYTES_def)
  then have "registry_paths reg sample_session s = (Inr ?ps, s)"
    by (simp add: registry_paths_def io_simps Let_def)
  then obtain t where b: "bind_session sample_json reg sample_session s = (Inr ?ps, t)"
    "changes_only {p_socket ?ps, p_lock ?ps} s t"
    using fresh_bind [OF s o(2) sample_session_wf] by blast
  have c: "can_complete ?ps t" by (rule bound_can_complete [OF b(2) refl sample_session_wf s o(2) clock])
  let ?h = "(sample_host\<lparr>ho_in := rd\<rparr>)\<lparr>ho_os := t\<rparr>"
  obtain r h' where st: "start_bound sample_env sample_session reg ?ps plain_config ?h = (Inr r, h')"
    using sample_start_bound [of ?ps ?h reg sample_session] c by (auto simp: sample_host_def vec_writer_def)
  have "sample_os\<lparr>os_umask := 63\<rparr> = sample_os" by (simp add: sample_os_def)
  then have "start_runner sample_env sample_session plain_config (sample_host\<lparr>ho_in := rd\<rparr>) =
      start_bound sample_env sample_session reg ?ps plain_config ?h"
    using o(1) b(1)
    by (simp add: start_runner_def io_try_apply outcome_of_def become_session_leader_def errno_result_def
        host_os_def sample_env_def sample_host_def)
  then show thesis using that st by simp
qed

lemma start_establishes_the_loop_invariant_witness:
  "\<exists>r h'. start_runner sample_env sample_session plain_config
       (sample_host\<lparr>ho_in := \<lparr>read_plan = [], when_dry = At_eof\<rparr>\<rparr>) = (Inr r, h') \<and> started_runner sample_json r"
proof -
  obtain r h' where st: "start_runner sample_env sample_session plain_config
      (sample_host\<lparr>ho_in := \<lparr>read_plan = [], when_dry = At_eof\<rparr>\<rparr>) = (Inr r, h')"
    by (rule sample_start)
  have "se_json sample_env = sample_json" by (simp add: sample_env_def)
  with start_establishes_the_loop_invariant [OF st sample_session_wf] st show ?thesis by auto
qed


lemma failing_spawn:
  assumes "write_plan (ho_out h) = []" and "sc_trace config = False" "sc_command config \<noteq> []"
    and "validate_dimensions (sc_rows config) (sc_columns config) = Inr ()"
  shows "\<exists>h'. start_bound (sample_env\<lparr>se_spawn := \<lambda>_ _. Inl (io_error_new NotFound)\<rparr>) session reg paths config h =
    (Inl (io_error_new NotFound), h')"
  using assms
  by (simp add: start_bound_def start_body_def io_simps start_trace_def start_event_def host_os_def outcome_of_def
      create_pty_def sample_env_def launch_child_def errno_result_def split: prod.splits)

lemma failed_start_leaves_no_endpoint_witness:
  "\<exists>h'. start_bound (sample_env\<lparr>se_spawn := \<lambda>_ _. Inl (io_error_new NotFound)\<rparr>) sample_session sample_registry
       sample_paths plain_config sample_host = (Inl (io_error_new NotFound), h') \<and>
     look (ho_os h') (p_socket sample_paths) = None"
proof -
  obtain h' where f: "start_bound (sample_env\<lparr>se_spawn := \<lambda>_ _. Inl (io_error_new NotFound)\<rparr>) sample_session sample_registry
       sample_paths plain_config sample_host = (Inl (io_error_new NotFound), h')"
    using failing_spawn [of sample_host plain_config sample_session sample_registry sample_paths]
    by (auto simp: plain_config_def sample_config_def sample_host_def vec_writer_def validate_dimensions_def limits)
  have os: "ho_os sample_host = sample_os" by (simp add: sample_host_def)
  have "not_directory (ho_os sample_host) (p_socket sample_paths)" "not_directory (ho_os sample_host) (p_lock sample_paths)"
    by (simp_all add: not_directory_def os sample_missing)
  with failed_start_leaves_no_endpoint [OF f sample_session_wf refl] f os sample_no_faults show ?thesis by auto
qed


end
