(* ===== verification/Attach.thy ===== *)
theory Attach
  imports Runner_Start
begin

text \<open>
  src/attach.rs: the process in front of a session.  It relays the terminal's input to the
  runner and the runner's output to the terminal, or replays a completed session.

  \<open>attachment\<close> holds the locals of \<open>attach_live\<close>, the terminal, and the thread that reads
  standard input with its bounded channel.  A tick is given what the environment decides:
  the signals that have arrived, the steps the input thread has made, the terminal's size,
  the answer of \<open>poll\<close>.
\<close>

section \<open>State\<close>

datatype input_event = Bytes "byte list" | Closed | Failed io_error

record 'attr attachment =
  at_stream :: stream
  at_stdout :: writer
  at_trace :: "trace option"
  at_os :: os
  at_term :: "'attr terminal"
  at_raw :: "'attr raw_terminal option"
  at_queue :: byte_queue
  at_decoder :: decoder
  at_stdin_closed :: bool
  at_stdin :: reader
  at_held :: "input_event option"
  at_channel :: "input_event list"
  at_reader_done :: bool

text \<open>What a pass of the loop comes to.\<close>

datatype passage = Continue | Ends "process_exit io_result"

definition INPUT_CHANNEL_CAPACITY :: nat where
  "INPUT_CHANNEL_CAPACITY = MAX_ATTACHMENT_QUEUE_BYTES div IO_CHUNK_BYTES"

definition trace_option :: "trace_entry \<Rightarrow> trace option \<Rightarrow> os \<Rightarrow> trace option \<times> os" where
  "trace_option entry t s =
     (case t of
        None \<Rightarrow> (None, s)
      | Some t \<Rightarrow> (case trace_record entry t s of (t', s') \<Rightarrow> (Some t', s')))"

definition note_entry :: "trace_entry \<Rightarrow> 'attr attachment \<Rightarrow> 'attr attachment" where
  "note_entry entry a =
     (case trace_option entry (at_trace a) (at_os a) of (t, s) \<Rightarrow> a\<lparr>at_trace := t, at_os := s\<rparr>)"

definition note_event :: "string \<Rightarrow> 'attr attachment \<Rightarrow> 'attr attachment" where
  "note_event event = note_entry (Trace_event (bs event))"

definition note_io_error :: "string \<Rightarrow> io_error \<Rightarrow> 'attr attachment \<Rightarrow> 'attr attachment" where
  "note_io_error event e = note_entry (Trace_io_error (bs event) e)"

fun exit_entry :: "string \<Rightarrow> process_exit \<Rightarrow> trace_entry" where
  "exit_entry event (Code code) = Trace_metric (bs event) (bs ''exit_code'') (ucast code)"
| "exit_entry event (Signal sig) = Trace_metric (bs event) (bs ''signal'') (ucast sig)"

text \<open>Every return drops the raw terminal, which restores the attributes.\<close>

definition leave :: "process_exit io_result \<Rightarrow> 'attr attachment \<Rightarrow> passage \<times> 'attr attachment" where
  "leave res a =
     (Ends res, case at_raw a of
        None \<Rightarrow> a
      | Some raw \<Rightarrow> a\<lparr>at_term := raw_drop raw (at_term a), at_raw := None\<rparr>)"

definition and_then ::
    "('attr attachment \<Rightarrow> passage \<times> 'attr attachment) \<Rightarrow> ('attr attachment \<Rightarrow> passage \<times> 'attr attachment) \<Rightarrow>
     'attr attachment \<Rightarrow> passage \<times> 'attr attachment" where
  "and_then m f a = (case m a of (Continue, a) \<Rightarrow> f a | (Ends res, a) \<Rightarrow> (Ends res, a))"

section \<open>Input\<close>

definition queue_record :: "ipc_record \<Rightarrow> (byte_queue, unit) io" where
  "queue_record r q =
     (if (case r of Input bytes \<Rightarrow> MAX_IPC_PAYLOAD_BYTES < length bytes
          | Output bytes \<Rightarrow> MAX_IPC_PAYLOAD_BYTES < length bytes | _ \<Rightarrow> False)
      then (Inl (io_error_new InvalidInput), q)
      else case encode r of
        Inl e \<Rightarrow> (Inl e, q)
      | Inr encoded \<Rightarrow>
          (case bq_push q encoded of
             (True, q) \<Rightarrow> (Inr (), q) | (False, q) \<Rightarrow> (Inl (io_error_new WouldBlock), q)))"

text \<open>
  One step of the thread \<open>read_input\<close>: a read, or handing over the event it holds, which
  waits while the channel is full.  After an event that is not \<open>Bytes\<close> the thread ends.
\<close>

definition thread_step :: "'attr attachment \<Rightarrow> 'attr attachment" where
  "thread_step a =
     (case at_held a of
        Some event \<Rightarrow>
          if INPUT_CHANNEL_CAPACITY \<le> length (at_channel a) then a
          else a\<lparr>at_held := None, at_channel := at_channel a @ [event],
            at_reader_done := (case event of Bytes _ \<Rightarrow> False | _ \<Rightarrow> True)\<rparr>
      | None \<Rightarrow>
          if at_reader_done a then a
          else (case read_once IO_CHUNK_BYTES (at_stdin a) of
            (Inr bytes, rd) \<Rightarrow>
              a\<lparr>at_stdin := rd, at_held := Some (if bytes = [] then Closed else Bytes bytes)\<rparr>
          | (Inl e, rd) \<Rightarrow>
              if err_kind e = Interrupted then a\<lparr>at_stdin := rd\<rparr>
              else a\<lparr>at_stdin := rd, at_held := Some (Failed e)\<rparr>))"

definition receive_input :: "('attr attachment, bool) io" where
  "receive_input a =
     (case at_channel a of
        Bytes bytes # channel \<Rightarrow>
          (case queue_record (Input bytes) (at_queue a) of
             (Inl e, q) \<Rightarrow> (Inl e, a\<lparr>at_channel := channel, at_queue := q\<rparr>)
           | (Inr _, q) \<Rightarrow> (Inr False, a\<lparr>at_channel := channel, at_queue := q\<rparr>))
      | Closed # channel \<Rightarrow> (Inr True, a\<lparr>at_channel := channel\<rparr>)
      | Failed e # channel \<Rightarrow> (Inl e, a\<lparr>at_channel := channel\<rparr>)
      | [] \<Rightarrow> (Inr (at_reader_done a), a))"

section \<open>Output\<close>

definition attachment_closed :: "io_error \<Rightarrow> bool" where
  "attachment_closed e \<longleftrightarrow> err_kind e \<in> {BrokenPipe, ConnectionAborted, ConnectionReset, UnexpectedEof}"

text \<open>\<open>read_records\<close>; \<open>None\<close> is the end of the connection.\<close>

definition receive_records :: "('attr attachment, ipc_record list option) io" where
  "receive_records a =
     (let capacity = min (remaining_capacity (at_decoder a)) IO_CHUNK_BYTES in
      if capacity = 0 then (Inl (io_error_new InvalidData), a)
      else case read_once capacity (s_in (at_stream a)) of
        (Inl e, rd) \<Rightarrow>
          (if err_kind e = WouldBlock \<or> err_kind e = Interrupted then Inr (Some [])
           else if attachment_closed e then Inr None else Inl e,
           a\<lparr>at_stream := (at_stream a)\<lparr>s_in := rd\<rparr>\<rparr>)
      | (Inr bytes, rd) \<Rightarrow>
          (let a = a\<lparr>at_stream := (at_stream a)\<lparr>s_in := rd\<rparr>\<rparr> in
           if bytes = [] then (Inr None, a)
           else (case decoder_push (at_decoder a) bytes of
             (Inl _, d) \<Rightarrow> (Inl (io_error_new InvalidData), a\<lparr>at_decoder := d\<rparr>)
           | (Inr _, d) \<Rightarrow>
               (case decode_all d of
                  (Inl _, d) \<Rightarrow> (Inl (io_error_new InvalidData), a\<lparr>at_decoder := d\<rparr>)
                | (Inr records, d) \<Rightarrow> (Inr (Some records), a\<lparr>at_decoder := d\<rparr>)))))"

definition flush_stdout :: "('attr attachment, unit) io" where
  "flush_stdout a = (case flush_once (at_stdout a) of (res, w) \<Rightarrow> (res, a\<lparr>at_stdout := w\<rparr>))"

text \<open>The loop over the received records, and the flush after it.\<close>

fun show_records :: "ipc_record list \<Rightarrow> bool \<Rightarrow> 'attr attachment \<Rightarrow> passage \<times> 'attr attachment" where
  "show_records [] wrote_output a =
     (if wrote_output
      then (case flush_stdout a of (Inl e, a) \<Rightarrow> leave (Inl e) a | (Inr _, a) \<Rightarrow> (Continue, a))
      else (Continue, a))"
| "show_records (Output bytes # records) wrote_output a =
     (case write_all bytes (at_stdout a) of
        (Inl e, w) \<Rightarrow> leave (Inl e) (a\<lparr>at_stdout := w\<rparr>)
      | (Inr _, w) \<Rightarrow> show_records records True (a\<lparr>at_stdout := w\<rparr>))"
| "show_records (Exit status # records) wrote_output a =
     (case flush_stdout (note_entry (exit_entry ''runner_reported_exit'' status) a) of
        (Inl e, a) \<Rightarrow> leave (Inl e) a
      | (Inr _, a) \<Rightarrow> leave (Inr status) a)"
| "show_records (_ # records) wrote_output a =
     leave (Inl (io_error_new InvalidData)) (note_event ''invalid_runner_response'' a)"

section \<open>One tick\<close>

record attach_answer =
  an_hangup :: bool
  an_terminate :: bool
  an_resize :: bool
  an_size :: winsize
  an_fails :: "terminal_call \<Rightarrow> int option"
  an_thread :: nat
  an_poll :: "int + poll_flags"
  an_clock :: int

definition signal_stage :: "attach_answer \<Rightarrow> 'attr attachment \<Rightarrow> passage \<times> 'attr attachment" where
  "signal_stage answer a =
     (if an_hangup answer then leave (Inr (Code 0)) (note_event ''attachment_received_sighup'' a)
      else if an_terminate answer then leave (Inr (Code 0)) (note_event ''attachment_received_sigterm'' a)
      else if an_resize answer then
        (case window_size (at_term a) of
           (Inr (rows, columns), t) \<Rightarrow>
             (case queue_record (Resize rows columns) (at_queue a) of
                (Inl e, q) \<Rightarrow> leave (Inl e) (a\<lparr>at_term := t, at_queue := q\<rparr>)
              | (Inr _, q) \<Rightarrow> (Continue, note_event ''resize_queued'' (a\<lparr>at_term := t, at_queue := q\<rparr>)))
         | (Inl _, t) \<Rightarrow> (Continue, note_event ''resize_dimensions_unavailable'' (a\<lparr>at_term := t\<rparr>)))
      else (Continue, a))"

definition input_stage :: "'attr attachment \<Rightarrow> passage \<times> 'attr attachment" where
  "input_stage a =
     (if at_stdin_closed a then (Continue, a)
      else case receive_input a of
        (Inr closed, a) \<Rightarrow>
          (Continue, (if closed then note_event ''stdin_closed'' a else a)\<lparr>at_stdin_closed := closed\<rparr>)
      | (Inl e, a) \<Rightarrow> leave (Inl e) (note_io_error ''stdin_read_failed'' e a))"

definition write_stage :: "poll_flags \<Rightarrow> 'attr attachment \<Rightarrow> passage \<times> 'attr attachment" where
  "write_stage event a =
     (if pf_out event \<and> \<not> bq_is_empty (at_queue a) then
        (case bq_flush (at_queue a, s_out (at_stream a)) of
           (res, (q, w)) \<Rightarrow>
             (let a = a\<lparr>at_queue := q, at_stream := (at_stream a)\<lparr>s_out := w\<rparr>\<rparr> in
              case res of
                Inr _ \<Rightarrow> (Continue, a)
              | Inl e \<Rightarrow>
                  if attachment_closed e
                  then leave (Inr (Code 0)) (note_io_error ''runner_socket_closed_during_write'' e a)
                  else leave (Inl e) (note_io_error ''runner_socket_write_failed'' e a)))
      else (Continue, a))"

definition closed_stage :: "'attr attachment \<Rightarrow> passage \<times> 'attr attachment" where
  "closed_stage a =
     (if at_stdin_closed a \<and> bq_is_empty (at_queue a)
      then leave (Inr (Code 0)) (note_event ''attachment_ended_after_stdin_close'' a)
      else (Continue, a))"

definition receive_stage :: "'attr attachment \<Rightarrow> passage \<times> 'attr attachment" where
  "receive_stage a =
     (case receive_records a of
        (Inr (Some records), a) \<Rightarrow> show_records records False a
      | (Inr None, a) \<Rightarrow> leave (Inr (Code 0)) (note_event ''runner_socket_eof'' a)
      | (Inl e, a) \<Rightarrow> leave (Inl e) (note_io_error ''runner_socket_read_failed'' e a))"

definition read_stage :: "poll_flags \<Rightarrow> 'attr attachment \<Rightarrow> passage \<times> 'attr attachment" where
  "read_stage event a =
     (if readable event then
        (let a = (if pf_hup event then note_event ''runner_socket_poll_hangup'' a else a);
             a = (if pf_err event then note_event ''runner_socket_poll_error'' a else a)
         in receive_stage a)
      else (Continue, a))"

text \<open>The environment's part before a tick: the input thread runs, the terminal has its size and its errors.\<close>

definition meanwhile :: "attach_answer \<Rightarrow> 'attr attachment \<Rightarrow> 'attr attachment" where
  "meanwhile answer a =
     (thread_step ^^ an_thread answer)
       (a\<lparr>at_term := (at_term a)\<lparr>tm_size := an_size answer, tm_fails := an_fails answer\<rparr>,
          at_os := (at_os a)\<lparr>clock := an_clock answer\<rparr>\<rparr>)"

definition attach_tick :: "attach_answer \<Rightarrow> 'attr attachment \<Rightarrow> passage \<times> 'attr attachment" where
  "attach_tick answer a =
     and_then (signal_stage answer) (and_then input_stage (\<lambda>a.
       case an_poll answer of
         Inl code \<Rightarrow>
           if code = EINTR then (Continue, a)
           else leave (Inl (io_error_from_errno code)) (note_io_error ''attachment_poll_failed'' (io_error_from_errno code) a)
       | Inr event \<Rightarrow>
           and_then (write_stage event) (and_then closed_stage (read_stage event)) a))
     (meanwhile answer a)"

fun attach_loop :: "attach_answer list \<Rightarrow> 'attr attachment \<Rightarrow> passage \<times> 'attr attachment" where
  "attach_loop [] a = (Continue, a)"
| "attach_loop (answer # answers) a = and_then (attach_tick answer) (attach_loop answers) a"

section \<open>attach\_live\<close>

record 'attr live_env =
  le_nonblocking :: "unit io_result"
  le_make_raw :: "'attr \<Rightarrow> 'attr"
  le_signals :: "unit io_result"

definition attach_begin :: "'attr live_env \<Rightarrow> 'attr attachment \<Rightarrow> passage \<times> 'attr attachment" where
  "attach_begin env a =
     (case le_nonblocking env of
        Inl e \<Rightarrow> leave (Inl e) a
      | Inr _ \<Rightarrow>
          (let (sz, t) = window_size (at_term a);
               (rows, columns) = (case sz of Inr dims \<Rightarrow> dims | Inl _ \<Rightarrow> (24, 80))
           in case raw_enter (le_make_raw env) t of
                (Inl e, t) \<Rightarrow> leave (Inl e) (note_io_error ''raw_terminal_entry_failed'' e (a\<lparr>at_term := t\<rparr>))
              | (Inr raw, t) \<Rightarrow>
                  (let a = note_event ''raw_terminal_entered'' (a\<lparr>at_term := t, at_raw := Some raw\<rparr>) in
                   case le_signals env of
                     Inl e \<Rightarrow> leave (Inl e) (note_io_error ''signal_registration_failed'' e a)
                   | Inr _ \<Rightarrow>
                       (case queue_record (Attach rows columns) (bq_new MAX_ATTACHMENT_QUEUE_BYTES) of
                          (Inl e, q) \<Rightarrow> leave (Inl e) (a\<lparr>at_queue := q\<rparr>)
                        | (Inr _, q) \<Rightarrow> (Continue, a\<lparr>at_queue := q\<rparr>)))))"

definition attach_live :: "'attr live_env \<Rightarrow> attach_answer list \<Rightarrow> 'attr attachment \<Rightarrow> passage \<times> 'attr attachment" where
  "attach_live env answers = and_then (attach_begin env) (attach_loop answers)"

end
