(* ===== verification/Client.thy ===== *)
theory Client
  imports Attach
begin

text \<open>
  src/attach.rs, \<open>attach\<close> and \<open>stop\<close>, and src/session.rs: what \<open>afk session\<close>, \<open>afk stop\<close> and
  \<open>afk sessions\<close> do.  \<open>client\<close> is the process: its standard streams, its terminal and the
  operating system.
\<close>

section \<open>attach\<close>

record 'attr client =
  cl_os :: os
  cl_stdout :: writer
  cl_term :: "'attr terminal"
  cl_stdin :: reader

definition attachment_of :: "'attr client \<Rightarrow> stream \<Rightarrow> trace option \<Rightarrow> os \<Rightarrow> 'attr attachment" where
  "attachment_of c st t s =
     \<lparr>at_stream = st, at_stdout = cl_stdout c, at_trace = t, at_os = s, at_term = cl_term c, at_raw = None,
       at_queue = bq_new MAX_ATTACHMENT_QUEUE_BYTES, at_decoder = decoder_default, at_stdin_closed = False,
       at_stdin = cl_stdin c, at_held = None, at_channel = [], at_reader_done = False\<rparr>"

definition client_after :: "'attr client \<Rightarrow> 'attr attachment \<Rightarrow> 'attr client" where
  "client_after c a =
     c\<lparr>cl_os := at_os a, cl_stdout := at_stdout a, cl_term := at_term a, cl_stdin := at_stdin a\<rparr>"

definition write_completion :: "process_exit \<Rightarrow> (writer, unit) io" where
  "write_completion status =
     (let (text, n) = (case status of
            Code code \<Rightarrow> (bs ''[afk: process exited with code '', code)
          | Signal signal \<Rightarrow> (bs ''[afk: process exited with signal '', signal))
      in io_try (write_all ([13, 10] @ text)) (\<lambda>_.
         io_try (write_all (digits (unat n))) (\<lambda>_.
         io_try (write_all (bs '']'' @ [10])) (\<lambda>_.
         flush_once))))"

definition open_attach_trace ::
    "registry \<Rightarrow> session_id \<Rightarrow> bool \<Rightarrow> (os, trace option) io" where
  "open_attach_trace reg session enabled =
     (if enabled then
        io_try (registry_paths reg session) (\<lambda>paths.
          io_match (trace_open (p_trace paths) (bs ''attachment''))
            (\<lambda>e. if err_kind e = NotFound then io_ok None else io_fail e)
            (\<lambda>t. io_ok (Some t)))
      else io_ok None)"

text \<open>A completed session is shown from its output file.\<close>

definition show_completed :: "process_exit \<Rightarrow> byte list option \<Rightarrow> (writer, unit) io" where
  "show_completed status output =
     io_try (case output of Some bytes \<Rightarrow> write_all bytes | None \<Rightarrow> io_ok ()) (\<lambda>_.
     write_completion status)"

definition replay_completed ::
    "registry \<Rightarrow> session_id \<Rightarrow> completed_session \<Rightarrow> trace option \<Rightarrow> 'attr client \<Rightarrow> passage \<times> 'attr client" where
  "replay_completed reg session m t c =
     (case (if cs_truncated m then write_all TRUNCATION_MARKER else io_ok ()) (cl_stdout c) of
        (Inl e, w) \<Rightarrow> (Ends (Inl e), c\<lparr>cl_stdout := w\<rparr>)
      | (Inr _, w) \<Rightarrow>
          (case read_output reg session (cl_os c) of
             (Inl e, s) \<Rightarrow> (Ends (Inl e), c\<lparr>cl_os := s, cl_stdout := w\<rparr>)
           | (Inr output, s) \<Rightarrow>
               (let status = process_exit_from (cs_exit m) in
                case show_completed status output w of
                  (Inl e, w) \<Rightarrow> (Ends (Inl e), c\<lparr>cl_os := s, cl_stdout := w\<rparr>)
                | (Inr _, w) \<Rightarrow>
                    (Ends (Inr status),
                     c\<lparr>cl_stdout := w,
                       cl_os := snd (trace_option (exit_entry ''completed_session_replayed'' status) t s)\<rparr>))))"

definition attach_connected ::
    "json \<Rightarrow> registry \<Rightarrow> session_id \<Rightarrow> 'attr live_env \<Rightarrow> attach_answer list \<Rightarrow> trace option \<Rightarrow>
     'attr client \<Rightarrow> passage \<times> 'attr client" where
  "attach_connected js reg session env answers t c =
     (let (t, s) = trace_option (Trace_event (bs ''attachment_process_started'')) t (cl_os c) in
      case connect reg session s of
        (Inr st, s) \<Rightarrow>
          (let (t, s) = trace_option (Trace_event (bs ''runner_socket_connected'')) t s in
           case attach_live env answers (attachment_of c st t s) of
             (res, a) \<Rightarrow> (res, client_after c a))
      | (Inl e, s) \<Rightarrow>
          (let (t, s) = trace_option (Trace_io_error (bs ''runner_socket_connect_failed'') e) t s in
           case read_metadata js reg session s of
             (Inl e', s) \<Rightarrow> (Ends (Inl e'), c\<lparr>cl_os := s\<rparr>)
           | (Inr (Some (Completed m)), s) \<Rightarrow> replay_completed reg session m t (c\<lparr>cl_os := s\<rparr>)
           | (Inr _, s) \<Rightarrow> (Ends (Inl e), c\<lparr>cl_os := s\<rparr>)))"

definition attach ::
    "json \<Rightarrow> session_id \<Rightarrow> bool \<Rightarrow> 'attr live_env \<Rightarrow> attach_answer list \<Rightarrow> 'attr client \<Rightarrow> passage \<times> 'attr client" where
  "attach js session trace_enabled env answers c =
     (case io_try (registry_open js) (\<lambda>reg.
        io_try (open_attach_trace reg session trace_enabled) (\<lambda>t. io_ok (reg, t))) (cl_os c) of
        (Inl e, s) \<Rightarrow> (Ends (Inl e), c\<lparr>cl_os := s\<rparr>)
      | (Inr (reg, t), s) \<Rightarrow> attach_connected js reg session env answers t (c\<lparr>cl_os := s\<rparr>))"

section \<open>stop\<close>

function await_close :: "(reader, unit) io" where
  "await_close rd =
     (case read_once 1 rd of
        (Inr bytes, rd') \<Rightarrow> if bytes = [] then (Inr (), rd') else await_close rd'
      | (Inl e, rd') \<Rightarrow>
          if err_kind e = TimedOut then (Inr (), rd')
          else if err_kind e = Interrupted then await_close rd'
          else (Inl e, rd'))"
  by pat_completeness auto
termination
  by (relation "measure size")
    (auto dest!: sym [of "(_, _)"] intro: read_once_data_measure read_once_error_measure)

declare await_close.simps [simp del]

definition stop_stream :: "unit io_result \<Rightarrow> (stream, unit) io" where
  "stop_stream set_read_timeout st =
     (case encode Stop of
        Inl e \<Rightarrow> (Inl e, st)
      | Inr encoded \<Rightarrow>
          (case write_all encoded (s_out st) of
             (Inl e, w) \<Rightarrow> (Inl e, st\<lparr>s_out := w\<rparr>)
           | (Inr _, w) \<Rightarrow>
               (case set_read_timeout of
                  Inl e \<Rightarrow> (Inl e, st\<lparr>s_out := w\<rparr>)
                | Inr _ \<Rightarrow> (case await_close (s_in st) of (res, rd) \<Rightarrow> (res, st\<lparr>s_in := rd, s_out := w\<rparr>)))))"

definition stop :: "json \<Rightarrow> unit io_result \<Rightarrow> session_id \<Rightarrow> (os, unit) io" where
  "stop js set_read_timeout session =
     io_try (registry_open js) (\<lambda>reg.
     io_try (connect reg session) (\<lambda>st s.
       (fst (stop_stream set_read_timeout st), s)))"

section \<open>connect\_or\_start\<close>

text \<open>
  \<open>launch\<close> is \<open>launch_runner\<close> with what the new runner makes of the file system; \<open>env\<close> and
  \<open>answers\<close> are the environments of the two attachments.
\<close>

definition is_missing :: "io_error \<Rightarrow> bool" where
  "is_missing e \<longleftrightarrow> err_kind e = NotFound \<or> err_kind e = ConnectionRefused"

definition start_and_attach ::
    "json \<Rightarrow> session_id \<Rightarrow> bool \<Rightarrow> os_string list \<Rightarrow> (bool \<Rightarrow> os_string list \<Rightarrow> u16 \<Rightarrow> u16 \<Rightarrow> (os, unit) io) \<Rightarrow>
     'attr live_env \<Rightarrow> attach_answer list \<Rightarrow> 'attr client \<Rightarrow> passage \<times> 'attr client" where
  "start_and_attach js session trace command launch env answers c =
     (case window_size (cl_term c) of
        (sz, t) \<Rightarrow>
          (let (rows, columns) = (case sz of Inr dims \<Rightarrow> dims | Inl _ \<Rightarrow> (24, 80));
               (launched, s) = launch trace command rows columns (cl_os c);
               c = c\<lparr>cl_os := s, cl_term := t\<rparr>
           in case launched of
                Inr _ \<Rightarrow> attach js session trace env answers c
              | Inl e \<Rightarrow>
                  if err_kind e = AlreadyExists then attach js session trace env answers c
                  else (Ends (Inl e), c)))"

definition connect_or_start ::
    "json \<Rightarrow> session_id \<Rightarrow> bool \<Rightarrow> os_string list \<Rightarrow> (bool \<Rightarrow> os_string list \<Rightarrow> u16 \<Rightarrow> u16 \<Rightarrow> (os, unit) io) \<Rightarrow>
     'attr live_env \<Rightarrow> attach_answer list \<Rightarrow> 'attr live_env \<Rightarrow> attach_answer list \<Rightarrow>
     'attr client \<Rightarrow> passage \<times> 'attr client" where
  "connect_or_start js session trace command launch env1 answers1 env2 answers2 c =
     (case attach js session trace env1 answers1 c of
        (Continue, c) \<Rightarrow> (Continue, c)
      | (Ends (Inr status), c) \<Rightarrow> (Ends (Inr status), c)
      | (Ends (Inl e), c) \<Rightarrow>
          if \<not> is_missing e then (Ends (Inl e), c)
          else
            (case io_try (registry_open js) (\<lambda>reg. read_metadata js reg session) (cl_os c) of
               (Inl e', s) \<Rightarrow> (Ends (Inl e'), c\<lparr>cl_os := s\<rparr>)
             | (Inr (Some _), s) \<Rightarrow> (Ends (Inl (io_error_new ConnectionAborted)), c\<lparr>cl_os := s\<rparr>)
             | (Inr None, s) \<Rightarrow> start_and_attach js session trace command launch env2 answers2 (c\<lparr>cl_os := s\<rparr>)))"

section \<open>sessions\<close>

definition bool_text :: "bool \<Rightarrow> byte list" where
  "bool_text b = (if b then bs ''true'' else bs ''false'')"

text \<open>The pieces \<open>writeln!\<close> writes, one after the other.\<close>

fun write_pieces :: "byte list list \<Rightarrow> (writer, unit) io" where
  "write_pieces [] = io_ok ()"
| "write_pieces (p # ps) = io_try (write_all p) (\<lambda>_. write_pieces ps)"

fun status_text :: "exit_metadata \<Rightarrow> byte list" where
  "status_text (Meta_Code code) = bs ''code='' @ digits (unat code)"
| "status_text (Meta_Signal signal) = bs ''signal='' @ digits (unat signal)"

fun listing_pieces :: "session_metadata \<Rightarrow> byte list list" where
  "listing_pieces (Live m) =
     [lv_session_id m, bs '' live runner='', digits (unat (lv_runner_pid m)), bs '' child='',
      digits (unat (lv_child_pid m)), bs '' started='', digits (unat (lv_started_at m)),
      bs '' attached='', bool_text (lv_attached m), [10]]"
| "listing_pieces (Completed m) =
     [cs_session_id m, bs '' completed started='', digits (unat (cs_started_at m)), bs '' finished='',
      digits (unat (cs_finished_at m)), bs '' '', status_text (cs_exit m), bs '' output_bytes='',
      digits (cs_output_bytes m), bs '' truncated='', bool_text (cs_truncated m), [10]]"

fun write_listing :: "session_metadata list \<Rightarrow> (writer, unit) io" where
  "write_listing [] = io_ok ()"
| "write_listing (m # ms) = io_try (write_pieces (listing_pieces m)) (\<lambda>_. write_listing ms)"

text \<open>\<open>to_writer\<close> is \<open>serde_json::to_writer\<close>.\<close>

definition sessions ::
    "json \<Rightarrow> (session_metadata list \<Rightarrow> (writer, unit) io) \<Rightarrow> bool \<Rightarrow> ('attr client, unit) io" where
  "sessions js to_writer as_json c =
     (case io_try (registry_open js) (list_sessions js) (cl_os c) of
        (Inl e, s) \<Rightarrow> (Inl e, c\<lparr>cl_os := s\<rparr>)
      | (Inr ms, s) \<Rightarrow>
          (case (if as_json
                 then io_match (to_writer ms) (\<lambda>_. io_fail (io_error_new Other)) (\<lambda>_. write_all [10])
                 else write_listing ms) (cl_stdout c) of
             (res, w) \<Rightarrow> (res, c\<lparr>cl_os := s, cl_stdout := w\<rparr>)))"

end
