(* ===== verification/App.thy ===== *)
theory App
  imports Client
begin

text \<open>
  src/lib.rs and src/main.rs: dispatch of a command line to the operations, and the process
  outcome.  \<open>None\<close> as an outcome is a process that has not ended within the answers the
  environment gives, or one that has become another program.
\<close>

section \<open>Outcomes\<close>

datatype app_status = Success | Failure | Usage | Child byte

fun app_code :: "app_status \<Rightarrow> byte" where
  "app_code Success = 0"
| "app_code Failure = 1"
| "app_code Usage = 2"
| "app_code (Child code) = code"

definition text_line :: "string \<Rightarrow> byte list" where
  "text_line text = bs text @ [10]"

text \<open>
  A trailing backslash in a string literal drops the line break and the white space that
  begins the next line, so the usage lines are not indented.
\<close>

definition HELP :: "byte list" where
  "HELP = concat
     [text_line ''AFK CLI keeps a remote terminal process alive across SSH disconnections.'', [10],
      text_line ''Usage:'',
      text_line ''afk --help'',
      text_line ''afk --version'',
      text_line ''afk session SESSION_ID [--trace] [-- COMMAND [ARG...]]'',
      text_line ''afk sessions [--json]'',
      text_line ''afk stop SESSION_ID'', [10],
      text_line ''Session commands require Linux or macOS.'']"

definition TRY_HELP :: "byte list" where
  "TRY_HELP = bs ''Try '' @ [39] @ bs ''afk --help'' @ [39] @ text_line '' for usage.''"

definition MISSING_COMMAND :: "byte list" where
  "MISSING_COMMAND = text_line ''error: a command or option is required'' @ TRY_HELP"

definition UNSUPPORTED_COMMAND :: "byte list" where
  "UNSUPPORTED_COMMAND = text_line ''error: unsupported command or option'' @ TRY_HELP"

definition write_failure :: "byte list \<Rightarrow> writer \<Rightarrow> app_status \<times> writer" where
  "write_failure message w = (Failure, snd (write_all message w))"

definition write_static :: "byte list \<Rightarrow> writer \<Rightarrow> app_status \<times> writer" where
  "write_static message w =
     (case write_all message w of (Inr _, w) \<Rightarrow> (Success, w) | (Inl _, w) \<Rightarrow> (Failure, w))"

text \<open>\<open>version\<close> is the package version cargo puts in.\<close>

definition write_version :: "byte list \<Rightarrow> writer \<Rightarrow> app_status \<times> writer" where
  "write_version version w =
     (case io_try (write_all (bs ''afk '')) (\<lambda>_. io_try (write_all version) (\<lambda>_. write_all [10])) w of
        (Inl _, w) \<Rightarrow> (Failure, w) | (Inr _, w) \<Rightarrow> (Success, w))"

definition write_usage_error :: "byte list \<Rightarrow> writer \<Rightarrow> app_status \<times> writer" where
  "write_usage_error message w =
     (case write_all message w of (Inr _, w) \<Rightarrow> (Usage, w) | (Inl _, w) \<Rightarrow> (Failure, w))"

fun session_error_message :: "error_kind \<Rightarrow> byte list" where
  "session_error_message NotFound = text_line ''error: session not found''"
| "session_error_message ConnectionRefused = text_line ''error: session not found''"
| "session_error_message ConnectionAborted = text_line ''error: session unavailable''"
| "session_error_message PermissionDenied = text_line ''error: unsafe session runtime entry''"
| "session_error_message _ = text_line ''error: session operation failed''"

definition write_session_error :: "error_kind \<Rightarrow> writer \<Rightarrow> app_status \<times> writer" where
  "write_session_error kind = write_failure (session_error_message kind)"

section \<open>Dispatch\<close>

record 'attr app_env =
  ap_json :: json
  ap_to_writer :: "session_metadata list \<Rightarrow> (writer, unit) io"
  ap_version :: "byte list"
  ap_launch :: "session_id \<Rightarrow> bool \<Rightarrow> os_string list \<Rightarrow> u16 \<Rightarrow> u16 \<Rightarrow> (os, unit) io"
  ap_live :: "'attr live_env"
  ap_answers :: "attach_answer list"
  ap_live_again :: "'attr live_env"
  ap_answers_again :: "attach_answer list"
  ap_read_timeout :: "unit io_result"
  ap_start :: start_env
  ap_polls :: "poll_answer list"
  ap_setsid :: "int option"
  ap_tiocsctty :: "int option"
  ap_exec :: "os_string \<Rightarrow> os_string list \<Rightarrow> io_error option"

text \<open>The process: its streams, and the socket that is the hidden runner's standard input.\<close>

record 'attr app =
  ap_client :: "'attr client"
  ap_stderr :: writer
  ap_socket :: writer

definition run_hidden_runner :: "'attr app_env \<Rightarrow> session_id \<Rightarrow> 'attr app \<Rightarrow> unit io_result option \<times> 'attr app" where
  "run_hidden_runner env session ap =
     (case hidden_runner (ap_start env) session (ap_polls env)
             \<lparr>ho_in = cl_stdin (ap_client ap), ho_out = ap_socket ap, ho_os = cl_os (ap_client ap), ho_child = None\<rparr> of
        (result, h) \<Rightarrow>
          ((case result of Returns res \<Rightarrow> Some res | _ \<Rightarrow> None),
           ap\<lparr>ap_client := (ap_client ap)\<lparr>cl_stdin := ho_in h, cl_os := ho_os h\<rparr>, ap_socket := ho_out h\<rparr>))"

definition succeeded :: "unit io_result \<Rightarrow> app_status io_result" where
  "succeeded = map_sum id (\<lambda>_. Success)"

definition session_result :: "'attr app_env \<Rightarrow> command \<Rightarrow> 'attr app \<Rightarrow> app_status io_result option \<times> 'attr app" where
  "session_result env command ap =
     (let c = ap_client ap in
      case command of
        Cmd_Session session trace command \<Rightarrow>
          (case connect_or_start (ap_json env) session trace command (ap_launch env session) (ap_live env)
                  (ap_answers env) (ap_live_again env) (ap_answers_again env) c of
             (Continue, c) \<Rightarrow> (None, ap\<lparr>ap_client := c\<rparr>)
           | (Ends res, c) \<Rightarrow> (Some (map_sum id (\<lambda>status. Child (status_code status)) res), ap\<lparr>ap_client := c\<rparr>))
      | Cmd_Sessions as_json \<Rightarrow>
          (case sessions (ap_json env) (ap_to_writer env) as_json c of
             (res, c) \<Rightarrow> (Some (succeeded res), ap\<lparr>ap_client := c\<rparr>))
      | Cmd_Stop session \<Rightarrow>
          (case stop (ap_json env) (ap_read_timeout env) session (cl_os c) of
             (res, s) \<Rightarrow> (Some (succeeded res), ap\<lparr>ap_client := c\<lparr>cl_os := s\<rparr>\<rparr>))
      | HiddenRunner session \<Rightarrow>
          (case run_hidden_runner env session ap of (res, ap) \<Rightarrow> (map_option succeeded res, ap))
      | HiddenChild command \<Rightarrow>
          (map_option succeeded (hidden_child (ap_setsid env) (ap_tiocsctty env) (ap_exec env) command), ap)
      | _ \<Rightarrow> (Some (Inr Success), ap))"

definition run_session_command :: "'attr app_env \<Rightarrow> command \<Rightarrow> 'attr app \<Rightarrow> app_status option \<times> 'attr app" where
  "run_session_command env command ap =
     (case session_result env command ap of
        (None, ap) \<Rightarrow> (None, ap)
      | (Some (Inr status), ap) \<Rightarrow> (Some status, ap)
      | (Some (Inl e), ap) \<Rightarrow>
          (case write_session_error (err_kind e) (ap_stderr ap) of
             (status, w) \<Rightarrow> (Some status, ap\<lparr>ap_stderr := w\<rparr>)))"

definition on_stdout :: "(writer \<Rightarrow> app_status \<times> writer) \<Rightarrow> 'attr app \<Rightarrow> app_status option \<times> 'attr app" where
  "on_stdout m ap =
     (case m (cl_stdout (ap_client ap)) of
        (status, w) \<Rightarrow> (Some status, ap\<lparr>ap_client := (ap_client ap)\<lparr>cl_stdout := w\<rparr>\<rparr>))"

definition on_stderr :: "(writer \<Rightarrow> app_status \<times> writer) \<Rightarrow> 'attr app \<Rightarrow> app_status option \<times> 'attr app" where
  "on_stderr m ap = (case m (ap_stderr ap) of (status, w) \<Rightarrow> (Some status, ap\<lparr>ap_stderr := w\<rparr>))"

definition run :: "'attr app_env \<Rightarrow> os_string list \<Rightarrow> 'attr app \<Rightarrow> app_status option \<times> 'attr app" where
  "run env arguments ap =
     (case parse arguments of
        Inr Help \<Rightarrow> on_stdout (write_static HELP) ap
      | Inr Version \<Rightarrow> on_stdout (write_version (ap_version env)) ap
      | Inr command \<Rightarrow> run_session_command env command ap
      | Inl MissingCommand \<Rightarrow> on_stderr (write_usage_error MISSING_COMMAND) ap
      | Inl _ \<Rightarrow> on_stderr (write_usage_error UNSUPPORTED_COMMAND) ap)"

text \<open>\<open>main\<close>, with the program's name as the first argument.\<close>

definition main_exit :: "'attr app_env \<Rightarrow> os_string list \<Rightarrow> 'attr app \<Rightarrow> byte option" where
  "main_exit env argv ap = map_option app_code (fst (run env (drop 1 argv) ap))"

end
