(* ===== verification/Attach_Facts.thy ===== *)
theory Attach_Facts
  imports Client
begin

text \<open>
  How the passes of the attachment's loop compose, and what each of its stages leaves alone.
\<close>

section \<open>Fields\<close>

lemma note_entry_fields [simp]:
  "at_stream (note_entry e a) = at_stream a" "at_stdout (note_entry e a) = at_stdout a"
  "at_term (note_entry e a) = at_term a" "at_raw (note_entry e a) = at_raw a"
  "at_queue (note_entry e a) = at_queue a" "at_decoder (note_entry e a) = at_decoder a"
  "at_stdin_closed (note_entry e a) = at_stdin_closed a" "at_stdin (note_entry e a) = at_stdin a"
  "at_held (note_entry e a) = at_held a" "at_channel (note_entry e a) = at_channel a"
  "at_reader_done (note_entry e a) = at_reader_done a"
  by (auto simp: note_entry_def split: prod.splits)

lemma note_fields [simp]:
  "at_stream (note_event ev a) = at_stream a" "at_stdout (note_event ev a) = at_stdout a"
  "at_term (note_event ev a) = at_term a" "at_raw (note_event ev a) = at_raw a"
  "at_queue (note_event ev a) = at_queue a" "at_decoder (note_event ev a) = at_decoder a"
  "at_stdin_closed (note_event ev a) = at_stdin_closed a" "at_stdin (note_event ev a) = at_stdin a"
  "at_held (note_event ev a) = at_held a" "at_channel (note_event ev a) = at_channel a"
  "at_reader_done (note_event ev a) = at_reader_done a"
  "at_stream (note_io_error ev e a) = at_stream a" "at_stdout (note_io_error ev e a) = at_stdout a"
  "at_term (note_io_error ev e a) = at_term a" "at_raw (note_io_error ev e a) = at_raw a"
  "at_queue (note_io_error ev e a) = at_queue a" "at_decoder (note_io_error ev e a) = at_decoder a"
  by (simp_all add: note_event_def note_io_error_def)

definition left :: "'attr attachment \<Rightarrow> 'attr attachment" where
  "left a = snd (leave (Inr (Code 0)) a)"

lemma leave_eq: "leave res a = (Ends res, left a)"
  by (simp add: leave_def left_def)

lemma left_fields [simp]:
  "at_stream (left a) = at_stream a" "at_stdout (left a) = at_stdout a" "at_queue (left a) = at_queue a"
  "at_decoder (left a) = at_decoder a" "at_raw (left a) = None"
  by (auto simp: left_def leave_def split: option.splits)

lemma window_size_keeps: "window_size t = (r, t') \<Longrightarrow> t' = t"
  by (auto simp: window_size_def io_simps from_errno_def terminal_call_def
      split: option.splits prod.splits sum.splits if_splits)

lemma window_size_valid: "window_size t = (Inr (rows, columns), t') \<Longrightarrow> valid_record (Resize rows columns)"
  by (auto simp: window_size_def io_simps from_errno_def terminal_call_def valid_dimension_def
      validate_dimensions_def split: option.splits prod.splits sum.splits if_splits)

section \<open>Stages\<close>

text \<open>
  A stage keeps an invariant as long as the loop continues, and leaves an outcome of \<open>E\<close>
  when it ends.
\<close>

definition stage_ok ::
    "('attr attachment \<Rightarrow> bool) \<Rightarrow> (process_exit io_result \<Rightarrow> 'attr attachment \<Rightarrow> bool) \<Rightarrow>
     ('attr attachment \<Rightarrow> passage \<times> 'attr attachment) \<Rightarrow> bool" where
  "stage_ok I E m \<longleftrightarrow> (\<forall>a r a'. I a \<longrightarrow> m a = (r, a') \<longrightarrow> (case r of Continue \<Rightarrow> I a' | Ends res \<Rightarrow> E res a'))"

lemma stage_okD: "stage_ok I E m \<Longrightarrow> I a \<Longrightarrow> m a = (Continue, a') \<Longrightarrow> I a'"
  "stage_ok I E m \<Longrightarrow> I a \<Longrightarrow> m a = (Ends res, a') \<Longrightarrow> E res a'"
  by (fastforce simp: stage_ok_def)+

lemma stage_okI:
  "(\<And>a a'. I a \<Longrightarrow> m a = (Continue, a') \<Longrightarrow> I a') \<Longrightarrow> (\<And>a res a'. I a \<Longrightarrow> m a = (Ends res, a') \<Longrightarrow> E res a') \<Longrightarrow>
   stage_ok I E m"
  by (auto simp: stage_ok_def split: passage.splits)

lemma and_then_Continue:
  "and_then m f a = (Continue, a') \<longleftrightarrow> (\<exists>b. m a = (Continue, b) \<and> f b = (Continue, a'))"
  by (cases "m a"; cases "fst (m a)") (auto simp: and_then_def)

lemma and_then_Ends:
  "and_then m f a = (Ends res, a') \<longleftrightarrow>
     m a = (Ends res, a') \<or> (\<exists>b. m a = (Continue, b) \<and> f b = (Ends res, a'))"
  by (cases "m a"; cases "fst (m a)") (auto simp: and_then_def)

lemma stage_and_then:
  assumes "stage_ok I E m" and "stage_ok I E f"
  shows "stage_ok I E (and_then m f)"
proof (rule stage_okI)
  fix a a'
  assume "I a" "and_then m f a = (Continue, a')"
  then obtain b where "m a = (Continue, b)" "f b = (Continue, a')" unfolding and_then_Continue by blast
  with \<open>I a\<close> show "I a'" using stage_okD(1) [OF assms(1)] stage_okD(1) [OF assms(2)] by blast
next
  fix a res a'
  assume I: "I a" and "and_then m f a = (Ends res, a')"
  then consider "m a = (Ends res, a')" | b where "m a = (Continue, b)" "f b = (Ends res, a')"
    unfolding and_then_Ends by blast
  then show "E res a'"
  proof cases
    case 1
    then show ?thesis using stage_okD(2) [OF assms(1) I] by blast
  next
    case 2
    then show ?thesis using stage_okD(1) [OF assms(1) I] stage_okD(2) [OF assms(2)] by blast
  qed
qed

text \<open>
  The contract of the stages: an invariant that each of them keeps, and that every end turns
  into a fact about the outcome.  It holds for the loop if it holds for the stages; each
  invariant of the attachment is an interpretation.
\<close>

locale attachment_stages =
  fixes I :: "'attr attachment \<Rightarrow> bool" and E :: "process_exit io_result \<Rightarrow> 'attr attachment \<Rightarrow> bool"
  assumes meanwhile: "I a \<Longrightarrow> I (meanwhile answer a)"
    and noted: "I a \<Longrightarrow> I (note_event ev a)"
    and signals: "stage_ok I E (signal_stage answer)"
    and inputs: "stage_ok I E input_stage"
    and writes: "stage_ok I E (write_stage event)"
    and closes: "stage_ok I E closed_stage"
    and receives: "stage_ok I E receive_stage"
    and poll_fails: "I a \<Longrightarrow> E (Inl e) (left (note_io_error ''attachment_poll_failed'' e a))"
begin

lemma reads: "stage_ok I E (read_stage event)"
  unfolding stage_ok_def
proof (intro allI impI)
  fix a r a'
  assume I: "I a" and run: "read_stage event a = (r, a')"
  let ?b = "if pf_hup event then note_event ''runner_socket_poll_hangup'' a else a"
  let ?c = "if pf_err event then note_event ''runner_socket_poll_error'' ?b else ?b"
  have "I ?b" using I noted by simp
  then have "I ?c" using noted by presburger
  moreover have eq: "read_stage event a = (if readable event then receive_stage ?c else (Continue, a))"
    by (simp only: read_stage_def Let_def)
  ultimately show "case r of Continue \<Rightarrow> I a' | Ends res \<Rightarrow> E res a'"
  proof (cases "readable event")
    case True
    then have "receive_stage ?c = (r, a')" using run eq by (simp only: if_True)
    with \<open>I ?c\<close> show ?thesis using receives unfolding stage_ok_def by (simp only: simp_thms)
  next
    case False
    then show ?thesis using run eq I by auto
  qed
qed

lemma tick: "stage_ok I E (attach_tick answer)"
proof -
  have rest: "stage_ok I E (and_then (write_stage event) (and_then closed_stage (read_stage event)))" for event
    by (intro stage_and_then writes closes reads)
  have poll: "stage_ok I E (\<lambda>a. case an_poll answer of
         Inl code \<Rightarrow>
           if code = EINTR then (Continue, a)
           else leave (Inl (io_error_from_errno code)) (note_io_error ''attachment_poll_failed'' (io_error_from_errno code) a)
       | Inr event \<Rightarrow> and_then (write_stage event) (and_then closed_stage (read_stage event)) a)"
  proof (cases "an_poll answer")
    case (Inl code)
    then show ?thesis using poll_fails by (auto simp: stage_ok_def leave_eq)
  next
    case (Inr event)
    then show ?thesis using rest [of event] by simp
  qed
  show ?thesis
    using stage_and_then [OF signals stage_and_then [OF inputs poll]] meanwhile
    by (auto simp: stage_ok_def attach_tick_def)
qed

lemma loop: "stage_ok I E (attach_loop answers)"
proof (induction answers)
  case Nil
  then show ?case by (auto simp: stage_ok_def)
next
  case (Cons answer answers)
  have "attach_loop (answer # answers) = and_then (attach_tick answer) (attach_loop answers)" by (rule ext) simp
  then show ?case using stage_and_then [OF tick Cons] by simp
qed

text \<open>An attachment that starts in the invariant, or ends as it should.\<close>

lemma live:
  assumes "attach_live env answers a = (r, a')"
    and "\<And>q b. attach_begin env a = (q, b) \<Longrightarrow> (case q of Continue \<Rightarrow> I b | Ends res \<Rightarrow> E res b)"
  shows "(case r of Continue \<Rightarrow> I a' | Ends res \<Rightarrow> E res a')"
proof -
  obtain q b where b: "attach_begin env a = (q, b)" by fastforce
  show ?thesis
  proof (cases q)
    case Continue
    then have "attach_loop answers b = (r, a')" using assms(1) b by (simp add: attach_live_def and_then_def)
    moreover have "I b" using assms(2) [OF b] Continue by simp
    ultimately show ?thesis using loop unfolding stage_ok_def by (simp only: simp_thms)
  next
    case (Ends y)
    then have "r = q" "a' = b" using assms(1) b by (simp_all add: attach_live_def and_then_def)
    then show ?thesis using assms(2) [OF b] by (simp only:)
  qed
qed

end

text \<open>What the environment does to everything but the input and the terminal's size.\<close>

lemma thread_step_fields [simp]:
  "at_stream (thread_step a) = at_stream a" "at_stdout (thread_step a) = at_stdout a"
  "at_term (thread_step a) = at_term a" "at_raw (thread_step a) = at_raw a"
  "at_queue (thread_step a) = at_queue a" "at_decoder (thread_step a) = at_decoder a"
  "at_stdin_closed (thread_step a) = at_stdin_closed a"
  by (auto simp: thread_step_def split: option.splits prod.splits sum.splits)

lemma thread_steps_fields [simp]:
  "at_stream ((thread_step ^^ n) a) = at_stream a" "at_stdout ((thread_step ^^ n) a) = at_stdout a"
  "at_term ((thread_step ^^ n) a) = at_term a" "at_raw ((thread_step ^^ n) a) = at_raw a"
  "at_queue ((thread_step ^^ n) a) = at_queue a" "at_decoder ((thread_step ^^ n) a) = at_decoder a"
  "at_stdin_closed ((thread_step ^^ n) a) = at_stdin_closed a"
  by (induction n) auto

lemma meanwhile_fields [simp]:
  "at_stream (meanwhile answer a) = at_stream a" "at_stdout (meanwhile answer a) = at_stdout a"
  "at_raw (meanwhile answer a) = at_raw a" "at_queue (meanwhile answer a) = at_queue a"
  "at_decoder (meanwhile answer a) = at_decoder a" "at_stdin_closed (meanwhile answer a) = at_stdin_closed a"
  "tm_attrs (at_term (meanwhile answer a)) = tm_attrs (at_term a)"
  "tm_flags (at_term (meanwhile answer a)) = tm_flags (at_term a)"
  by (simp_all add: meanwhile_def)

lemma queue_record_result:
  assumes "queue_record r q = (res, q')" and "bq_wf q"
  shows "bq_wf q' \<and> q_limit q' = q_limit q \<and>
    (case res of Inl e \<Rightarrow> q' = q | Inr _ \<Rightarrow> bq_contents q' = bq_contents q @ record_frame r)"
  using assms
  by (auto simp: queue_record_def encode_frame bq_push_eq bq_contents_push bq_wf_def
      split: if_splits ipc_record.splits)

lemma receive_input_fields:
  assumes "receive_input a = (res, a')"
  shows "at_stream a' = at_stream a \<and> at_stdout a' = at_stdout a \<and> at_term a' = at_term a \<and> at_raw a' = at_raw a \<and>
    at_decoder a' = at_decoder a \<and> at_stdin a' = at_stdin a \<and> at_held a' = at_held a"
  using assms by (auto simp: receive_input_def split: list.splits input_event.splits prod.splits sum.splits)

lemma flush_stdout_fields:
  assumes "flush_stdout a = (res, a')"
  shows "at_stream a' = at_stream a \<and> sink (at_stdout a') = sink (at_stdout a) \<and> at_term a' = at_term a \<and>
    at_raw a' = at_raw a \<and> at_decoder a' = at_decoder a \<and> at_queue a' = at_queue a \<and> at_stdin a' = at_stdin a \<and>
    at_held a' = at_held a \<and> at_channel a' = at_channel a"
  using assms flush_once_sink by (auto simp: flush_stdout_def split: prod.splits)

lemma receive_records_fields:
  assumes "receive_records a = (res, a')"
  shows "at_stdout a' = at_stdout a \<and> at_term a' = at_term a \<and> at_raw a' = at_raw a \<and> at_queue a' = at_queue a \<and>
    s_out (at_stream a') = s_out (at_stream a) \<and> at_stdin a' = at_stdin a \<and> at_held a' = at_held a \<and>
    at_channel a' = at_channel a"
  using assms by (auto simp: receive_records_def Let_def split: if_splits prod.splits sum.splits)

end
