(* ===== verification/Attach_Stream.thy ===== *)
theory Attach_Stream
  imports Attach_Facts "HOL-Library.Sublist"
begin

text \<open>
  What the terminal shows.  The runner sends the frames of the pieces of its output and of
  the status; the connection delivers a prefix of them, cut in any way.  \<open>showing\<close> relates
  what is on the terminal and what is still to come to the pieces.
\<close>

section \<open>The invariant\<close>

definition session_records :: "byte list list \<Rightarrow> process_exit \<Rightarrow> ipc_record list" where
  "session_records pieces status = map Output pieces @ [Exit status]"

definition to_come :: "'attr attachment \<Rightarrow> byte list" where
  "to_come a = buffer (at_decoder a) @ plan_bytes (read_plan (s_in (at_stream a)))"

definition valid_session :: "byte list list \<Rightarrow> process_exit \<Rightarrow> bool" where
  "valid_session pieces status \<longleftrightarrow>
     (\<forall>p \<in> set pieces. length p \<le> MAX_IPC_PAYLOAD_BYTES) \<and> valid_record (Exit status)"

definition showing :: "byte list \<Rightarrow> byte list list \<Rightarrow> process_exit \<Rightarrow> 'attr attachment \<Rightarrow> bool" where
  "showing base pieces status a \<longleftrightarrow> valid_session pieces status \<and>
     (\<exists>shown rest. pieces = shown @ rest \<and> sink (at_stdout a) = base @ concat shown \<and>
       flushed (at_stdout a) = length (sink (at_stdout a)) \<and> decoder_settled (at_decoder a) \<and>
       prefix (to_come a) (frames (session_records rest status)))"

definition shown_at_end ::
    "byte list \<Rightarrow> byte list list \<Rightarrow> process_exit \<Rightarrow> process_exit io_result \<Rightarrow> 'attr attachment \<Rightarrow> bool" where
  "shown_at_end base pieces status res a \<longleftrightarrow>
     (\<exists>n. sink (at_stdout a) = base @ take n (concat pieces)) \<and>
     (is_ok res \<longrightarrow> flushed (at_stdout a) = length (sink (at_stdout a))) \<and>
     (\<forall>st. res = Inr st \<longrightarrow> st = Code 0 \<or> st = status \<and> sink (at_stdout a) = base @ concat pieces)"

lemma showing_cong:
  "at_stdout a' = at_stdout a \<Longrightarrow> to_come a' = to_come a \<Longrightarrow> at_decoder a' = at_decoder a \<Longrightarrow>
   showing base pieces status a' = showing base pieces status a"
  by (simp add: showing_def)

lemma shown_take: "pieces = shown @ rest \<Longrightarrow> base @ concat shown = base @ take (length (concat shown)) (concat pieces)"
  by simp

text \<open>Leaving between two batches.\<close>

lemma showing_end:
  assumes "showing base pieces status a" and "at_stdout a' = at_stdout a" and "\<And>st. res = Inr st \<Longrightarrow> st = Code 0"
  shows "shown_at_end base pieces status res a'"
proof -
  obtain shown rest where s: "pieces = shown @ rest" "sink (at_stdout a) = base @ concat shown"
    "flushed (at_stdout a) = length (sink (at_stdout a))"
    using assms(1) by (auto simp: showing_def)
  then have "sink (at_stdout a') = base @ take (length (concat shown)) (concat pieces)"
    using assms(2) by simp
  with s(3) assms(2,3) show ?thesis unfolding shown_at_end_def by auto
qed

section \<open>Showing a batch\<close>

lemma flush_stdout_flushed:
  "flush_stdout a = (Inr u, a') \<Longrightarrow> flushed (at_stdout a') = length (sink (at_stdout a'))"
  by (auto simp: flush_stdout_def flush_once_def split: list.splits option.splits)

lemma write_all_shows:
  assumes "write_all b w = (q, w')" and "sink w = base @ concat shown" and "pieces = shown @ b # rest"
  shows "(case q of Inr _ \<Rightarrow> sink w' = base @ concat (shown @ [b])
    | Inl _ \<Rightarrow> \<exists>n. sink w' = base @ take n (concat pieces))"
proof -
  obtain n where n: "n \<le> length b" "sink w' = sink w @ take n b" "is_ok q \<longrightarrow> n = length b"
    using write_all_sink [OF assms(1)] by blast
  show ?thesis
  proof (cases q)
    case (Inl e)
    have "sink w' = base @ take (length (concat shown) + n) (concat pieces)" using n(1,2) assms(2,3) by simp
    with Inl show ?thesis by auto
  qed (use n assms in simp)
qed

definition batch_ok ::
    "byte list \<Rightarrow> byte list list \<Rightarrow> process_exit \<Rightarrow> bool \<Rightarrow> ipc_record list \<Rightarrow> 'attr attachment \<Rightarrow> bool" where
  "batch_ok base pieces status wrote records a \<longleftrightarrow> valid_session pieces status \<and>
     (\<exists>shown rest later. pieces = shown @ rest \<and> sink (at_stdout a) = base @ concat shown \<and>
       (wrote \<or> flushed (at_stdout a) = length (sink (at_stdout a))) \<and> decoder_settled (at_decoder a) \<and>
       session_records rest status = records @ later \<and> prefix (to_come a) (frames later))"

lemma to_come_same: "at_stream a' = at_stream a \<Longrightarrow> at_decoder a' = at_decoder a \<Longrightarrow> to_come a' = to_come a"
  by (simp add: to_come_def)

lemma session_records_Cons:
  "session_records rest status = r # records \<Longrightarrow>
   (\<exists>b rest'. rest = b # rest' \<and> r = Output b \<and> session_records rest' status = records) \<or>
   (rest = [] \<and> r = Exit status \<and> records = [])"
  by (cases rest) (auto simp: session_records_def)

lemma show_records_ok:
  "show_records records wrote a = (r, a') \<Longrightarrow> batch_ok base pieces status wrote records a \<Longrightarrow>
   (case r of Continue \<Rightarrow> showing base pieces status a' | Ends res \<Rightarrow> shown_at_end base pieces status res a')"
proof (induction records wrote a arbitrary: a' r rule: show_records.induct)
  case (1 wrote a)
  obtain shown rest where s: "pieces = shown @ rest" "sink (at_stdout a) = base @ concat shown"
    "valid_session pieces status" "wrote \<or> flushed (at_stdout a) = length (sink (at_stdout a))" "decoder_settled (at_decoder a)"
    "prefix (to_come a) (frames (session_records rest status))"
    using "1.prems"(2) by (auto simp: batch_ok_def)
  show ?case
  proof (cases wrote)
    case False
    with s "1.prems"(1) show ?thesis by (auto simp: showing_def)
  next
    case True
    obtain q b where q: "flush_stdout a = (q, b)" by fastforce
    note f = flush_stdout_fields [OF q]
    have sink: "sink (at_stdout b) = base @ take (length (concat shown)) (concat pieces)"
      using f s(1,2) by simp
    show ?thesis
    proof (cases q)
      case (Inl e)
      then have "r = Ends (Inl e)" "a' = left b" using "1.prems"(1) True q by (auto simp: leave_eq)
      with sink show ?thesis unfolding shown_at_end_def by auto
    next
      case (Inr u)
      then have "r = Continue" "a' = b" using "1.prems"(1) True q by auto
      moreover have "to_come b = to_come a" using f by (intro to_come_same) simp_all
      moreover have "flushed (at_stdout b) = length (sink (at_stdout b))"
        using flush_stdout_flushed q Inr by blast
      ultimately show ?thesis using s f unfolding showing_def by auto
    qed
  qed
next
  case (2 bytes records wrote a)
  have v: "valid_session pieces status" using "2.prems"(2) by (simp add: batch_ok_def)
  obtain shown rest later where s: "pieces = shown @ rest" "sink (at_stdout a) = base @ concat shown"
    "decoder_settled (at_decoder a)" "session_records rest status = Output bytes # records @ later"
    "prefix (to_come a) (frames later)"
    using "2.prems"(2) by (auto simp: batch_ok_def)
  then obtain rest' where rest': "rest = bytes # rest'" "session_records rest' status = records @ later"
    using session_records_Cons [OF s(4)] by auto
  obtain q w where q: "write_all bytes (at_stdout a) = (q, w)" by fastforce
  have pieces: "pieces = shown @ bytes # rest'" using s(1) rest'(1) by simp
  note w = write_all_shows [OF q s(2) pieces]
  show ?case
  proof (cases q)
    case (Inl e)
    then have "r = Ends (Inl e)" "a' = left (a\<lparr>at_stdout := w\<rparr>)" using "2.prems"(1) q by (auto simp: leave_eq)
    with w Inl show ?thesis unfolding shown_at_end_def by simp
  next
    case (Inr u)
    let ?b = "a\<lparr>at_stdout := w\<rparr>"
    have "to_come ?b = to_come a" by (simp add: to_come_def)
    then have "batch_ok base pieces status True records ?b"
      unfolding batch_ok_def using w Inr s rest' pieces v
      by (intro conjI exI [of _ "shown @ [bytes]"] exI [of _ rest'] exI [of _ later]) simp_all
    moreover have "show_records records True ?b = (r, a')" using "2.prems"(1) q Inr by simp
    ultimately show ?thesis by (intro "2.IH" [OF q [symmetric] Inr])
  qed
next
  case (3 st records wrote a)
  obtain shown rest later where s: "pieces = shown @ rest" "sink (at_stdout a) = base @ concat shown"
    "session_records rest status = Exit st # records @ later"
    using "3.prems"(2) by (auto simp: batch_ok_def)
  then have st: "rest = []" "st = status" using session_records_Cons [OF s(3)] by auto
  let ?n = "note_entry (exit_entry ''runner_reported_exit'' st) a"
  obtain q b where q: "flush_stdout ?n = (q, b)" by fastforce
  note f = flush_stdout_fields [OF q]
  have sink: "sink (at_stdout b) = base @ concat pieces" using f s(1,2) st by simp
  then have sink': "sink (at_stdout b) = base @ take (length (concat pieces)) (concat pieces)" by simp
  show ?case
  proof (cases q)
    case (Inl e)
    then have "r = Ends (Inl e)" "a' = left b" using "3.prems"(1) q by (auto simp: leave_eq)
    then show ?thesis using sink' by (auto simp: shown_at_end_def intro: exI [of _ "length (concat pieces)"])
  next
    case (Inr u)
    then have "r = Ends (Inr st)" "a' = left b" using "3.prems"(1) q by (auto simp: leave_eq)
    moreover have "flushed (at_stdout b) = length (sink (at_stdout b))"
      using flush_stdout_flushed q Inr by blast
    ultimately show ?thesis using sink st
      by (auto simp: shown_at_end_def intro: exI [of _ "length (concat pieces)"])
  qed
qed (auto simp: batch_ok_def dest!: session_records_Cons)

section \<open>Receiving\<close>

lemma receive_records_showing:
  assumes "receive_records a = (res, a')" and "showing base pieces status a"
  shows "(case res of
      Inr (Some records) \<Rightarrow> batch_ok base pieces status False records a'
    | _ \<Rightarrow> True)"
proof -
  obtain shown rest where s: "pieces = shown @ rest" "sink (at_stdout a) = base @ concat shown"
    "flushed (at_stdout a) = length (sink (at_stdout a))" "decoder_settled (at_decoder a)"
    "prefix (to_come a) (frames (session_records rest status))"
    using assms(2) by (auto simp: showing_def)
  have v: "valid_session pieces status" using assms(2) by (simp add: showing_def)
  have cap: "0 < remaining_capacity (at_decoder a)" using s(4) by (rule decoder_settled_capacity)
  let ?n = "min (remaining_capacity (at_decoder a)) IO_CHUNK_BYTES"
  obtain q rd where q: "read_once ?n (s_in (at_stream a)) = (q, rd)" by fastforce
  have n: "?n \<noteq> 0" using cap by (simp add: limits)
  let ?a = "a\<lparr>at_stream := (at_stream a)\<lparr>s_in := rd\<rparr>\<rparr>"
  have good: "\<forall>r \<in> set (session_records rest status). valid_record r"
    using v s(1) by (auto simp: session_records_def valid_session_def)
  show ?thesis
  proof (cases q)
    case (Inl e)
    have "to_come ?a = to_come a" using read_once_plan(2) q Inl by (simp add: to_come_def)
    then have "batch_ok base pieces status False [] ?a"
      unfolding batch_ok_def using s v by (intro conjI exI [of _ shown] exI [of _ rest]) simp_all
    then show ?thesis
      using assms(1) q n Inl by (auto simp: receive_records_def Let_def split: if_splits)
  next
    case (Inr bytes)
    have plan: "to_come a = (buffer (at_decoder a) @ bytes) @ plan_bytes (read_plan rd)"
      using read_once_plan(1) q Inr by (simp add: to_come_def)
    then obtain cut where cut:
      "frames (session_records rest status) = (buffer (at_decoder a) @ bytes) @ plan_bytes (read_plan rd) @ cut"
      using s(5) by (auto simp: prefix_def)
    obtain rs1 rs2 p where d: "session_records rest status = rs1 @ rs2"
      "ipc_drain (buffer (at_decoder a) @ bytes) = (Inr rs1, p)" "ipc_next p = Inr None"
      "p @ plan_bytes (read_plan rd) @ cut = concat (map record_frame rs2)"
      using ipc.drain_prefix [OF good cut [unfolded frames_def]] by blast
    have len: "length bytes \<le> ?n" using read_once_length q Inr by blast
    then have push: "decoder_push (at_decoder a) bytes = (Inr (), \<lparr>buffer = buffer (at_decoder a) @ bytes\<rparr>)"
      by (cases "at_decoder a") (simp add: decoder_push_def)
    have all: "decode_all \<lparr>buffer = buffer (at_decoder a) @ bytes\<rparr> = (Inr rs1, \<lparr>buffer = p\<rparr>)"
      using d(2) by (simp add: decode_all_ipc_drain)
    let ?b = "?a\<lparr>at_decoder := \<lparr>buffer = p\<rparr>\<rparr>"
    have "decoder_settled \<lparr>buffer = p\<rparr>" using d(3) by (simp add: decoder_settled_def ipc_next_None)
    moreover have "prefix (to_come ?b) (frames rs2)"
      using d(4) [symmetric] by (simp add: to_come_def frames_def)
    ultimately have "batch_ok base pieces status False rs1 ?b"
      unfolding batch_ok_def using s d(1) v by (intro conjI exI [of _ shown] exI [of _ rest] exI [of _ rs2]) simp_all
    then show ?thesis
      using assms(1) q n Inr push all by (auto simp: receive_records_def Let_def split: if_splits)
  qed
qed

section \<open>The stages\<close>

lemma receive_records_stdout: "receive_records a = (res, a') \<Longrightarrow> at_stdout a' = at_stdout a"
  using receive_records_fields by blast

lemma and_then_simp: "m a = (Continue, b) \<Longrightarrow> and_then m f a = f b"
  by (simp add: and_then_def)

lemma showing_notes [simp]:
  "showing base pieces status (note_entry en a) = showing base pieces status a"
  "showing base pieces status (note_event ev a) = showing base pieces status a"
  "showing base pieces status (note_io_error ev e a) = showing base pieces status a"
  by (simp_all add: showing_def to_come_def)

lemma showing_left:
  "showing base pieces status a \<Longrightarrow> at_stdout b = at_stdout a \<Longrightarrow> (\<And>st. res = Inr st \<Longrightarrow> st = Code 0) \<Longrightarrow>
   shown_at_end base pieces status res (left b)"
  by (rule showing_end) simp_all

lemma receive_stage_shows:
  "stage_ok (showing base pieces status) (shown_at_end base pieces status) receive_stage"
  unfolding stage_ok_def
proof (intro allI impI)
  fix a :: "'attr attachment" and r a'
  assume I: "showing base pieces status a" and run: "receive_stage a = (r, a')"
  obtain res b where res: "receive_records a = (res, b)" by fastforce
  have batch: "res = Inr (Some records) \<Longrightarrow> batch_ok base pieces status False records b" for records
    using receive_records_showing [OF res I] by simp
  have out: "at_stdout b = at_stdout a" by (rule receive_records_stdout [OF res])
  consider e where "res = Inl e" | "res = Inr None" | records where "res = Inr (Some records)"
    by (cases res) auto
  then show "case r of Continue \<Rightarrow> showing base pieces status a' | Ends x \<Rightarrow> shown_at_end base pieces status x a'"
  proof cases
    case (1 e)
    have "shown_at_end base pieces status (Inl e) (left (note_io_error ''runner_socket_read_failed'' e b))"
      by (rule showing_left [OF I]) (simp_all add: out)
    then show ?thesis using 1 run res by (auto simp: receive_stage_def leave_eq)
  next
    case 2
    have "shown_at_end base pieces status (Inr (Code 0)) (left (note_event ''runner_socket_eof'' b))"
      by (rule showing_left [OF I]) (simp_all add: out)
    then show ?thesis using 2 run res by (auto simp: receive_stage_def leave_eq)
  next
    case (3 records)
    then show ?thesis using show_records_ok [of records False b r a'] run res batch by (simp add: receive_stage_def)
  qed
qed

lemma signal_stage_fields:
  assumes "signal_stage answer a = (r, a')"
  shows "at_stdout a' = at_stdout a \<and> at_stream a' = at_stream a \<and> at_decoder a' = at_decoder a \<and>
    (\<forall>st. r = Ends (Inr st) \<longrightarrow> st = Code 0)"
  using assms by (auto simp: signal_stage_def leave_eq split: if_splits prod.splits sum.splits)

lemma input_stage_fields:
  assumes "input_stage a = (r, a')"
  shows "at_stdout a' = at_stdout a \<and> at_stream a' = at_stream a \<and> at_decoder a' = at_decoder a \<and>
    (\<forall>st. r \<noteq> Ends (Inr st))"
  using assms
  by (auto simp: input_stage_def leave_eq split: if_splits prod.splits sum.splits dest!: receive_input_fields)

lemma write_stage_fields:
  assumes "write_stage event a = (r, a')"
  shows "at_stdout a' = at_stdout a \<and> s_in (at_stream a') = s_in (at_stream a) \<and> at_decoder a' = at_decoder a \<and>
    (\<forall>st. r = Ends (Inr st) \<longrightarrow> st = Code 0)"
  using assms by (auto simp: write_stage_def leave_eq Let_def split: if_splits prod.splits sum.splits)

lemma closed_stage_fields:
  assumes "closed_stage a = (r, a')"
  shows "at_stdout a' = at_stdout a \<and> at_stream a' = at_stream a \<and> at_decoder a' = at_decoder a \<and>
    (\<forall>st. r = Ends (Inr st) \<longrightarrow> st = Code 0)"
  using assms by (auto simp: closed_stage_def leave_eq split: if_splits)

text \<open>A stage that leaves the output side alone keeps what is shown.\<close>

lemma aside_shows:
  assumes "\<And>a r a'. m a = (r, a') \<Longrightarrow> at_stdout a' = at_stdout a \<and> s_in (at_stream a') = s_in (at_stream a) \<and>
    at_decoder a' = at_decoder a \<and> (\<forall>st. r = Ends (Inr st) \<longrightarrow> st = Code 0)"
  shows "stage_ok (showing base pieces status) (shown_at_end base pieces status) m"
  unfolding stage_ok_def
proof (intro allI impI)
  fix a r a'
  assume I: "showing base pieces status a" and run: "m a = (r, a')"
  note f = assms [OF run]
  show "case r of Continue \<Rightarrow> showing base pieces status a' | Ends x \<Rightarrow> shown_at_end base pieces status x a'"
  proof (cases r)
    case Continue
    moreover have "showing base pieces status a' = showing base pieces status a"
      by (rule showing_cong) (simp_all add: f to_come_def)
    ultimately show ?thesis using I by simp
  next
    case (Ends x)
    have "shown_at_end base pieces status x a'" by (rule showing_end [OF I]) (use f Ends in auto)
    with Ends show ?thesis by simp
  qed
qed

interpretation display: attachment_stages "showing base pieces status" "shown_at_end base pieces status"
  for base pieces status
proof
  fix a :: "'a attachment" and answer event ev e
  show "showing base pieces status (meanwhile answer a)" if "showing base pieces status a"
    using that showing_cong [of "meanwhile answer a" a] by (simp add: to_come_def)
  show "showing base pieces status (note_event ev a)" if "showing base pieces status a" using that by simp
  show "stage_ok (showing base pieces status) (shown_at_end base pieces status) (signal_stage answer)"
    by (rule aside_shows) (auto dest: signal_stage_fields)
  show "stage_ok (showing base pieces status) (shown_at_end base pieces status) input_stage"
    by (rule aside_shows) (auto dest: input_stage_fields)
  show "stage_ok (showing base pieces status) (shown_at_end base pieces status) closed_stage"
    by (rule aside_shows) (auto dest: closed_stage_fields)
  show "stage_ok (showing base pieces status) (shown_at_end base pieces status) (write_stage event)"
    by (rule aside_shows) (auto dest: write_stage_fields)
  show "stage_ok (showing base pieces status) (shown_at_end base pieces status) receive_stage"
    by (rule receive_stage_shows)
  show "shown_at_end base pieces status (Inl e) (left (note_io_error ''attachment_poll_failed'' e a))"
    if "showing base pieces status a"
    by (rule showing_left [OF that]) simp_all
qed

section \<open>The terminal\<close>

text \<open>The raw terminal that is held can put back the attributes the terminal had.\<close>

definition restorable :: "'attr terminal \<Rightarrow> 'attr attachment \<Rightarrow> bool" where
  "restorable t a \<longleftrightarrow> tm_flags (at_term a) = tm_flags t \<and>
     (case at_raw a of
        None \<Rightarrow> tm_attrs (at_term a) = tm_attrs t
      | Some raw \<Rightarrow> (case original raw of None \<Rightarrow> tm_attrs (at_term a) = tm_attrs t | Some attrs \<Rightarrow> attrs = tm_attrs t))"

definition restored :: "'attr terminal \<Rightarrow> 'attr attachment \<Rightarrow> bool" where
  "restored t a \<longleftrightarrow> at_raw a = None \<and> tm_flags (at_term a) = tm_flags t \<and>
     (tm_fails (at_term a) Tc_setattr = None \<longrightarrow> tm_attrs (at_term a) = tm_attrs t)"

lemma left_restored: "restorable t a \<Longrightarrow> restored t (left a)"
  by (auto simp: restorable_def restored_def left_def leave_def raw_drop_def terminal_call_def
      split: option.splits)

lemma restorable_cong:
  "at_raw a' = at_raw a \<Longrightarrow> tm_attrs (at_term a') = tm_attrs (at_term a) \<Longrightarrow>
   tm_flags (at_term a') = tm_flags (at_term a) \<Longrightarrow> restorable t a' = restorable t a"
  by (simp add: restorable_def split: option.splits)

lemma restorable_simps [simp]:
  "restorable t (note_entry en a) = restorable t a" "restorable t (note_event ev a) = restorable t a"
  "restorable t (note_io_error ev e a) = restorable t a" "restorable t (meanwhile answer a) = restorable t a"
  by (rule restorable_cong; simp)+

abbreviation restoring :: "'attr terminal \<Rightarrow> ('attr attachment \<Rightarrow> passage \<times> 'attr attachment) \<Rightarrow> bool" where
  "restoring t \<equiv> stage_ok (restorable t) (\<lambda>_. restored t)"

lemma restorable_updates [simp]:
  "restorable t (a\<lparr>at_queue := q\<rparr>) = restorable t a" "restorable t (a\<lparr>at_stdout := w\<rparr>) = restorable t a"
  "restorable t (a\<lparr>at_stream := st\<rparr>) = restorable t a" "restorable t (a\<lparr>at_stdin_closed := b\<rparr>) = restorable t a"
  by (rule restorable_cong; simp)+

lemma signal_stage_restores: "restoring t (signal_stage answer)"
proof -
  have same: "a\<lparr>at_term := at_term a, at_queue := q\<rparr> = a\<lparr>at_queue := q\<rparr>" "a\<lparr>at_term := at_term a\<rparr> = a"
    for a :: "'a attachment" and q by simp_all
  show ?thesis
    unfolding stage_ok_def signal_stage_def
    by (auto simp: leave_eq same left_restored dest!: window_size_keeps split: if_splits prod.splits sum.splits)
qed

lemma input_stage_restores: "restoring t input_stage"
proof -
  have "restorable t a'" if "restorable t a" "receive_input a = (res, a')" for a a' :: "'a attachment" and res
    using that receive_input_fields [OF that(2)] restorable_cong [of a' a] by simp
  then show ?thesis
    unfolding stage_ok_def input_stage_def
    by (auto simp: leave_eq intro!: left_restored split: if_splits prod.splits sum.splits)
qed

lemma write_stage_restores: "restoring t (write_stage event)"
  unfolding stage_ok_def write_stage_def Let_def
  by (auto simp: leave_eq intro!: left_restored split: if_splits prod.splits sum.splits)

lemma closed_stage_restores: "restoring t closed_stage"
  unfolding stage_ok_def closed_stage_def by (auto simp: leave_eq intro!: left_restored split: if_splits)

lemma flush_stdout_restorable: "flush_stdout a = (q, b) \<Longrightarrow> restorable t b = restorable t a"
  using flush_stdout_fields restorable_cong by metis

lemma show_records_restores:
  "show_records records wrote a = (r, a') \<Longrightarrow> restorable t a \<Longrightarrow>
   (case r of Continue \<Rightarrow> restorable t a' | Ends res \<Rightarrow> restored t a')"
proof (induction records wrote a arbitrary: a' r rule: show_records.induct)
  case (1 wrote a)
  then show ?case
    by (auto simp: leave_eq flush_stdout_restorable intro!: left_restored split: if_splits prod.splits sum.splits)
next
  case (2 bytes records wrote a)
  show ?case
  proof (cases "write_all bytes (at_stdout a)")
    case (Pair q w)
    with 2 show ?thesis by (cases q) (auto simp: leave_eq intro!: left_restored)
  qed
next
  case (3 st records wrote a)
  then show ?case
    by (auto simp: leave_eq flush_stdout_restorable intro!: left_restored split: prod.splits sum.splits)
qed (auto simp: leave_eq intro!: left_restored)

lemma receive_stage_restores: "restoring t receive_stage"
proof -
  have keep: "restorable t a'" if "restorable t a" "receive_records a = (res, a')" for a a' :: "'a attachment" and res
    using that receive_records_fields [OF that(2)] restorable_cong [of a' a] by simp
  show ?thesis
    unfolding stage_ok_def receive_stage_def
    by (auto simp: leave_eq intro!: left_restored show_records_restores dest: keep
        split: prod.splits sum.splits option.splits)
qed

interpretation terminal: attachment_stages "restorable t" "\<lambda>_. restored t" for t
  by unfold_locales
    (simp_all add: signal_stage_restores input_stage_restores write_stage_restores closed_stage_restores
      receive_stage_restores left_restored)

section \<open>The whole attachment\<close>

definition fresh_attachment :: "'attr attachment \<Rightarrow> bool" where
  "fresh_attachment a \<longleftrightarrow>
     at_decoder a = decoder_default \<and> at_raw a = None \<and> \<not> at_stdin_closed a \<and> at_held a = None \<and>
     at_channel a = [] \<and> \<not> at_reader_done a \<and> flushed (at_stdout a) = length (sink (at_stdout a))"

lemma raw_enter_keeps:
  assumes "raw_enter make_raw t = (r, t')"
  shows "tm_flags t' = tm_flags t \<and> tm_fails t' = tm_fails t \<and>
    (case r of Inl e \<Rightarrow> tm_attrs t' = tm_attrs t
     | Inr raw \<Rightarrow> (case original raw of None \<Rightarrow> tm_attrs t' = tm_attrs t | Some attrs \<Rightarrow> attrs = tm_attrs t))"
  using assms
  by (auto simp: raw_enter_def from_errno_def terminal_call_def io_simps split: option.splits sum.splits if_splits prod.splits)

text \<open>What the start of an attachment comes to.\<close>

lemma attach_begin_cases:
  assumes "attach_begin env a = (r, a')"
  obtains (off) e where "r = Ends (Inl e)" "a' = left a"
  | (cooked) e e' t where "r = Ends (Inl e)" "raw_enter (le_make_raw env) (at_term a) = (Inl e, t)"
      "a' = left (note_io_error ''raw_terminal_entry_failed'' e' (a\<lparr>at_term := t\<rparr>))"
  | (unsignalled) rw t e where "r = Ends (Inl e)" "raw_enter (le_make_raw env) (at_term a) = (Inr rw, t)"
      "a' = left (note_io_error ''signal_registration_failed'' e
        (note_event ''raw_terminal_entered'' (a\<lparr>at_term := t, at_raw := Some rw\<rparr>)))"
  | (unqueued) rw t e q where "r = Ends (Inl e)" "raw_enter (le_make_raw env) (at_term a) = (Inr rw, t)"
      "a' = left ((note_event ''raw_terminal_entered'' (a\<lparr>at_term := t, at_raw := Some rw\<rparr>))\<lparr>at_queue := q\<rparr>)"
  | (begun) rw t u q dims where "r = Continue" "raw_enter (le_make_raw env) (at_term a) = (Inr rw, t)"
      "queue_record (Attach (fst dims) (snd dims)) (bq_new MAX_ATTACHMENT_QUEUE_BYTES) = (Inr u, q)"
      "dims = (24, 80) \<or> window_size (at_term a) = (Inr dims, at_term a)"
      "a' = (note_event ''raw_terminal_entered'' (a\<lparr>at_term := t, at_raw := Some rw\<rparr>))\<lparr>at_queue := q\<rparr>"
proof (cases "le_nonblocking env")
  case (Inl e)
  with assms have "r = Ends (Inl e)" "a' = left a" by (simp_all add: attach_begin_def leave_eq)
  then show ?thesis by (rule off)
next
  case nb: (Inr u)
  obtain sz where sz: "window_size (at_term a) = (sz, at_term a)"
    using window_size_keeps by (metis prod.exhaust)
  obtain dims where dims: "dims = (case sz of Inr d \<Rightarrow> d | Inl _ \<Rightarrow> (24, 80))" by blast
  then have from_size: "dims = (24, 80) \<or> window_size (at_term a) = (Inr dims, at_term a)"
    using sz by (cases sz) simp_all
  obtain q t where q: "raw_enter (le_make_raw env) (at_term a) = (q, t)" by fastforce
  show ?thesis
  proof (cases q)
    case (Inl e)
    then have "r = Ends (Inl e)" "a' = left (note_io_error ''raw_terminal_entry_failed'' e (a\<lparr>at_term := t\<rparr>))"
      using assms nb sz q by (simp_all add: attach_begin_def leave_eq split: prod.splits)
    then show ?thesis by (rule cooked [OF _ q [unfolded Inl]])
  next
    case (Inr rw)
    show ?thesis
    proof (cases "le_signals env")
      case (Inl e)
      have "r = Ends (Inl e)" "a' = left (note_io_error ''signal_registration_failed'' e
          (note_event ''raw_terminal_entered'' (a\<lparr>at_term := t, at_raw := Some rw\<rparr>)))"
        using assms nb sz q Inr Inl by (simp_all add: attach_begin_def leave_eq split: prod.splits)
      then show ?thesis by (rule unsignalled [OF _ q [unfolded Inr]])
    next
      case sig: (Inr u')
      obtain res qq where k: "queue_record (Attach (fst dims) (snd dims)) (bq_new MAX_ATTACHMENT_QUEUE_BYTES) = (res, qq)"
        by fastforce
      let ?n = "note_event ''raw_terminal_entered'' (a\<lparr>at_term := t, at_raw := Some rw\<rparr>)"
      have run: "(r, a') = (case res of Inl e \<Rightarrow> leave (Inl e) (?n\<lparr>at_queue := qq\<rparr>) | Inr _ \<Rightarrow> (Continue, ?n\<lparr>at_queue := qq\<rparr>))"
        unfolding assms [symmetric] attach_begin_def Let_def nb sz q Inr sig sum.case prod.case dims [symmetric]
        by (simp only: case_prod_beta k fst_conv snd_conv sum.case)
      show ?thesis
      proof (cases res)
        case (Inl e)
        have "r = Ends (Inl e)"
          "a' = left ((note_event ''raw_terminal_entered'' (a\<lparr>at_term := t, at_raw := Some rw\<rparr>))\<lparr>at_queue := qq\<rparr>)"
          using run Inl by (simp_all add: leave_eq)
        then show ?thesis by (rule unqueued [OF _ q [unfolded Inr]])
      next
        case queued: (Inr u'')
        have "r = Continue"
          "a' = (note_event ''raw_terminal_entered'' (a\<lparr>at_term := t, at_raw := Some rw\<rparr>))\<lparr>at_queue := qq\<rparr>"
          using run queued by simp_all
        then show ?thesis by (rule begun [OF _ q [unfolded Inr] k [unfolded queued] from_size])
      qed
    qed
 qed
qed

lemma attach_begin_fields:
  assumes "attach_begin env a = (r, a')"
  shows "at_stdout a' = at_stdout a \<and> at_stream a' = at_stream a \<and> at_decoder a' = at_decoder a \<and>
    (\<forall>st. r \<noteq> Ends (Inr st))"
  using assms by (cases rule: attach_begin_cases) simp_all

lemma raw_entered_restorable:
  "raw_enter make_raw (at_term a) = (Inr rw, t) \<Longrightarrow> restorable (at_term a) (a\<lparr>at_term := t, at_raw := Some rw\<rparr>)"
  using raw_enter_keeps [of make_raw "at_term a" "Inr rw" t] by (simp add: restorable_def split: option.splits)

lemma attach_begin_restores:
  assumes "attach_begin env a = (r, a')" and "at_raw a = None"
  shows "(case r of Continue \<Rightarrow> restorable (at_term a) a' | Ends res \<Rightarrow> restored (at_term a) a')"
  using assms(1)
proof (cases rule: attach_begin_cases)
  case (off e)
  then show ?thesis using assms(2) by (simp add: left_restored restorable_def)
next
  case (cooked e e' t)
  have "restorable (at_term a) (a\<lparr>at_term := t\<rparr>)"
    using raw_enter_keeps [OF cooked(2)] assms(2) by (simp add: restorable_def)
  then show ?thesis using cooked(1,3) by (simp add: left_restored)
next
  case (unsignalled rw t e)
  with raw_entered_restorable [OF unsignalled(2)] show ?thesis by (simp add: left_restored)
next
  case (unqueued rw t e q)
  with raw_entered_restorable [OF unqueued(2)] show ?thesis by (simp add: left_restored)
next
  case (begun rw t u q dims)
  with raw_entered_restorable [OF begun(2)] show ?thesis by simp
qed

lemma attach_live_shows:
  assumes "fresh_attachment a0" and "valid_session pieces status"
    and "prefix (plan_bytes (read_plan (s_in (at_stream a0)))) (frames (session_records pieces status))"
    and "attach_live env answers a0 = (r, a)"
  shows "(case r of
      Continue \<Rightarrow> showing (sink (at_stdout a0)) pieces status a
    | Ends x \<Rightarrow> shown_at_end (sink (at_stdout a0)) pieces status x a)"
proof (rule display.live [OF assms(4)])
  let ?base = "sink (at_stdout a0)"
  fix q b
  assume b: "attach_begin env a0 = (q, b)"
  note f = attach_begin_fields [OF b]
  have "to_come a0 = plan_bytes (read_plan (s_in (at_stream a0)))" "decoder_settled (at_decoder a0)"
    "flushed (at_stdout a0) = length ?base"
    using assms(1) decoder_settled_default by (auto simp: fresh_attachment_def to_come_def decoder_default_def)
  then have start: "showing ?base pieces status a0"
    unfolding showing_def using assms(2,3) by (intro conjI exI [of _ "[]"] exI [of _ pieces]) simp_all
  show "case q of Continue \<Rightarrow> showing ?base pieces status b | Ends x \<Rightarrow> shown_at_end ?base pieces status x b"
  proof (cases q)
    case Continue
    have "showing ?base pieces status b = showing ?base pieces status a0"
      by (rule showing_cong) (simp_all add: f to_come_def)
    with start Continue show ?thesis by simp
  next
    case (Ends y)
    have "shown_at_end ?base pieces status y b" by (rule showing_end [OF start]) (use f Ends in auto)
    with Ends show ?thesis by simp
  qed
qed

lemma shown_summary:
  assumes "(case r of Continue \<Rightarrow> showing base pieces status a | Ends x \<Rightarrow> shown_at_end base pieces status x a)"
  shows "(\<exists>n. sink (at_stdout a) = base @ take n (concat pieces)) \<and>
    (\<forall>st. r = Ends (Inr st) \<longrightarrow> st = Code 0 \<or> st = status \<and> sink (at_stdout a) = base @ concat pieces) \<and>
    ((\<forall>e. r \<noteq> Ends (Inl e)) \<longrightarrow> flushed (at_stdout a) = length (sink (at_stdout a)))"
proof (cases r)
  case Continue
  then have "shown_at_end base pieces status (Inr (Code 0)) a" using assms by (auto intro: showing_end)
  with Continue show ?thesis by (simp add: shown_at_end_def)
next
  case (Ends x)
  then have "shown_at_end base pieces status x a" using assms by simp
  with Ends show ?thesis unfolding shown_at_end_def by (cases x) auto
qed

text \<open>
  C11: Through any interleaving of signals, input, short reads and failing writes, what is
  written to standard output is always a prefix of the output pieces the runner sends, in
  order and without loss; whatever was received is flushed before the loop waits again;
  and the attachment ends with the status of the session only after all of its output, with
  zero when it only detaches.
\<close>

theorem attachment_shows_the_session:
  assumes "fresh_attachment a0" and "valid_session pieces status"
    and "prefix (plan_bytes (read_plan (s_in (at_stream a0)))) (frames (session_records pieces status))"
    and "attach_live env answers a0 = (r, a)"
  shows "(\<exists>n. sink (at_stdout a) = sink (at_stdout a0) @ take n (concat pieces)) \<and>
    (\<forall>st. r = Ends (Inr st) \<longrightarrow>
       st = Code 0 \<or> st = status \<and> sink (at_stdout a) = sink (at_stdout a0) @ concat pieces) \<and>
    ((\<forall>e. r \<noteq> Ends (Inl e)) \<longrightarrow> flushed (at_stdout a) = length (sink (at_stdout a)))"
  by (rule shown_summary [OF attach_live_shows [OF assms]])

text \<open>
  C25: However an attachment ends, it no longer holds the terminal in raw mode: the
  attributes are those from before it began unless the restoring call itself fails, and the
  file status flags are never changed.
\<close>

theorem attachment_restores_the_terminal:
  assumes "attach_live env answers a0 = (Ends res, a)" and "at_raw a0 = None"
  shows "at_raw a = None \<and> tm_flags (at_term a) = tm_flags (at_term a0) \<and>
    (tm_fails (at_term a) Tc_setattr = None \<longrightarrow> tm_attrs (at_term a) = tm_attrs (at_term a0))"
proof -
  have "(case Ends res of Continue \<Rightarrow> restorable (at_term a0) a | Ends _ \<Rightarrow> restored (at_term a0) a)"
    by (rule terminal.live [OF assms(1)]) (rule attach_begin_restores [OF _ assms(2)])
  then show ?thesis by (simp add: restored_def)
qed

section \<open>An attachment\<close>

definition sample_terminal :: "nat terminal" where
  "sample_terminal = \<lparr>tm_attrs = 3, tm_size = \<lparr>ws_row = 24, ws_col = 80, ws_xpixel = 0, ws_ypixel = 0\<rparr>,
     tm_flags = 2, tm_fails = (\<lambda>_. None)\<rparr>"

definition sample_attachment :: "nat attachment" where
  "sample_attachment =
     \<lparr>at_stream = \<lparr>s_in = \<lparr>read_plan = [Data (frames (session_records [[104, 105]] (Code 3)))], when_dry = Would_block\<rparr>,
        s_out = vec_writer\<rparr>,
      at_stdout = vec_writer, at_trace = None, at_os = sample_os, at_term = sample_terminal, at_raw = None,
      at_queue = bq_new MAX_ATTACHMENT_QUEUE_BYTES, at_decoder = decoder_default, at_stdin_closed = False,
      at_stdin = \<lparr>read_plan = [Data [108, 115, 10]], when_dry = Would_block\<rparr>, at_held = None, at_channel = [],
      at_reader_done = False\<rparr>"

definition sample_live_env :: "nat live_env" where
  "sample_live_env = \<lparr>le_nonblocking = Inr (), le_make_raw = Suc, le_signals = Inr ()\<rparr>"

definition answer_readable :: attach_answer where
  "answer_readable = \<lparr>an_hangup = False, an_terminate = False, an_resize = False,
     an_size = tm_size sample_terminal, an_fails = (\<lambda>_. None), an_thread = 0,
     an_poll = Inr (no_flags\<lparr>pf_in := True\<rparr>), an_clock = 100\<rparr>"

lemma sample_attachment_fresh: "fresh_attachment sample_attachment"
  by (simp add: fresh_attachment_def sample_attachment_def vec_writer_def)

lemma note_event_quiet: "at_trace a = None \<Longrightarrow> note_event ev a = a"
  by (simp add: note_event_def note_entry_def trace_option_def)

lemma attach_begin_success:
  assumes "le_nonblocking env = Inr ()" and "window_size (at_term a) = (Inr (rows, columns), t0)"
    and "raw_enter (le_make_raw env) t0 = (Inr raw, t)" and "le_signals env = Inr ()" and "at_trace a = None"
    and "queue_record (Attach rows columns) (bq_new MAX_ATTACHMENT_QUEUE_BYTES) = (Inr (), q)"
  shows "attach_begin env a = (Continue, a\<lparr>at_term := t, at_raw := Some raw, at_queue := q\<rparr>)"
  using assms by (simp add: attach_begin_def note_event_quiet)

lemma queue_record_new:
  "length (record_payload r) \<le> MAX_IPC_PAYLOAD_BYTES \<Longrightarrow>
   queue_record r (bq_new MAX_ATTACHMENT_QUEUE_BYTES) =
     (Inr (), (bq_new MAX_ATTACHMENT_QUEUE_BYTES)\<lparr>q_bytes := dq_extend dq_new (record_frame r)\<rparr>)"
  by (cases r) (simp_all add: queue_record_def encode_frame bq_push_def bq_new_def length_record_frame limits)

definition sample_queue :: byte_queue where
  "sample_queue = (bq_new MAX_ATTACHMENT_QUEUE_BYTES)\<lparr>q_bytes := dq_extend dq_new (record_frame (Attach 24 80))\<rparr>"

definition sample_begun :: "nat attachment" where
  "sample_begun = sample_attachment\<lparr>at_term := sample_terminal\<lparr>tm_attrs := 4\<rparr>,
     at_raw := Some \<lparr>original = Some 3\<rparr>, at_queue := sample_queue\<rparr>"

lemma sample_begin: "attach_begin sample_live_env sample_attachment = (Continue, sample_begun)"
proof -
  have w: "window_size sample_terminal = (Inr (24, 80), sample_terminal)"
    by (simp add: window_size_def sample_terminal_def from_errno_def terminal_call_def io_simps validate_dimensions_def limits)
  have e: "raw_enter Suc sample_terminal = (Inr \<lparr>original = Some 3\<rparr>, sample_terminal\<lparr>tm_attrs := 4\<rparr>)"
    by (simp add: raw_enter_def sample_terminal_def from_errno_def terminal_call_def io_simps)
  have q: "queue_record (Attach 24 80) (bq_new MAX_ATTACHMENT_QUEUE_BYTES) = (Inr (), sample_queue)"
    unfolding sample_queue_def by (rule queue_record_new) (simp add: u16_to_be_bytes_def limits)
  have "le_nonblocking sample_live_env = Inr ()" "le_signals sample_live_env = Inr ()"
    "at_trace sample_attachment = None"
    by (simp_all add: sample_live_env_def sample_attachment_def)
  moreover have "window_size (at_term sample_attachment) = (Inr (24, 80), sample_terminal)"
    using w by (simp add: sample_attachment_def)
  moreover have "raw_enter (le_make_raw sample_live_env) sample_terminal =
      (Inr \<lparr>original = Some 3\<rparr>, sample_terminal\<lparr>tm_attrs := 4\<rparr>)"
    using e by (simp add: sample_live_env_def)
  ultimately show ?thesis
    unfolding sample_begun_def using attach_begin_success [OF _ _ _ _ _ q] by blast
qed

text \<open>A tick in which there is only something to read, and a read that brings whole records.\<close>

lemma reading_tick:
  assumes "\<not> an_hangup answer" and "\<not> an_terminate answer" and "\<not> an_resize answer" and "an_poll answer = Inr event"
    and "pf_in event" and "\<not> pf_out event" and "\<not> pf_hup event" and "\<not> pf_err event"
    and "at_channel (meanwhile answer a) = []" and "\<not> at_reader_done (meanwhile answer a)" and "\<not> at_stdin_closed a"
  shows "attach_tick answer a = receive_stage (meanwhile answer a)"
proof -
  let ?a = "meanwhile answer a"
  have "signal_stage answer ?a = (Continue, ?a)" using assms(1-3) by (simp add: signal_stage_def)
  moreover have "input_stage ?a = (Continue, ?a)"
  proof -
    have "receive_input ?a = (Inr False, ?a)" using assms(9,10) by (simp add: receive_input_def)
    moreover have "?a\<lparr>at_stdin_closed := False\<rparr> = ?a" using assms(11) meanwhile_fields(6) [of answer a] by simp
    ultimately show ?thesis using assms(11) by (simp add: input_stage_def)
  qed
  moreover have "write_stage event ?a = (Continue, ?a)" using assms(6) by (simp add: write_stage_def)
  moreover have "closed_stage ?a = (Continue, ?a)" using assms(11) by (simp add: closed_stage_def)
  moreover have "read_stage event ?a = receive_stage ?a" using assms(5,7,8) by (simp add: read_stage_def readable_def)
  ultimately show ?thesis using assms(4) by (simp add: attach_tick_def and_then_def)
qed

lemma receive_stage_whole:
  assumes "buffer (at_decoder a) = []" and "read_once IO_CHUNK_BYTES (s_in (at_stream a)) = (Inr f, rd)"
    and "f \<noteq> []" and "length f \<le> MAX_IPC_RECORD_BYTES" and "decode_all \<lparr>buffer = f\<rparr> = (Inr rs, d)"
  shows "receive_stage a = show_records rs False (a\<lparr>at_stream := (at_stream a)\<lparr>s_in := rd\<rparr>, at_decoder := d\<rparr>)"
proof -
  have cap: "remaining_capacity (at_decoder a) = MAX_IPC_RECORD_BYTES" using assms(1) by (simp add: remaining_capacity_def)
  have "decoder_push (at_decoder a) f = (Inr (), \<lparr>buffer = f\<rparr>)"
    using assms(1,4) cap by (cases "at_decoder a") (simp add: decoder_push_def)
  moreover have "min MAX_IPC_RECORD_BYTES IO_CHUNK_BYTES = IO_CHUNK_BYTES" "IO_CHUNK_BYTES \<noteq> 0" by (simp_all add: limits)
  ultimately have "receive_records a = (Inr (Some rs), a\<lparr>at_stream := (at_stream a)\<lparr>s_in := rd\<rparr>, at_decoder := d\<rparr>)"
    using assms(2,3,5) cap by (simp add: receive_records_def Let_def)
  then show ?thesis by (simp add: receive_stage_def)
qed

lemma sample_session_valid: "valid_session [[104, 105]] (Code 3)"
  by (simp add: valid_session_def limits)

lemma sample_session_frames:
  "frames (session_records [[104, 105]] (Code 3)) = [3, 0, 0, 0, 2, 104, 105, 6, 0, 0, 0, 2, 0, 3]"
  by (simp add: frames_def session_records_def record_frame_def u32_to_be_bytes_def OUTPUT_def EXIT_def)

lemma sample_live_result:
  "\<exists>a. attach_live sample_live_env [answer_readable] sample_attachment = (Ends (Inr (Code 3)), a)"
proof -
  let ?a = "meanwhile answer_readable sample_begun"
  let ?f = "frames (session_records [[104, 105]] (Code 3))"
  have same: "at_stream ?a = at_stream sample_attachment" "at_decoder ?a = decoder_default"
    "at_stdout ?a = vec_writer" "at_trace ?a = None"
    by (simp_all add: sample_begun_def sample_attachment_def meanwhile_def answer_readable_def)
  have tick: "attach_tick answer_readable sample_begun = receive_stage ?a"
    by (rule reading_tick [where event = "no_flags\<lparr>pf_in := True\<rparr>"])
      (simp_all add: answer_readable_def no_flags_def meanwhile_def sample_begun_def sample_attachment_def)
  have "read_once IO_CHUNK_BYTES (s_in (at_stream ?a)) = (Inr ?f, \<lparr>read_plan = [], when_dry = Would_block\<rparr>)"
    unfolding same(1) by (simp add: sample_attachment_def read_once_def sample_session_frames limits)
  moreover have "decode_all \<lparr>buffer = ?f\<rparr> = (Inr [Output [104, 105], Exit (Code 3)], \<lparr>buffer = []\<rparr>)"
    using ipc.drain_frames [of "[Output [104, 105], Exit (Code 3)]" "[]"] ipc.next_nil
    by (simp add: decode_all_ipc_drain frames_def session_records_def limits)
  ultimately have rec: "receive_stage ?a = show_records [Output [104, 105], Exit (Code 3)] False
      (?a\<lparr>at_stream := (at_stream ?a)\<lparr>s_in := \<lparr>read_plan = [], when_dry = Would_block\<rparr>\<rparr>, at_decoder := \<lparr>buffer = []\<rparr>\<rparr>)"
    by (intro receive_stage_whole) (simp_all only: same, simp_all add: decoder_default_def sample_session_frames limits)
  have "\<exists>b. show_records [Output [104, 105], Exit (Code 3)] False a = (Ends (Inr (Code 3)), b)"
    if "at_stdout a = vec_writer" for a :: "nat attachment"
    using that by (simp add: write_all_vec vec_writer_def flush_stdout_def flush_once_def leave_eq)
  then obtain b where "receive_stage ?a = (Ends (Inr (Code 3)), b)" using rec same(3) by fastforce
  then show ?thesis using sample_begin tick by (simp add: attach_live_def and_then_def)
qed

lemma attachment_shows_the_session_witness:
  "\<exists>a. attach_live sample_live_env [answer_readable] sample_attachment = (Ends (Inr (Code 3)), a) \<and>
     sink (at_stdout a) = [104, 105] \<and> flushed (at_stdout a) = 2"
proof -
  obtain a where a: "attach_live sample_live_env [answer_readable] sample_attachment = (Ends (Inr (Code 3)), a)"
    using sample_live_result by blast
  have "prefix (plan_bytes (read_plan (s_in (at_stream sample_attachment)))) (frames (session_records [[104, 105]] (Code 3)))"
    by (simp add: sample_attachment_def)
  from attachment_shows_the_session [OF sample_attachment_fresh sample_session_valid this a] a
  show ?thesis by (auto simp: sample_attachment_def vec_writer_def)
qed

lemma attachment_restores_the_terminal_witness:
  "\<exists>a. attach_live sample_live_env [answer_readable] sample_attachment = (Ends (Inr (Code 3)), a) \<and>
     at_raw a = None \<and> tm_flags (at_term a) = 2"
proof -
  obtain a where a: "attach_live sample_live_env [answer_readable] sample_attachment = (Ends (Inr (Code 3)), a)"
    using sample_live_result by blast
  have "at_raw sample_attachment = None" by (simp add: sample_attachment_def)
  from attachment_restores_the_terminal [OF a this] a
  show ?thesis by (auto simp: sample_attachment_def sample_terminal_def)
qed

end
