(* ===== verification/Client_Facts.thy ===== *)
theory Client_Facts
  imports Attach_Stream Runner_End
begin

text \<open>
  What the commands promise: a completed session is replayed from its record, a runner is
  started only where there is no record, and stopping waits for the end of the connection.
\<close>

section \<open>Replaying a completed session\<close>

fun completion_text :: "process_exit \<Rightarrow> byte list" where
  "completion_text (Code code) = [13, 10] @ bs ''[afk: process exited with code '' @ digits (unat code) @ bs '']'' @ [10]"
| "completion_text (Signal signal) = [13, 10] @ bs ''[afk: process exited with signal '' @ digits (unat signal) @ bs '']'' @ [10]"

text \<open>A writer that takes everything.\<close>

definition open_writer :: "writer \<Rightarrow> bool" where
  "open_writer w \<longleftrightarrow> write_plan w = [] \<and> flush_plan w = []"

lemma write_all_open:
  "open_writer w \<Longrightarrow> \<exists>w'. write_all xs w = (Inr (), w') \<and> open_writer w' \<and> sink w' = sink w @ xs"
  by (simp add: open_writer_def write_all_vec)

lemma flush_open:
  "open_writer w \<Longrightarrow> \<exists>w'. flush_once w = (Inr (), w') \<and> open_writer w' \<and> sink w' = sink w \<and> flushed w' = length (sink w')"
  by (simp add: open_writer_def flush_once_def)

lemma write_completion_open:
  assumes "open_writer w"
  obtains w' where "write_completion status w = (Inr (), w')" "open_writer w'"
    "sink w' = sink w @ completion_text status" "flushed w' = length (sink w')"
proof -
  obtain label n where t: "(case status of
            Code code \<Rightarrow> (bs ''[afk: process exited with code '', code)
          | Signal signal \<Rightarrow> (bs ''[afk: process exited with signal '', signal)) = (label, n)" by fastforce
  obtain w1 where 1: "write_all ([13, 10] @ label) w = (Inr (), w1)" "open_writer w1" "sink w1 = sink w @ [13, 10] @ label"
    using write_all_open [OF assms] by blast
  obtain w2 where 2: "write_all (digits (unat n)) w1 = (Inr (), w2)" "open_writer w2" "sink w2 = sink w1 @ digits (unat n)"
    using write_all_open [OF 1(2)] by blast
  obtain w3 where 3: "write_all (bs '']'' @ [10]) w2 = (Inr (), w3)" "open_writer w3" "sink w3 = sink w2 @ bs '']'' @ [10]"
    using write_all_open [OF 2(2)] by blast
  obtain w4 where 4: "flush_once w3 = (Inr (), w4)" "open_writer w4" "sink w4 = sink w3" "flushed w4 = length (sink w4)"
    using flush_open [OF 3(2)] by blast
  have "write_completion status w = (Inr (), w4)"
    unfolding write_completion_def t Let_def prod.case
    by (simp only: io_try_apply 1(1) 2(1) 3(1) 4(1) prod.case sum.case)
  moreover have "sink w4 = sink w @ completion_text status"
    using t 1(3) 2(3) 3(3) 4(3) by (cases status) auto
  ultimately show thesis using that 4 by blast
qed

text \<open>The files of a completed session, as one process has left them for another.\<close>

lemma read_files:
  assumes "no_faults s" and "uid reg = os_uid o'" and "plain_umask o'"
    and "registry_paths reg session s = (Inr (paths_of reg session), s)"
  shows "look s (p_output (paths_of reg session)) = Some (own_file o' out) \<Longrightarrow> length out \<le> OUTPUT_TAIL_BYTES \<Longrightarrow>
      read_output reg session s = (Inr (Some out), s)"
    and "look s (p_metadata (paths_of reg session)) = Some (own_file o' xs) \<Longrightarrow> length xs \<le> MAX_METADATA_BYTES \<Longrightarrow>
      from_slice js xs = Some m \<Longrightarrow> metadata_session_id m = session_to_string session \<Longrightarrow>
      read_metadata js reg session s = (Inr (Some m), s)"
proof -
  have priv: "private_entry (uid reg) Regular_path 384 (own_file o' ys)" "e_node (own_file o' ys) = Regular ys" for ys
    using own_file_private [OF assms(3)] assms(2) by (simp_all add: own_file_def new_entry_def)
  show "read_output reg session s = (Inr (Some out), s)"
    if "look s (p_output (paths_of reg session)) = Some (own_file o' out)" "length out \<le> OUTPUT_TAIL_BYTES"
    unfolding read_output_def
    using assms(4) read_bounded_file_intro [OF assms(1) that(1) priv that(2)] by (simp add: io_try_apply)
  show "read_metadata js reg session s = (Inr (Some m), s)"
    if m: "look s (p_metadata (paths_of reg session)) = Some (own_file o' xs)" "length xs \<le> MAX_METADATA_BYTES"
      "from_slice js xs = Some m" "metadata_session_id m = session_to_string session"
    unfolding read_metadata_def
    using assms(4) read_bounded_file_intro [OF assms(1) m(1) priv m(2)] m(3,4) by (simp add: io_simps)
qed

lemma replay_completed_open:
  assumes "open_writer (cl_stdout c)" and "read_output reg session (cl_os c) = (Inr (Some out), cl_os c)"
  obtains w where "replay_completed reg session m None c = (Ends (Inr (process_exit_from (cs_exit m))), c\<lparr>cl_stdout := w\<rparr>)"
    "sink w = sink (cl_stdout c) @ (if cs_truncated m then TRUNCATION_MARKER else []) @ out @
      completion_text (process_exit_from (cs_exit m))" "flushed w = length (sink w)"
proof -
  obtain w1 where 1: "(if cs_truncated m then write_all TRUNCATION_MARKER else io_ok ()) (cl_stdout c) = (Inr (), w1)"
    "open_writer w1" "sink w1 = sink (cl_stdout c) @ (if cs_truncated m then TRUNCATION_MARKER else [])"
    using write_all_open [OF assms(1)] assms(1) by (cases "cs_truncated m") (auto simp: io_ok_apply)
  obtain w2 where 2: "write_all out w1 = (Inr (), w2)" "open_writer w2" "sink w2 = sink w1 @ out"
    using write_all_open [OF 1(2)] by blast
  obtain w3 where 3: "write_completion (process_exit_from (cs_exit m)) w2 = (Inr (), w3)"
    "sink w3 = sink w2 @ completion_text (process_exit_from (cs_exit m))" "flushed w3 = length (sink w3)"
    by (rule write_completion_open [OF 2(2)])
  have "show_completed (process_exit_from (cs_exit m)) (Some out) w1 = (Inr (), w3)"
    using 2(1) 3(1) by (simp add: show_completed_def io_try_apply)
  then have "replay_completed reg session m None c = (Ends (Inr (process_exit_from (cs_exit m))), c\<lparr>cl_stdout := w3\<rparr>)"
    unfolding replay_completed_def 1(1) using assms(2) by (simp add: trace_option_def Let_def)
  with 1(3) 2(3) 3 show thesis by (intro that) auto
qed

text \<open>An attachment that finds no runner, but a completed record and its output.\<close>

lemma attach_replays:
  assumes "open_writer (cl_stdout c)" and "connect reg session (cl_os c) = (Inl e, cl_os c)"
    and "read_metadata js reg session (cl_os c) = (Inr (Some (Completed cs)), cl_os c)"
    and "read_output reg session (cl_os c) = (Inr (Some out), cl_os c)"
  obtains w where
    "attach_connected js reg session env answers None c =
       (Ends (Inr (process_exit_from (cs_exit cs))), c\<lparr>cl_stdout := w\<rparr>)"
    "sink w = sink (cl_stdout c) @ (if cs_truncated cs then TRUNCATION_MARKER else []) @ out @
      completion_text (process_exit_from (cs_exit cs))" "flushed w = length (sink w)"
proof -
  obtain w where w: "replay_completed reg session cs None c =
      (Ends (Inr (process_exit_from (cs_exit cs))), c\<lparr>cl_stdout := w\<rparr>)"
    "sink w = sink (cl_stdout c) @ (if cs_truncated cs then TRUNCATION_MARKER else []) @ out @
      completion_text (process_exit_from (cs_exit cs))" "flushed w = length (sink w)"
    by (rule replay_completed_open [OF assms(1,4)])
  have "attach_connected js reg session env answers None c =
      (Ends (Inr (process_exit_from (cs_exit cs))), c\<lparr>cl_stdout := w\<rparr>)"
    using assms(2,3) w(1) by (simp add: attach_connected_def trace_option_def)
  from that [OF this w(2,3)] show thesis .
qed

lemma process_exit_metadata [simp]: "process_exit_from (exit_metadata_from exit) = exit"
  by (cases exit) simp_all

text \<open>What is relied on of the JSON encoding of the completed records of one session.\<close>

definition keeps_completed :: "json \<Rightarrow> runner \<Rightarrow> bool" where
  "keeps_completed js r \<longleftrightarrow>
     (\<forall>exit finished_at n truncated xs. n \<le> OUTPUT_TAIL_BYTES \<longrightarrow>
        to_vec js (completed_record r exit finished_at n truncated) = Some xs \<longrightarrow>
        length xs \<le> MAX_METADATA_BYTES \<and> from_slice js xs = Some (completed_record r exit finished_at n truncated))"

text \<open>
  What a completed session leaves on disk is enough: when the runner's loop has
  returned without an error, every later attachment that finds no runner writes, from
  another process, the last 256 KiB of what the managed process has written, after the
  truncation marker exactly if there was more, then how the process has ended, and returns
  the status the process has ended with.
\<close>

theorem completed_session_is_replayed:
  assumes "started_runner js r0" and "run_event_loop js polls r0 = (Returns (Inr ()), r)"
    and "keeps_completed js r0" and "plain_umask (rn_os r0)" and "uid (rn_registry r0) = os_uid (rn_os r0)"
    and "\<And>p. p \<in> {p_metadata (rn_paths r0), p_output (rn_paths r0)} \<Longrightarrow> look (cl_os c) p = look (rn_os r) p"
    and "no_faults (cl_os c)" and "open_writer (cl_stdout c)"
    and "registry_paths (rn_registry r0) (rn_session r0) (cl_os c) = (Inr (rn_paths r0), cl_os c)"
    and "connect (rn_registry r0) (rn_session r0) (cl_os c) = (Inl e, s)"
  shows "\<exists>history rest at status w. pending r0 = history @ rest \<and>
    at \<le> rn_now r \<and> child_end (rn_child r) = Some (at, status) \<and>
    attach_connected js (rn_registry r0) (rn_session r0) env answers None c =
      (Ends (Inr (process_exit_of status)), c\<lparr>cl_stdout := w\<rparr>) \<and>
    flushed w = length (sink w) \<and>
    sink w = sink (cl_stdout c) @ (if 262144 < length history then TRUNCATION_MARKER else []) @
      last_bytes 262144 history @ completion_text (process_exit_of status)"
proof -
  obtain history rest at status finished_at xs where d:
    "pending r0 = history @ rest" "at \<le> rn_now r" "child_end (rn_child r) = Some (at, status)"
    "look (rn_os r) (p_output (rn_paths r0)) = Some (own_file (rn_os r0) (last_bytes 262144 history))"
    "look (rn_os r) (p_metadata (rn_paths r0)) = Some (own_file (rn_os r0) xs)"
    "to_vec js (completed_record r0 (process_exit_of status) finished_at (min 262144 (length history))
      (262144 < length history)) = Some xs"
    by (rule completed_run [OF assms(1,2)])
  let ?m = "completed_record r0 (process_exit_of status) finished_at (min 262144 (length history)) (262144 < length history)"
  let ?reg = "rn_registry r0" and ?id = "rn_session r0"
  have paths: "rn_paths r0 = paths_of ?reg ?id" using assms(1) by (simp add: started_runner_def)
  have "min 262144 (length history) \<le> OUTPUT_TAIL_BYTES" by (simp add: limits)
  then have vec: "length xs \<le> MAX_METADATA_BYTES" "from_slice js xs = Some ?m"
    using assms(3) d(6) unfolding keeps_completed_def by blast+
  have "s = cl_os c" using readsD [OF reads_sessions(1) assms(10)] .
  note files = read_files [OF assms(7,5,4) assms(9) [unfolded paths]]
  have "metadata_session_id ?m = session_to_string ?id" by (simp add: completed_record_def)
  then have meta: "read_metadata js ?reg ?id (cl_os c) = (Inr (Some ?m), cl_os c)"
    using vec d(5) assms(6) paths by (intro files(2)) simp_all
  have out: "read_output ?reg ?id (cl_os c) = (Inr (Some (last_bytes 262144 history)), cl_os c)"
    using d(4) assms(6) paths by (intro files(1)) (simp_all add: last_bytes_def limits)
  obtain cs where cs: "?m = Completed cs" "process_exit_from (cs_exit cs) = process_exit_of status"
    "cs_truncated cs \<longleftrightarrow> 262144 < length history"
    by (simp add: completed_record_def)
  obtain w where w: "attach_connected js ?reg ?id env answers None c =
      (Ends (Inr (process_exit_from (cs_exit cs))), c\<lparr>cl_stdout := w\<rparr>)"
    "sink w = sink (cl_stdout c) @ (if cs_truncated cs then TRUNCATION_MARKER else []) @ last_bytes 262144 history @
      completion_text (process_exit_from (cs_exit cs))" "flushed w = length (sink w)"
    using attach_replays [OF assms(8) assms(10) [unfolded \<open>s = cl_os c\<close>] meta [unfolded cs(1)] out] by blast
  then show ?thesis using d(1-3) cs by (intro exI conjI) auto
qed

section \<open>Stopping\<close>

lemma await_close_delivers:
  "delivers rd xs \<Longrightarrow>
   fst (await_close rd) = (case when_dry rd of At_eof \<Rightarrow> Inr () | Would_block \<Rightarrow> Inl (io_error_new WouldBlock))"
proof (induction rd arbitrary: xs rule: await_close.induct)
  case (1 rd)
  obtain q rd' where q: "read_once 1 rd = (q, rd')" by fastforce
  show ?case
  proof (cases "xs = []")
    case True
    then consider "read_plan rd = []" | e p where "read_plan rd = Read_fails e # p" "err_kind e = Interrupted"
      using "1.prems" by (cases "read_plan rd" rule: undisturbed.cases) (auto simp: delivers_def)
    then show ?thesis
    proof cases
      case 1
      then show ?thesis by (cases "when_dry rd") (simp_all add: await_close.simps [of rd] read_once_def)
    next
      case (2 e p)
      then have e: "q = Inl e" "rd' = rd\<lparr>read_plan := p\<rparr>" using q by (simp_all add: read_once_def)
      have d: "delivers rd' []" using "1.prems" True 2 e by (simp add: delivers_def)
      have "err_kind e \<noteq> TimedOut" using 2(2) by simp
      from "1.IH"(1) [OF q [symmetric] e(1) this 2(2) d] show ?thesis
        using q e 2 by (simp add: await_close.simps [of rd])
    qed
  next
    case False
    have dry: "when_dry rd' = when_dry rd"
      using q by (auto simp: read_once_def split: list.splits read_response.splits dry.splits if_splits)
    show ?thesis
    proof (cases q)
      case (Inl e)
      note e = delivers_read_once_Inl [OF "1.prems" q [unfolded Inl] False]
      then have "err_kind e \<noteq> TimedOut" by simp
      from "1.IH"(1) [OF q [symmetric] Inl this conjunct1 [OF e] conjunct2 [OF e]] show ?thesis
        using q Inl e dry by (simp add: await_close.simps [of rd])
    next
      case (Inr bytes)
      obtain ys where ys: "bytes \<noteq> []" "delivers rd' ys"
        using delivers_read_once_Inr [OF "1.prems" q [unfolded Inr] _ False] by auto
      from "1.IH"(2) [OF q [symmetric] Inr ys] show ?thesis
        using q Inr ys(1) dry by (simp add: await_close.simps [of rd])
    qed
  qed
qed

text \<open>
  C40: Stopping sends exactly one stop record, discards whatever else the runner still
  sends, and succeeds if the runner closes the connection; a runner that keeps it open
  until the read timeout makes it fail, since the expired timeout of a Unix socket is
  \<open>WouldBlock\<close> and only \<open>TimedOut\<close> counts as success.
\<close>

theorem stop_waits_for_the_end:
  assumes "write_plan (s_out st) = []" and "delivers (s_in st) xs"
  shows "\<exists>st'. stop_stream (Inr ()) st =
      (case when_dry (s_in st) of At_eof \<Rightarrow> Inr () | Would_block \<Rightarrow> Inl (io_error_new WouldBlock), st') \<and>
    sink (s_out st') = sink (s_out st) @ record_frame Stop"
proof -
  have enc: "encode Stop = Inr (record_frame Stop)" by (simp add: encode_valid)
  obtain w where w: "write_all (record_frame Stop) (s_out st) = (Inr (), w)" "sink w = sink (s_out st) @ record_frame Stop"
    using write_all_vec [OF assms(1)] by simp
  show ?thesis
    using enc w await_close_delivers [OF assms(2)]
    by (cases "await_close (s_in st)") (simp add: stop_stream_def)
qed

lemma stop_waits_for_the_end_witness:
  "let st = \<lparr>s_in = \<lparr>read_plan = [Data [7, 8], Read_fails (io_error_new Interrupted)], when_dry = Would_block\<rparr>, s_out = vec_writer\<rparr> in
   \<exists>st'. stop_stream (Inr ()) st = (Inl (io_error_new WouldBlock), st') \<and> sink (s_out st') = [5, 0, 0, 0, 0]"
proof -
  let ?st = "\<lparr>s_in = \<lparr>read_plan = [Data [7, 8], Read_fails (io_error_new Interrupted)], when_dry = Would_block\<rparr>, s_out = vec_writer\<rparr>"
  have w: "write_plan (s_out ?st) = []" by (simp add: vec_writer_def)
  have d: "delivers (s_in ?st) [7, 8]" by (simp add: delivers_def)
  from stop_waits_for_the_end [OF w d] show ?thesis
    by (simp add: vec_writer_def record_frame_def u32_to_be_bytes_def STOP_def)
qed

section \<open>Starting\<close>

text \<open>
  C16: A runner is launched for a session only when attaching failed because the runner's
  socket is missing or nobody listens on it, and, the registry being open, the session has
  no record: what the command comes to does not depend on launching in any other case, so a
  recorded session is never silently replaced.
\<close>

theorem runner_starts_only_without_a_record:
  assumes "connect_or_start js session trace command launch env1 answers1 env2 answers2 c \<noteq>
    connect_or_start js session trace command launch' env1 answers1 env2 answers2 c"
  shows "\<exists>e c1 reg s. attach js session trace env1 answers1 c = (Ends (Inl e), c1) \<and>
    (err_kind e = NotFound \<or> err_kind e = ConnectionRefused) \<and>
    registry_open js (cl_os c1) = (Inr reg, s) \<and> read_metadata js reg session s = (Inr None, s) \<and>
    (no_faults s \<longrightarrow> look s (p_metadata (paths_of reg session)) = None)"
proof -
  obtain res c1 where a: "attach js session trace env1 answers1 c = (res, c1)" by fastforce
  then obtain e where e: "res = Ends (Inl e)" "is_missing e"
    using assms by (cases res) (auto simp: connect_or_start_def split: sum.splits if_splits)
  obtain q s where q: "io_try (registry_open js) (\<lambda>reg. read_metadata js reg session) (cl_os c1) = (q, s)" by fastforce
  have "q = Inr None"
    using assms a e q by (auto simp: connect_or_start_def split: sum.splits option.splits)
  then obtain reg s0 where r: "registry_open js (cl_os c1) = (Inr reg, s0)" "read_metadata js reg session s0 = (Inr None, s)"
    using q by (auto simp: io_try_Inr)
  moreover have "s = s0" by (rule readsD [OF reads_sessions(2) r(2)])
  ultimately show ?thesis
    using a e read_metadata_None by (auto simp: is_missing_def)
qed

section \<open>A completed session\<close>

text \<open>An encoding that keeps what differs between the completed records of one session.\<close>

definition split_u64 :: "u64 \<Rightarrow> u32 \<times> u32" where
  "split_u64 w = (ucast (drop_bit 32 w), ucast w)"

definition join_u64 :: "u32 \<Rightarrow> u32 \<Rightarrow> u64" where
  "join_u64 hi lo = push_bit 32 (ucast hi) OR ucast lo"

lemma join_split: "join_u64 (fst (split_u64 w)) (snd (split_u64 w)) = w"
  by (rule bit_word_eqI) (auto simp: join_u64_def split_u64_def bit_simps)

fun exit_bytes :: "exit_metadata \<Rightarrow> byte list" where
  "exit_bytes (Meta_Code code) = [0, code]"
| "exit_bytes (Meta_Signal signal) = [1, signal]"

definition faithful_to_vec :: "completed_session \<Rightarrow> byte list" where
  "faithful_to_vec c = (if cs_truncated c then 1 else 0) # exit_bytes (cs_exit c) @
     u32_to_be_bytes (fst (split_u64 (cs_finished_at c))) @ u32_to_be_bytes (snd (split_u64 (cs_finished_at c))) @
     u32_to_be_bytes (word_of_nat (cs_output_bytes c))"

fun faithful_from_slice :: "byte list \<Rightarrow> session_metadata option" where
  "faithful_from_slice [t, k, v, a, b, c, d, e, f, g, h, i, j, l, m] =
     Some (Completed \<lparr>cs_session_id = session_to_string sample_session, cs_started_at = 10,
       cs_finished_at = join_u64 (u32_from_be_bytes a b c d) (u32_from_be_bytes e f g h),
       cs_exit = (if k = 0 then Meta_Code v else Meta_Signal v),
       cs_output_bytes = unat (u32_from_be_bytes i j l m), cs_truncated = (t = 1)\<rparr>)"
| "faithful_from_slice _ = None"

definition faithful_json :: json where
  "faithful_json = \<lparr>
     to_vec = (\<lambda>m. case m of Live _ \<Rightarrow> Some (bs ''live'') | Completed c \<Rightarrow> Some (faithful_to_vec c)),
     from_slice = faithful_from_slice\<rparr>"

lemma faithful_keeps: "keeps_completed faithful_json ended_runner"
proof -
  have "length xs \<le> MAX_METADATA_BYTES \<and> from_slice faithful_json xs = Some (completed_record ended_runner exit finished_at n truncated)"
    if n: "n \<le> OUTPUT_TAIL_BYTES" and xs: "to_vec faithful_json (completed_record ended_runner exit finished_at n truncated) = Some xs"
    for exit finished_at n truncated xs
  proof -
    have "unat (word_of_nat n :: u32) = n" using n by (simp add: limits unat_of_nat)
    then show ?thesis
      using xs join_split [of finished_at]
      by (cases exit)
        (auto simp: faithful_json_def completed_record_def faithful_to_vec_def u32_to_be_bytes_def u32_be_roundtrip
          ended_runner_def sample_runner_def MAX_METADATA_BYTES_def)
  qed
  then show ?thesis unfolding keeps_completed_def by blast
qed

lemma faithful_encodes: "encodes faithful_json"
  unfolding encodes_def
proof
  fix m
  show "\<exists>xs. to_vec faithful_json m = Some xs \<and> length xs \<le> MAX_METADATA_BYTES"
  proof (cases m)
    case (Completed c)
    then show ?thesis
      by (cases "cs_exit c") (simp_all add: faithful_json_def faithful_to_vec_def MAX_METADATA_BYTES_def)
  qed (simp add: faithful_json_def bs_def MAX_METADATA_BYTES_def)
qed

lemma faithful_started: "started_runner faithful_json ended_runner"
proof -
  have "meta_says faithful_json False ended_runner"
    using started_os_facts(3,4) own_file_process
    by (simp add: meta_says_def runner_metadata_def live_metadata_def faithful_json_def ended_runner_fields)
  then show ?thesis
    using ended_runner_fresh by (simp add: started_runner_def ended_runner_fields trace_ok_def)
qed

definition reading_client :: "entry \<Rightarrow> entry \<Rightarrow> nat client" where
  "reading_client meta out = \<lparr>cl_os = set_entry (p_output sample_paths) out (set_entry (p_metadata sample_paths) meta sample_os),
     cl_stdout = vec_writer, cl_term = sample_terminal, cl_stdin = at_stdin sample_attachment\<rparr>"

lemma missing_socket:
  assumes "no_faults s" and "look s (p_socket (paths_of reg session)) = None"
    and "registry_paths reg session s = (Inr (paths_of reg session), s)"
  shows "connect reg session s = (Inl (io_error_new NotFound), s)"
  using assms missing_calls(2) [OF assms(1,2)] by (simp add: connect_def io_try_apply)

lemma reading_client_facts:
  fixes meta out :: entry
  defines "c \<equiv> reading_client meta out"
  shows "look (cl_os c) (p_metadata sample_paths) = Some meta" "look (cl_os c) (p_output sample_paths) = Some out"
    "no_faults (cl_os c)" "open_writer (cl_stdout c)" "os_uid (cl_os c) = 1000" "plain_umask (cl_os c)"
    "registry_paths sample_registry sample_session (cl_os c) = (Inr sample_paths, cl_os c)"
    "connect sample_registry sample_session (cl_os c) = (Inl (io_error_new NotFound), cl_os c)"
proof -
  note key = session_key_paths [OF sample_session_wf, of sample_registry]
  have diff: "p_metadata sample_paths \<noteq> p_output sample_paths" "p_socket sample_paths \<noteq> p_output sample_paths"
    "p_socket sample_paths \<noteq> p_metadata sample_paths"
    by (simp_all add: paths_of_session_path bs_def)
  show "look (cl_os c) (p_metadata sample_paths) = Some meta" "look (cl_os c) (p_output sample_paths) = Some out"
    using diff by (simp_all add: c_def reading_client_def)
  show faults: "no_faults (cl_os c)" and "open_writer (cl_stdout c)"
    by (simp_all add: c_def reading_client_def open_writer_def vec_writer_def)
  have "same_process sample_os (cl_os c)"
    by (simp add: c_def reading_client_def same_process_def set_entry_def)
  then show "os_uid (cl_os c) = 1000" "plain_umask (cl_os c)"
    using same_process_fields(2,4) sample_plain_umask by (simp_all add: plain_umask_def)
  show "registry_paths sample_registry sample_session (cl_os c) = (Inr sample_paths, cl_os c)"
    by (rule sample_paths_ok)
  have "look (cl_os c) (p_socket sample_paths) = None"
    using diff sample_missing [OF key(3)] by (simp add: c_def reading_client_def)
  then show "connect sample_registry sample_session (cl_os c) = (Inl (io_error_new NotFound), cl_os c)"
    using missing_socket [OF faults _ sample_paths_ok] by blast
qed

lemma faithful_run:
  obtains r where "run_event_loop faithful_json [poll_accept] ended_runner = (Returns (Inr ()), r)"
proof -
  obtain r where "runner_tick faithful_json poll_accept ended_runner = (Returns (Inr ()), r)"
    using ended_tick [OF ended_runner_sound faithful_encodes ended_runner_exited ended_runner_fields(7)] by blast
  then show thesis by (intro that [of r]) simp
qed

lemma ended_runner_user:
  "plain_umask (rn_os ended_runner)" "uid (rn_registry ended_runner) = os_uid (rn_os ended_runner)"
  using sample_plain_umask same_process_fields(2,4) [OF started_os_facts(3)]
  by (simp_all add: ended_runner_fields plain_umask_def)

lemma completed_session_is_replayed_witness:
  "\<exists>r c w at status. run_event_loop faithful_json [poll_accept] ended_runner = (Returns (Inr ()), r) \<and>
     child_end (rn_child r) = Some (at, status) \<and>
     attach_connected faithful_json sample_registry sample_session sample_live_env [] None c =
       (Ends (Inr (process_exit_of status)), c\<lparr>cl_stdout := w\<rparr>) \<and> flushed w = length (sink w)"
proof -
  obtain r where r: "run_event_loop faithful_json [poll_accept] ended_runner = (Returns (Inr ()), r)"
    by (rule faithful_run)
  obtain meta out where files: "look (rn_os r) (p_metadata sample_paths) = Some meta"
      "look (rn_os r) (p_output sample_paths) = Some out"
    using completed_run [OF faithful_started r] unfolding ended_runner_fields by metis
  let ?c = "reading_client meta out"
  note c = reading_client_facts [of meta out]
  have look: "look (cl_os ?c) p = look (rn_os r) p" if "p \<in> {p_metadata (rn_paths ended_runner), p_output (rn_paths ended_runner)}" for p
    using that files c(1,2) by (auto simp: ended_runner_fields)
  note replayed = completed_session_is_replayed [OF faithful_started r faithful_keeps ended_runner_user look c(3,4),
      unfolded ended_runner_fields, OF _ c(7,8), of sample_live_env "[]"]
  then obtain at status w where w: "child_end (rn_child r) = Some (at, status)"
    "attach_connected faithful_json sample_registry sample_session sample_live_env [] None ?c =
      (Ends (Inr (process_exit_of status)), ?c\<lparr>cl_stdout := w\<rparr>)" "flushed w = length (sink w)"
    by blast
  then show ?thesis using r by blast
qed

text \<open>A client that finds nothing.\<close>

definition lonely_client :: "nat client" where
  "lonely_client = \<lparr>cl_os = sample_os, cl_stdout = vec_writer, cl_term = sample_terminal, cl_stdin = at_stdin sample_attachment\<rparr>"

definition opened_os :: os where
  "opened_os = snd (registry_open sample_json sample_os)"

lemma opened: "registry_open sample_json sample_os = (Inr \<lparr>root = bs ''/h/.afk/run'', uid = 1000\<rparr>, opened_os)"
proof -
  have "fst (registry_open sample_json sample_os) = Inr \<lparr>root = bs ''/h/.afk/run'', uid = 1000\<rparr>" by code_simp
  then show ?thesis unfolding opened_os_def by (metis prod.collapse)
qed

lemma opened_unconnected:
  "\<exists>e. connect \<lparr>root = bs ''/h/.afk/run'', uid = 1000\<rparr> sample_session opened_os = (Inl e, opened_os) \<and> err_kind e = NotFound"
proof -
  let ?reg = "\<lparr>root = bs ''/h/.afk/run'', uid = 1000\<rparr>"
  have "case fst (connect ?reg sample_session opened_os) of Inl e \<Rightarrow> err_kind e = NotFound | Inr _ \<Rightarrow> False" by code_simp
  moreover have "snd (connect ?reg sample_session opened_os) = opened_os" using reads_sessions(1) by (simp add: reads_def)
  ultimately show ?thesis by (cases "connect ?reg sample_session opened_os") (auto split: sum.splits)
qed

lemma unrecorded:
  assumes "registry_paths reg session s = (Inr paths, s)" and "look s (p_metadata paths) = None"
    and "faults s Sys_lstat (p_metadata paths) = None"
  shows "read_metadata js reg session s = (Inr None, s)"
proof -
  have "verify_path (p_metadata paths) (uid reg) Regular_path 384 s = (Inl (io_error_new NotFound), s)"
    using assms(2,3) by (simp add: verify_path_def fs_lstat_def syscall_def io_simps)
  then show ?thesis
    using assms(1) by (simp add: read_metadata_def read_bounded_file_def io_simps)
qed

abbreviation home_registry :: registry where
  "home_registry \<equiv> \<lparr>root = bs ''/h/.afk/run'', uid = 1000\<rparr>"

lemma home_paths: "registry_paths home_registry sample_session s = (Inr (paths_of home_registry sample_session), s)"
proof -
  have "length (p_socket (paths_of home_registry sample_session)) \<le> UNIX_SOCKET_PATH_BYTES" by code_simp
  then show ?thesis by (simp add: registry_paths_def io_simps)
qed

lemma opened_unrecorded: "read_metadata sample_json home_registry sample_session opened_os = (Inr None, opened_os)"
proof (rule unrecorded [OF home_paths])
  show "look opened_os (p_metadata (paths_of home_registry sample_session)) = None" by code_simp
  show "faults opened_os Sys_lstat (p_metadata (paths_of home_registry sample_session)) = None" by code_simp
qed

definition opened_twice_os :: os where
  "opened_twice_os = snd (registry_open sample_json opened_os)"

lemma opened_again: "registry_open sample_json opened_os = (Inr home_registry, opened_twice_os)"
proof -
  have "fst (registry_open sample_json opened_os) = Inr home_registry" by code_simp
  then show ?thesis unfolding opened_twice_os_def by (metis prod.collapse)
qed

lemma opened_twice_unrecorded:
  "read_metadata sample_json home_registry sample_session opened_twice_os = (Inr None, opened_twice_os)"
proof (rule unrecorded [OF home_paths])
  show "look opened_twice_os (p_metadata (paths_of home_registry sample_session)) = None" by code_simp
  show "faults opened_twice_os Sys_lstat (p_metadata (paths_of home_registry sample_session)) = None" by code_simp
qed

definition failing_launch :: "error_kind \<Rightarrow> bool \<Rightarrow> os_string list \<Rightarrow> u16 \<Rightarrow> u16 \<Rightarrow> (os, unit) io" where
  "failing_launch kind _ _ _ _ = io_fail (io_error_new kind)"

lemma lonely_attach:
  "\<exists>e. attach sample_json sample_session False sample_live_env [] lonely_client = (Ends (Inl e), lonely_client\<lparr>cl_os := opened_os\<rparr>) \<and>
     err_kind e = NotFound"
proof -
  obtain e where e: "connect \<lparr>root = bs ''/h/.afk/run'', uid = 1000\<rparr> sample_session opened_os = (Inl e, opened_os)"
    "err_kind e = NotFound" using opened_unconnected by blast
  then show ?thesis
    by (simp add: attach_def io_try_apply lonely_client_def opened open_attach_trace_def io_ok_apply attach_connected_def
        trace_option_def opened_unrecorded)
qed

lemma lonely_start:
  assumes "kind \<noteq> AlreadyExists"
  shows "fst (connect_or_start sample_json sample_session False [] (failing_launch kind) sample_live_env [] sample_live_env []
    lonely_client) = Ends (Inl (io_error_new kind))"
proof -
  obtain e where e: "attach sample_json sample_session False sample_live_env [] lonely_client =
      (Ends (Inl e), lonely_client\<lparr>cl_os := opened_os\<rparr>)" "err_kind e = NotFound"
    using lonely_attach by blast
  have "io_try (registry_open sample_json) (\<lambda>reg. read_metadata sample_json reg sample_session) opened_os = (Inr None, opened_twice_os)"
    by (simp add: io_try_apply opened_again opened_twice_unrecorded)
  then show ?thesis
    using assms e
    by (simp add: connect_or_start_def is_missing_def start_and_attach_def failing_launch_def io_fail_apply
        split: prod.splits sum.splits)
qed

lemma runner_starts_only_without_a_record_witness:
  "\<exists>e c1 reg s. attach sample_json sample_session False sample_live_env [] lonely_client = (Ends (Inl e), c1) \<and>
    (err_kind e = NotFound \<or> err_kind e = ConnectionRefused) \<and>
    registry_open sample_json (cl_os c1) = (Inr reg, s) \<and> read_metadata sample_json reg sample_session s = (Inr None, s)"
proof -
  have "connect_or_start sample_json sample_session False [] (failing_launch Other) sample_live_env [] sample_live_env []
      lonely_client \<noteq>
    connect_or_start sample_json sample_session False [] (failing_launch OutOfMemory) sample_live_env [] sample_live_env []
      lonely_client"
    using lonely_start [of Other] lonely_start [of OutOfMemory] by (metis error_kind.distinct(1) error_kind.simps io_error_new_kind passage.inject sum.inject(1))
  from runner_starts_only_without_a_record [OF this] show ?thesis by blast
qed

end
