(* ===== verification/App_Facts.thy ===== *)
theory App_Facts
  imports App Client_Facts
begin

text \<open>
  What a user sees of the outcome: the exit code, and what is written to standard error.
\<close>

section \<open>What standard error receives\<close>

definition diagnostics :: "byte list set" where
  "diagnostics = {[], MISSING_COMMAND, UNSUPPORTED_COMMAND} \<union> range session_error_message"

text \<open>An outcome reports properly if standard error has at most the front of a fixed text.\<close>

definition reports :: "writer \<Rightarrow> writer \<Rightarrow> bool" where
  "reports w w' \<longleftrightarrow> (\<exists>d \<in> diagnostics. \<exists>n. sink w' = sink w @ take n d)"

lemma reports_refl [simp]: "reports w w"
  unfolding reports_def diagnostics_def by (intro bexI [of _ "[]"]) simp_all

lemma reports_write:
  assumes "write_all d w = (r, w')" and "d \<in> diagnostics"
  shows "reports w w'"
  using write_all_sink [OF assms(1)] assms(2) unfolding reports_def by blast

lemma usage_error_reports:
  assumes "write_usage_error d w = (status, w')" and "d \<in> diagnostics"
  shows "reports w w' \<and> (status = Usage \<longrightarrow> sink w' = sink w @ d) \<and> status \<in> {Usage, Failure}"
proof -
  obtain r where w: "write_all d w = (r, w')" using assms(1) by (auto simp: write_usage_error_def split: prod.splits sum.splits)
  then have "status = (case r of Inr _ \<Rightarrow> Usage | Inl _ \<Rightarrow> Failure)"
    using assms(1) by (auto simp: write_usage_error_def split: sum.splits)
  then show ?thesis
    using reports_write [OF w assms(2)] write_all_sink [OF w] by (cases r) auto
qed

lemma session_error_reports:
  assumes "write_session_error kind w = (status, w')"
  shows "reports w w' \<and> status = Failure"
proof -
  obtain r where w: "write_all (session_error_message kind) w = (r, w')"
    using assms by (cases "write_all (session_error_message kind) w") (auto simp: write_session_error_def write_failure_def)
  then show ?thesis
    using assms reports_write [OF w] by (auto simp: write_session_error_def write_failure_def diagnostics_def)
qed

text \<open>No command but the reporting of its error writes to standard error.\<close>

lemma session_result_fields:
  assumes "session_result env command ap = (res, ap')"
  shows "ap_stderr ap' = ap_stderr ap"
  using assms
  by (cases command)
    (auto simp: session_result_def run_hidden_runner_def Let_def split: prod.splits passage.splits outcome.splits)

definition session_run ::
    "'attr app_env \<Rightarrow> session_id \<Rightarrow> bool \<Rightarrow> os_string list \<Rightarrow> 'attr app \<Rightarrow> passage \<times> 'attr client" where
  "session_run env session trace command ap =
     connect_or_start (ap_json env) session trace command (ap_launch env session) (ap_live env)
       (ap_answers env) (ap_live_again env) (ap_answers_again env) (ap_client ap)"

lemma succeeded_Inr: "succeeded res = Inr status \<longleftrightarrow> status = Success \<and> is_ok res"
  by (cases res) (auto simp: succeeded_def)

lemma session_result_status:
  assumes "session_result env command ap = (Some (Inr status), ap')"
  shows "status = Success \<or> (\<exists>session trace cmd exit c. command = Cmd_Session session trace cmd \<and>
    session_run env session trace cmd ap = (Ends (Inr exit), c) \<and> status = Child (status_code exit))"
proof (cases command)
  case (Cmd_Session session trace cmd)
  obtain r c where r: "session_run env session trace cmd ap = (r, c)" by fastforce
  with assms Cmd_Session obtain res where "r = Ends res" "map_sum id (\<lambda>status. Child (status_code status)) res = Inr status"
    by (cases r) (auto simp: session_result_def session_run_def)
  with r Cmd_Session show ?thesis by (cases res) auto
qed (use assms in \<open>auto simp: session_result_def run_hidden_runner_def succeeded_Inr Let_def
    split: prod.splits\<close>)

text \<open>A rejected command line, and a command.\<close>

lemma run_rejected:
  assumes "run env arguments ap = (outcome, ap')" and "parse arguments = Inl e"
  shows "reports (ap_stderr ap) (ap_stderr ap') \<and> (outcome = Some Usage \<or> outcome = Some Failure) \<and>
    (outcome = Some Usage \<longrightarrow> sink (ap_stderr ap') =
       sink (ap_stderr ap) @ (if e = MissingCommand then MISSING_COMMAND else UNSUPPORTED_COMMAND))"
proof -
  let ?d = "if e = MissingCommand then MISSING_COMMAND else UNSUPPORTED_COMMAND"
  obtain status w where w: "write_usage_error ?d (ap_stderr ap) = (status, w)" by fastforce
  have "run env arguments ap = on_stderr (write_usage_error ?d) ap"
    by (cases e) (simp_all only: run_def assms(2) sum.case parse_error.case parse_error.distinct if_True if_False simp_thms)
  then have "(outcome, ap') = (Some status, ap\<lparr>ap_stderr := w\<rparr>)"
    using assms(1) w by (simp only: on_stderr_def prod.case)
  then have "outcome = Some status" "ap_stderr ap' = w" by simp_all
  moreover have "?d \<in> diagnostics" by (simp add: diagnostics_def)
  ultimately show ?thesis using usage_error_reports [OF w] by auto
qed

lemma run_session_outcome:
  assumes "run_session_command env command ap = (outcome, ap')"
  shows "reports (ap_stderr ap) (ap_stderr ap') \<and> outcome \<noteq> Some Usage \<and>
    (\<forall>code. outcome = Some (Child code) \<longrightarrow> ap_stderr ap' = ap_stderr ap \<and>
       (\<exists>session trace argv exit c. command = Cmd_Session session trace argv \<and>
          session_run env session trace argv ap = (Ends (Inr exit), c) \<and> code = status_code exit)) \<and>
    (outcome = Some Success \<longrightarrow> ap_stderr ap' = ap_stderr ap)"
proof -
  obtain res ap1 where res: "session_result env command ap = (res, ap1)" by fastforce
  note same = session_result_fields [OF res]
  consider "res = None" | status where "res = Some (Inr status)" | e where "res = Some (Inl e)"
    by (metis option.exhaust sum.exhaust)
  then show ?thesis
  proof cases
    case 1
    then show ?thesis using assms res same by (auto simp: run_session_command_def)
  next
    case (2 status)
    then have "outcome = Some status" "ap' = ap1" using assms res by (simp_all add: run_session_command_def)
    then show ?thesis using session_result_status [OF res [unfolded 2]] same by auto
  next
    case (3 e)
    obtain st w where w: "write_session_error (err_kind e) (ap_stderr ap1) = (st, w)" by fastforce
    then have "outcome = Some st" "ap_stderr ap' = w" using 3 assms res by (auto simp: run_session_command_def)
    then show ?thesis using session_error_reports [OF w] same by auto
  qed
qed

text \<open>
  C29: The exit code and standard error, over every command: standard error receives at
  most the front of one of six fixed texts, so never an argument; the usage code means
  that the command line was rejected and its diagnostic was written in full; the code
  of a managed process is reported exactly as the session came to it, with nothing on
  standard error; and success leaves standard error alone.
\<close>

theorem outcome_and_diagnostics:
  assumes "run env arguments ap = (outcome, ap')"
  shows "reports (ap_stderr ap) (ap_stderr ap') \<and>
    (outcome = Some Usage \<longrightarrow> (\<exists>e. parse arguments = Inl e \<and> sink (ap_stderr ap') =
       sink (ap_stderr ap) @ (if e = MissingCommand then MISSING_COMMAND else UNSUPPORTED_COMMAND))) \<and>
    (\<forall>code. outcome = Some (Child code) \<longrightarrow> ap_stderr ap' = ap_stderr ap \<and>
       (\<exists>session trace command exit c. parse arguments = Inr (Cmd_Session session trace command) \<and>
          session_run env session trace command ap = (Ends (Inr exit), c) \<and> code = status_code exit)) \<and>
    (outcome = Some Success \<longrightarrow> ap_stderr ap' = ap_stderr ap)"
proof (cases "parse arguments")
  case (Inl e)
  with run_rejected [OF assms] show ?thesis by auto
next
  case (Inr command)
  show ?thesis
  proof (cases "command = Help \<or> command = Version")
    case True
    then have "ap_stderr ap' = ap_stderr ap" "outcome = Some Success \<or> outcome = Some Failure"
      using assms Inr
      by (auto simp: run_def on_stdout_def write_static_def write_version_def split: prod.splits sum.splits)
    then show ?thesis by auto
  next
    case False
    then have "run_session_command env command ap = (outcome, ap')"
      using assms Inr by (cases command) (simp_all add: run_def)
    from run_session_outcome [OF this] show ?thesis using Inr by auto
  qed
qed

text \<open>A rejected command line.\<close>

definition sample_app_env :: "nat app_env" where
  "sample_app_env = \<lparr>ap_json = sample_json, ap_to_writer = (\<lambda>_. io_ok ()), ap_version = bs ''0.1.0'',
     ap_launch = (\<lambda>_. failing_launch Other), ap_live = sample_live_env, ap_answers = [],
     ap_live_again = sample_live_env, ap_answers_again = [], ap_read_timeout = Inr (), ap_start = sample_env,
     ap_polls = [], ap_setsid = None, ap_tiocsctty = None, ap_exec = (\<lambda>_ _. None)\<rparr>"

definition sample_app :: "nat app" where
  "sample_app = \<lparr>ap_client = lonely_client, ap_stderr = vec_writer, ap_socket = vec_writer\<rparr>"

lemma outcome_and_diagnostics_witness:
  "\<exists>ap'. run sample_app_env [] sample_app = (Some Usage, ap') \<and> sink (ap_stderr ap') = MISSING_COMMAND"
proof -
  have "parse [] = Inl MissingCommand" by (simp add: parse_def)
  then have "run sample_app_env [] sample_app = (Some Usage, sample_app\<lparr>ap_stderr := vec_writer\<lparr>sink := MISSING_COMMAND\<rparr>\<rparr>)"
    by (simp add: run_def on_stderr_def write_usage_error_def sample_app_def write_all_vec vec_writer_def)
  then obtain ap' where r: "run sample_app_env [] sample_app = (Some Usage, ap')" by blast
  from outcome_and_diagnostics [OF r] r \<open>parse [] = Inl MissingCommand\<close> show ?thesis
    by (auto simp: sample_app_def vec_writer_def)
qed

end
