(* ===== verification/Attach_Input.thy ===== *)
theory Attach_Input
  imports Attach_Stream
begin

text \<open>
  What the runner is sent.  The attachment turns what is typed into records; \<open>relaying\<close>
  accounts for every byte of standard input: sent, queued, in the channel, held by the input
  thread, or not yet read.
\<close>

section \<open>The invariant\<close>

fun event_bytes :: "input_event \<Rightarrow> byte list" where
  "event_bytes (Bytes bytes) = bytes"
| "event_bytes _ = []"

definition unsent :: "'attr attachment \<Rightarrow> byte list" where
  "unsent a = concat (map event_bytes (at_channel a)) @ (case at_held a of None \<Rightarrow> [] | Some event \<Rightarrow> event_bytes event) @
     plan_bytes (read_plan (at_stdin a))"

text \<open>An attachment asks to attach, and then sends input and resizes only.\<close>

fun asks :: "ipc_record list \<Rightarrow> bool" where
  "asks [] = True"
| "asks (first # others) \<longleftrightarrow> (\<exists>rows columns. first = Attach rows columns) \<and>
     (\<forall>r \<in> set others. (\<exists>bytes. r = Input bytes) \<or> (\<exists>rows columns. r = Resize rows columns))"

definition requests :: "ipc_record list \<Rightarrow> bool" where
  "requests records \<longleftrightarrow> (\<forall>r \<in> set records. valid_record r) \<and> asks records"

definition channel_ok :: "'attr attachment \<Rightarrow> bool" where
  "channel_ok a \<longleftrightarrow> length (at_channel a) \<le> INPUT_CHANNEL_CAPACITY \<and>
     (\<forall>bytes. Bytes bytes \<in> set (at_channel a) \<or> at_held a = Some (Bytes bytes) \<longrightarrow> length bytes \<le> IO_CHUNK_BYTES)"

definition queue_bounded :: "'attr attachment \<Rightarrow> bool" where
  "queue_bounded a \<longleftrightarrow> bq_wf (at_queue a) \<and> q_limit (at_queue a) = MAX_ATTACHMENT_QUEUE_BYTES"

definition relaying :: "byte list \<Rightarrow> byte list \<Rightarrow> 'attr attachment \<Rightarrow> bool" where
  "relaying base input a \<longleftrightarrow>
     (\<exists>records. records \<noteq> [] \<and> requests records \<and>
       sink (s_out (at_stream a)) @ bq_contents (at_queue a) = base @ frames records \<and>
       input = typed records @ unsent a) \<and>
     prefix base (sink (s_out (at_stream a))) \<and> queue_bounded a \<and> channel_ok a"

definition relayed :: "byte list \<Rightarrow> byte list \<Rightarrow> 'attr attachment \<Rightarrow> bool" where
  "relayed base input a \<longleftrightarrow>
     (\<exists>records. requests records \<and> prefix (sink (s_out (at_stream a))) (base @ frames records) \<and>
       prefix (typed records) input) \<and>
     prefix base (sink (s_out (at_stream a)))"

lemma relaying_relayed: "relaying base input a \<Longrightarrow> relayed base input a"
  unfolding relaying_def relayed_def by (metis prefix_def)

lemma relayed_cong: "s_out (at_stream a') = s_out (at_stream a) \<Longrightarrow> relayed base input a' = relayed base input a"
  by (simp add: relayed_def)

lemma relaying_cong:
  assumes "s_out (at_stream a') = s_out (at_stream a)" and "at_queue a' = at_queue a" and "at_channel a' = at_channel a"
    and "at_held a' = at_held a" and "at_stdin a' = at_stdin a"
  shows "relaying base input a' = relaying base input a"
  using assms by (simp add: relaying_def queue_bounded_def channel_ok_def unsent_def)

lemma relayed_left: "relaying base input a \<Longrightarrow> s_out (at_stream b) = s_out (at_stream a) \<Longrightarrow> relayed base input (left b)"
  using relaying_relayed relayed_cong [of "left b" a] by simp

lemma left_input [simp]:
  "at_channel (left a) = at_channel a" "at_held (left a) = at_held a" "at_stdin (left a) = at_stdin a"
  by (auto simp: left_def leave_def split: option.splits)

lemma requests_snoc:
  "requests records \<Longrightarrow> records \<noteq> [] \<Longrightarrow> valid_record r \<Longrightarrow>
   (\<exists>bytes. r = Input bytes) \<or> (\<exists>rows columns. r = Resize rows columns) \<Longrightarrow> requests (records @ [r])"
  by (cases records) (auto simp: requests_def)

section \<open>The input thread\<close>

lemma unsent_thread_step: "unsent (thread_step a) = unsent a"
proof (cases "at_held a")
  case (Some event)
  then show ?thesis by (simp add: thread_step_def unsent_def)
next
  case None
  obtain q rd where q: "read_once IO_CHUNK_BYTES (at_stdin a) = (q, rd)" by fastforce
  show ?thesis
  proof (cases q)
    case (Inl e)
    with None q read_once_plan(2) [of IO_CHUNK_BYTES "at_stdin a" e rd]
    show ?thesis by (simp add: thread_step_def unsent_def)
  next
    case (Inr bytes)
    with None q read_once_plan(1) [of IO_CHUNK_BYTES "at_stdin a" bytes rd]
    show ?thesis by (auto simp: thread_step_def unsent_def)
  qed
qed

lemma channel_ok_thread_step:
  assumes "channel_ok a"
  shows "channel_ok (thread_step a)"
proof (cases "at_held a")
  case (Some event)
  with assms show ?thesis by (auto simp: thread_step_def channel_ok_def)
next
  case None
  obtain q rd where q: "read_once IO_CHUNK_BYTES (at_stdin a) = (q, rd)" by fastforce
  with assms None read_once_length [of IO_CHUNK_BYTES "at_stdin a"] show ?thesis
    by (cases q) (auto simp: thread_step_def channel_ok_def)
qed

lemma thread_steps_keep:
  "unsent ((thread_step ^^ n) a) = unsent a" "channel_ok a \<Longrightarrow> channel_ok ((thread_step ^^ n) a)"
  by (induction n) (simp_all add: unsent_thread_step channel_ok_thread_step)

lemma relaying_meanwhile:
  assumes "relaying base input a"
  shows "relaying base input (meanwhile answer a)"
proof -
  let ?b = "a\<lparr>at_term := (at_term a)\<lparr>tm_size := an_size answer, tm_fails := an_fails answer\<rparr>,
    at_os := (at_os a)\<lparr>clock := an_clock answer\<rparr>\<rparr>"
  have "unsent ?b = unsent a" "channel_ok ?b = channel_ok a" by (simp_all add: unsent_def channel_ok_def)
  then have "unsent (meanwhile answer a) = unsent a" "channel_ok (meanwhile answer a)"
    using assms by (simp_all add: meanwhile_def thread_steps_keep relaying_def)
  with assms show ?thesis by (simp add: relaying_def queue_bounded_def)
qed

section \<open>The stages\<close>

text \<open>Queueing one more record.\<close>

lemma queue_bounded_record:
  assumes "queue_record r (at_queue a) = (res, q)" and "queue_bounded a"
  shows "queue_bounded (a\<lparr>at_queue := q\<rparr>)"
  using queue_record_result [OF assms(1)] assms(2) by (simp add: queue_bounded_def)

lemma relaying_record:
  assumes "relaying base input a" and "queue_record r (at_queue a) = (Inr u, q)" and "valid_record r"
    and "(\<exists>bytes. r = Input bytes) \<or> (\<exists>rows columns. r = Resize rows columns)"
    and "s_out (at_stream b) = s_out (at_stream a)" and "at_queue b = q" and "channel_ok b"
    and "unsent a = typed_of r @ unsent b"
  shows "relaying base input b"
proof -
  obtain records where rs: "records \<noteq> []" "requests records"
    "sink (s_out (at_stream a)) @ bq_contents (at_queue a) = base @ frames records" "input = typed records @ unsent a"
    using assms(1) by (auto simp: relaying_def)
  have q: "bq_contents q = bq_contents (at_queue a) @ record_frame r" "queue_bounded b"
    using queue_record_result [OF assms(2)] assms(1,6) by (simp_all add: relaying_def queue_bounded_def)
  have "sink (s_out (at_stream b)) @ bq_contents (at_queue b) = base @ frames (records @ [r])"
    using q rs(3) assms(5,6) by (simp add: append_assoc [symmetric] del: append_assoc)
  moreover have "input = typed (records @ [r]) @ unsent b" using rs(4) assms(8) by (simp add: typed_def)
  moreover have "requests (records @ [r])" by (rule requests_snoc [OF rs(2,1) assms(3,4)])
  ultimately show ?thesis using q assms unfolding relaying_def by (metis snoc_eq_iff_butlast)
qed

abbreviation relays :: "byte list \<Rightarrow> byte list \<Rightarrow> ('attr attachment \<Rightarrow> passage \<times> 'attr attachment) \<Rightarrow> bool" where
  "relays base input \<equiv> stage_ok (relaying base input) (\<lambda>_. relayed base input)"

lemma relaying_notes [simp]:
  "relaying base input (note_entry en a) = relaying base input a"
  "relaying base input (note_event ev a) = relaying base input a"
  by (rule relaying_cong; simp)+

lemma signal_stage_relays: "relays base input (signal_stage answer)"
  unfolding stage_ok_def
proof (intro allI impI)
  fix a :: "'attr attachment" and r a'
  assume I: "relaying base input a" and run: "signal_stage answer a = (r, a')"
  show "case r of Continue \<Rightarrow> relaying base input a' | Ends res \<Rightarrow> relayed base input a'"
  proof (cases "\<not> an_hangup answer \<and> \<not> an_terminate answer \<and> an_resize answer")
    case False
    with run I show ?thesis
      by (auto simp: signal_stage_def leave_eq intro!: relayed_left [OF I] split: if_splits)
  next
    case True
    obtain sz where sz: "window_size (at_term a) = (sz, at_term a)"
      using window_size_keeps by (metis prod.exhaust)
    show ?thesis
    proof (cases sz)
      case (Inl e)
      with run True sz I show ?thesis by (auto simp: signal_stage_def)
    next
      case (Inr dims)
      obtain rows columns where d: "dims = (rows, columns)" by fastforce
      have valid: "valid_record (Resize rows columns)" using window_size_valid sz Inr d by blast
      obtain res q where q: "queue_record (Resize rows columns) (at_queue a) = (res, q)" by fastforce
      show ?thesis
      proof (cases res)
        case (Inl e)
        with run True sz Inr d q show ?thesis
          by (auto simp: signal_stage_def leave_eq intro!: relayed_left [OF I])
      next
        case queued: (Inr u)
        have "relaying base input (a\<lparr>at_queue := q\<rparr>)"
          by (rule relaying_record [OF I q [unfolded queued] valid])
            (use I in \<open>simp_all add: relaying_def channel_ok_def unsent_def\<close>)
        with run True sz Inr d q queued show ?thesis by (auto simp: signal_stage_def)
      qed
    qed
  qed
qed

lemma relaying_closed:
  "relaying base input a \<Longrightarrow> relaying base input (a\<lparr>at_stdin_closed := b\<rparr>)"
  using relaying_cong [of "a\<lparr>at_stdin_closed := b\<rparr>" a] by simp

lemma receive_input_relays:
  assumes "relaying base input a" and "receive_input a = (res, b)"
  shows "(case res of Inl e \<Rightarrow> s_out (at_stream b) = s_out (at_stream a) | Inr closed \<Rightarrow> relaying base input b)"
proof (cases "at_channel a")
  case Nil
  with assms show ?thesis by (auto simp: receive_input_def)
next
  case (Cons event channel)
  have channel: "channel_ok (a\<lparr>at_channel := channel\<rparr>)"
    using assms(1) Cons by (auto simp: relaying_def channel_ok_def)
  show ?thesis
  proof (cases event)
    case (Bytes bytes)
    obtain q res' where q: "queue_record (Input bytes) (at_queue a) = (res', q)" by fastforce
    show ?thesis
    proof (cases res')
      case (Inl e)
      with assms(2) Cons Bytes q show ?thesis by (auto simp: receive_input_def)
    next
      case (Inr u)
      have "length bytes \<le> IO_CHUNK_BYTES"
        using assms(1) Cons Bytes unfolding relaying_def channel_ok_def by (metis list.set_intros(1))
      then have valid: "valid_record (Input bytes)" by (simp add: limits)
      have "relaying base input (a\<lparr>at_channel := channel, at_queue := q\<rparr>)"
        by (rule relaying_record [OF assms(1) q [unfolded Inr] valid])
          (use channel Cons Bytes in \<open>simp_all add: unsent_def channel_ok_def\<close>)
      with assms(2) Cons Bytes q Inr show ?thesis by (auto simp: receive_input_def)
    qed
  next
    case Closed
    have "unsent (a\<lparr>at_channel := channel\<rparr>) = unsent a" using Cons Closed by (simp add: unsent_def)
    then have "relaying base input (a\<lparr>at_channel := channel\<rparr>)"
      using assms(1) channel by (simp add: relaying_def queue_bounded_def)
    with assms(2) Cons Closed show ?thesis by (auto simp: receive_input_def)
  next
    case (Failed e)
    with assms(2) Cons show ?thesis by (auto simp: receive_input_def)
  qed
qed

lemma input_stage_relays: "relays base input input_stage"
  unfolding stage_ok_def
proof (intro allI impI)
  fix a :: "'attr attachment" and r a'
  assume I: "relaying base input a" and run: "input_stage a = (r, a')"
  obtain res b where res: "receive_input a = (res, b)" by fastforce
  note b = receive_input_relays [OF I res]
  show "case r of Continue \<Rightarrow> relaying base input a' | Ends res \<Rightarrow> relayed base input a'"
  proof (cases "at_stdin_closed a")
    case True
    with run I show ?thesis by (auto simp: input_stage_def)
  next
    case False
    with run res b show ?thesis
      by (cases res) (auto simp: input_stage_def leave_eq intro!: relayed_left [OF I] relaying_closed)
  qed
qed

lemma write_stage_relays: "relays base input (write_stage event)"
  unfolding stage_ok_def
proof (intro allI impI)
  fix a :: "'attr attachment" and r a'
  assume I: "relaying base input a" and run: "write_stage event a = (r, a')"
  obtain res q w where f: "bq_flush (at_queue a, s_out (at_stream a)) = (res, (q, w))" by (metis prod.exhaust)
  let ?a = "a\<lparr>at_queue := q, at_stream := (at_stream a)\<lparr>s_out := w\<rparr>\<rparr>"
  have "sink w @ bq_contents q = sink (s_out (at_stream a)) @ bq_contents (at_queue a)"
    by (rule bq_flush_conserves [OF f])
  moreover have "prefix (sink (s_out (at_stream a))) (sink w)" "q_limit q = q_limit (at_queue a)"
    using bq_flush_moves [OF f] by auto
  moreover have "bq_wf q" using bq_flush_wf [OF f] I by (simp add: relaying_def queue_bounded_def)
  ultimately have moved: "relaying base input ?a"
    using I unfolding relaying_def queue_bounded_def channel_ok_def unsent_def by (auto intro: prefix_order.trans)
  show "case r of Continue \<Rightarrow> relaying base input a' | Ends res \<Rightarrow> relayed base input a'"
  proof (cases "pf_out event \<and> \<not> bq_is_empty (at_queue a)")
    case False
    with run I show ?thesis by (auto simp: write_stage_def)
  next
    case True
    have "(r, a') = (case res of Inr _ \<Rightarrow> (Continue, ?a)
        | Inl e \<Rightarrow> if attachment_closed e
            then leave (Inr (Code 0)) (note_io_error ''runner_socket_closed_during_write'' e ?a)
            else leave (Inl e) (note_io_error ''runner_socket_write_failed'' e ?a))"
      using run [symmetric] True f by (simp add: write_stage_def Let_def)
    then show ?thesis
      using moved by (cases res) (auto simp: leave_eq intro!: relayed_left [OF moved] split: if_splits)
  qed
qed

lemma closed_stage_relays: "relays base input closed_stage"
  unfolding stage_ok_def closed_stage_def by (auto simp: leave_eq intro: relayed_left split: if_splits)

text \<open>Showing output does not touch what is sent.\<close>

lemma show_records_fields:
  "show_records records wrote a = (r, a') \<Longrightarrow>
   s_out (at_stream a') = s_out (at_stream a) \<and> at_queue a' = at_queue a \<and> at_channel a' = at_channel a \<and>
   at_held a' = at_held a \<and> at_stdin a' = at_stdin a"
proof (induction records wrote a arbitrary: a' r rule: show_records.induct)
  case (1 wrote a)
  then show ?case
    by (auto simp: leave_eq dest: flush_stdout_fields split: if_splits prod.splits sum.splits)
next
  case (2 bytes records wrote a)
  show ?case
  proof (cases "write_all bytes (at_stdout a)")
    case (Pair q w)
    show ?thesis
    proof (cases q)
      case (Inl e)
      with 2 Pair show ?thesis by (auto simp: leave_eq)
    next
      case (Inr u)
      then have "show_records records True (a\<lparr>at_stdout := w\<rparr>) = (r, a')" using "2.prems" Pair by simp
      from "2.IH" [OF Pair [symmetric] Inr this] show ?thesis by simp
    qed
  qed
next
  case (3 st records wrote a)
  then show ?case
    by (auto simp: leave_eq dest!: flush_stdout_fields split: prod.splits sum.splits)
qed (auto simp: leave_eq)

lemma receive_stage_relays: "relays base input receive_stage"
  unfolding stage_ok_def
proof (intro allI impI)
  fix a :: "'attr attachment" and r a'
  assume I: "relaying base input a" and run: "receive_stage a = (r, a')"
  obtain res b where res: "receive_records a = (res, b)" by fastforce
  note b = receive_records_fields [OF res]
  have Ib: "relaying base input b" using I relaying_cong [of b a] b by simp
  consider e where "res = Inl e" | "res = Inr None" | records where "res = Inr (Some records)"
    by (cases res) auto
  then show "case r of Continue \<Rightarrow> relaying base input a' | Ends x \<Rightarrow> relayed base input a'"
  proof cases
    case (3 records)
    then have "show_records records False b = (r, a')" using run res by (simp add: receive_stage_def)
    from show_records_fields [OF this] have "relaying base input a'"
      using Ib relaying_cong [of a' b] by simp
    then show ?thesis by (simp add: relaying_relayed split: passage.splits)
  qed (use run res in \<open>auto simp: receive_stage_def leave_eq intro!: relayed_left [OF Ib]\<close>)
qed

interpretation input: attachment_stages "relaying base typed_bytes" "\<lambda>_. relayed base typed_bytes"
  for base typed_bytes
  by unfold_locales
    (auto intro: relaying_meanwhile signal_stage_relays input_stage_relays write_stage_relays closed_stage_relays
      receive_stage_relays relayed_left)

section \<open>The whole attachment\<close>

lemma unsent_fresh:
  "fresh_attachment a \<Longrightarrow> unsent a = plan_bytes (read_plan (at_stdin a))" "fresh_attachment a \<Longrightarrow> channel_ok a"
  by (simp_all add: fresh_attachment_def unsent_def channel_ok_def)

lemma attach_begin_relays:
  assumes "attach_begin env a = (r, a')" and "fresh_attachment a"
  shows "(case r of
      Continue \<Rightarrow> relaying (sink (s_out (at_stream a))) (plan_bytes (read_plan (at_stdin a))) a'
    | Ends res \<Rightarrow> relayed (sink (s_out (at_stream a))) (plan_bytes (read_plan (at_stdin a))) a')"
  using assms(1)
proof (cases rule: attach_begin_cases)
  case (begun rw t u q dims)
  let ?r = "Attach (fst dims) (snd dims)"
  have valid: "valid_record ?r"
  proof (cases "dims = (24, 80)")
    case False
    then have "window_size (at_term a) = (Inr (fst dims, snd dims), at_term a)" using begun(4) by simp
    then have "valid_record (Resize (fst dims) (snd dims))" by (rule window_size_valid)
    then show ?thesis by simp
  qed (simp add: valid_dimension_def limits)
  have new: "bq_wf (bq_new MAX_ATTACHMENT_QUEUE_BYTES)" "bq_contents (bq_new MAX_ATTACHMENT_QUEUE_BYTES) = []"
    "q_limit (bq_new MAX_ATTACHMENT_QUEUE_BYTES) = MAX_ATTACHMENT_QUEUE_BYTES"
    by (simp_all add: bq_wf_def bq_new_def bq_contents_def)
  have q: "bq_wf q" "q_limit q = MAX_ATTACHMENT_QUEUE_BYTES" "bq_contents q = record_frame ?r"
    using queue_record_result [OF begun(3) new(1)] new by simp_all
  have same: "at_channel a' = at_channel a" "at_held a' = at_held a" "at_stdin a' = at_stdin a"
    "at_stream a' = at_stream a" "at_queue a' = q"
    using begun(5) by simp_all
  then have "unsent a' = unsent a" "channel_ok a' = channel_ok a" by (simp_all add: unsent_def channel_ok_def)
  moreover have "requests [?r]" using valid by (simp add: requests_def)
  ultimately have "relaying (sink (s_out (at_stream a))) (plan_bytes (read_plan (at_stdin a))) a'"
    unfolding relaying_def queue_bounded_def using q same unsent_fresh [OF assms(2)]
    by (intro conjI exI [of _ "[?r]"]) (simp_all add: typed_def)
  with begun(1) show ?thesis by simp
qed (auto simp: relayed_def requests_def typed_def intro!: exI [of _ "[]"])

lemma request_frames:
  assumes "prefix out (base @ frames records)" and "prefix base out" and "requests records"
  shows "\<exists>received sent rest d. out = base @ received \<and> records = sent @ rest \<and>
    decode_all \<lparr>buffer = received\<rparr> = (Inr sent, d)"
proof -
  obtain received where r: "out = base @ received" using assms(2) by (auto simp: prefix_def)
  then obtain cut where "frames records = received @ cut" using assms(1) by (auto simp: prefix_def)
  moreover have "\<forall>r \<in> set records. valid_record r" using assms(3) by (simp add: requests_def)
  ultimately obtain sent rest p where "records = sent @ rest" "ipc_drain received = (Inr sent, p)"
    using ipc.drain_prefix [of records received cut] by (auto simp: frames_def)
  with r show ?thesis by (auto simp: decode_all_ipc_drain)
qed

text \<open>What an attachment has sent, as the decoder of the runner takes it.\<close>

lemma attachment_records:
  assumes "fresh_attachment a0" and "attach_live env answers a0 = (r, a)"
  shows "\<exists>received sent rest d. sink (s_out (at_stream a)) = sink (s_out (at_stream a0)) @ received \<and>
    decode_all \<lparr>buffer = received\<rparr> = (Inr sent, d) \<and> requests (sent @ rest) \<and>
    prefix (typed (sent @ rest)) (plan_bytes (read_plan (at_stdin a0))) \<and>
    (r = Continue \<longrightarrow>
       received @ bq_contents (at_queue a) = frames (sent @ rest) \<and>
       plan_bytes (read_plan (at_stdin a0)) = typed (sent @ rest) @ unsent a \<and>
       queue_bounded a \<and> channel_ok a)"
proof -
  let ?base = "sink (s_out (at_stream a0))" and ?input = "plan_bytes (read_plan (at_stdin a0))"
  have "(case r of Continue \<Rightarrow> relaying ?base ?input a | Ends res \<Rightarrow> relayed ?base ?input a)"
    by (rule input.live [OF assms(2)]) (rule attach_begin_relays [OF _ assms(1)])
  then consider "r = Continue" "relaying ?base ?input a" | "r \<noteq> Continue" "relayed ?base ?input a"
    by (cases r) auto
  then show ?thesis
  proof cases
    case 1
    then obtain records where rs: "requests records" "?input = typed records @ unsent a"
      "sink (s_out (at_stream a)) @ bq_contents (at_queue a) = ?base @ frames records"
      "prefix ?base (sink (s_out (at_stream a)))" "queue_bounded a" "channel_ok a"
      by (auto simp: relaying_def)
    have "prefix (sink (s_out (at_stream a))) (?base @ frames records)" using rs(3) by (metis prefixI)
    from request_frames [OF this rs(4,1)] obtain received sent rest d where
      d: "sink (s_out (at_stream a)) = ?base @ received" "records = sent @ rest"
        "decode_all \<lparr>buffer = received\<rparr> = (Inr sent, d)" by blast
    moreover have "received @ bq_contents (at_queue a) = frames records" using rs(3) d(1) by simp
    ultimately show ?thesis
      using rs(1,2,5,6) by (intro exI [of _ received] exI [of _ sent] exI [of _ rest] exI [of _ d]) simp
  next
    case 2
    then obtain records where rs: "requests records" "prefix (typed records) ?input"
      "prefix (sink (s_out (at_stream a))) (?base @ frames records)" "prefix ?base (sink (s_out (at_stream a)))"
      by (auto simp: relayed_def)
    from request_frames [OF rs(3,4,1)] rs(1,2) 2(1) show ?thesis by blast
  qed
qed

text \<open>
  C12: What an attachment sends is understood by the runner's decoder as one request to
  attach followed by input and resizes only, and the input among it is a prefix of what was
  typed, in order, with nothing lost, doubled or invented.  While the loop runs, the
  bytes sent, queued, waiting in the channel and unread are together exactly what was
  typed, the queue is at most 1 MiB, and the channel holds at most 64 pieces of 16 KiB.
\<close>

theorem attachment_relays_the_input:
  assumes "fresh_attachment a0" and "attach_live env answers a0 = (r, a)"
  shows "\<exists>received sent rest d. sink (s_out (at_stream a)) = sink (s_out (at_stream a0)) @ received \<and>
    decode_all \<lparr>buffer = received\<rparr> = (Inr sent, d) \<and> requests (sent @ rest) \<and>
    prefix (typed (sent @ rest)) (plan_bytes (read_plan (at_stdin a0))) \<and>
    (r = Continue \<longrightarrow>
       received @ bq_contents (at_queue a) = frames (sent @ rest) \<and>
       plan_bytes (read_plan (at_stdin a0)) = typed (sent @ rest) @ unsent a \<and>
       length (bq_contents (at_queue a)) \<le> 1048576 \<and> length (at_channel a) \<le> 64 \<and>
       (\<forall>bytes. Bytes bytes \<in> set (at_channel a) \<longrightarrow> length bytes \<le> 16384))"
proof -
  have bounds: "length (bq_contents (at_queue a)) \<le> 1048576" "length (at_channel a) \<le> 64"
    "\<forall>bytes. Bytes bytes \<in> set (at_channel a) \<longrightarrow> length bytes \<le> 16384" if "queue_bounded a" "channel_ok a"
    using that by (auto simp: queue_bounded_def channel_ok_def bq_wf_def INPUT_CHANNEL_CAPACITY_def limits)
  from attachment_records [OF assms] bounds show ?thesis by blast
qed

text \<open>One tick that sends the request to attach.\<close>

definition answer_writable :: attach_answer where
  "answer_writable = answer_readable\<lparr>an_thread := 2, an_poll := Inr (no_flags\<lparr>pf_out := True\<rparr>)\<rparr>"

lemma sample_sent:
  "\<exists>a. attach_live sample_live_env [answer_writable] sample_attachment = (Continue, a) \<and>
    bq_contents (at_queue a) = [] \<and> unsent a = []"
proof -
  let ?a = "meanwhile answer_writable sample_begun"
  have two: "(thread_step ^^ 2) a = thread_step (thread_step a)" for a :: "nat attachment"
    by (simp add: numeral_eq_Suc)
  have reader: "at_channel ?a = [Bytes [108, 115, 10]]" "at_held ?a = None" "read_plan (at_stdin ?a) = []"
    by (simp_all add: meanwhile_def answer_writable_def two thread_step_def sample_begun_def sample_attachment_def
        read_once_def limits INPUT_CHANNEL_CAPACITY_def)
  have same: "at_stream ?a = at_stream sample_attachment" "at_queue ?a = sample_queue" "\<not> at_stdin_closed ?a"
    by (simp_all add: sample_begun_def sample_attachment_def)
  have wf: "bq_wf sample_queue" "q_limit sample_queue = MAX_ATTACHMENT_QUEUE_BYTES" "length (bq_contents sample_queue) \<le> 9"
    by (simp_all add: sample_queue_def bq_wf_def bq_contents_push bq_new_def length_record_frame u16_to_be_bytes_def
        limits bq_contents_def dq_extend_def dq_new_def dq_contents_def)
  have q: "\<exists>q. queue_record (Input [108, 115, 10]) sample_queue = (Inr (), q)"
    using wf by (simp add: queue_record_def encode_frame bq_push_eq length_record_frame limits)
  then obtain q where q: "queue_record (Input [108, 115, 10]) sample_queue = (Inr (), q)" by blast
  let ?b = "?a\<lparr>at_channel := [], at_queue := q, at_stdin_closed := False\<rparr>"
  have input: "input_stage ?a = (Continue, ?b)"
  proof -
    have "receive_input ?a = (Inr False, ?a\<lparr>at_channel := [], at_queue := q\<rparr>)"
      unfolding receive_input_def reader same(2) by (simp add: q)
    then show ?thesis using same(3) by (simp add: input_stage_def)
  qed
  have w: "write_plan (s_out (at_stream sample_attachment)) = []" by (simp add: sample_attachment_def vec_writer_def)
  obtain q' w' where f: "bq_flush (q, s_out (at_stream sample_attachment)) = (Inr (), (q', w'))" "bq_contents q' = []"
    using bq_flush_vec [OF w] by blast
  let ?c = "?b\<lparr>at_queue := q', at_stream := (at_stream ?b)\<lparr>s_out := w'\<rparr>\<rparr>"
  have "bq_contents q \<noteq> []"
    using queue_record_result [OF q wf(1)] length_record_frame [of "Input [108, 115, 10]"] by (auto simp: limits)
  then have "write_stage (no_flags\<lparr>pf_out := True\<rparr>) ?b = (Continue, ?c)"
    using f same by (simp add: write_stage_def)
  moreover have "closed_stage ?c = (Continue, ?c)" by (simp add: closed_stage_def)
  moreover have "read_stage (no_flags\<lparr>pf_out := True\<rparr>) ?c = (Continue, ?c)"
    by (simp add: read_stage_def readable_def no_flags_def)
  moreover have "signal_stage answer_writable ?a = (Continue, ?a)"
    by (simp add: signal_stage_def answer_writable_def answer_readable_def)
  moreover have "an_poll answer_writable = Inr (no_flags\<lparr>pf_out := True\<rparr>)" by (simp add: answer_writable_def)
  ultimately have "attach_tick answer_writable sample_begun = (Continue, ?c)"
    using input by (simp add: attach_tick_def and_then_def)
  then have "attach_live sample_live_env [answer_writable] sample_attachment = (Continue, ?c)"
    using sample_begin by (simp add: attach_live_def and_then_def)
  moreover have "unsent ?c = []" using reader by (simp add: unsent_def)
  ultimately show ?thesis using f(2) by (intro exI [of _ ?c]) simp
qed

lemma attachment_relays_the_input_witness:
  "\<exists>a sent d. attach_live sample_live_env [answer_writable] sample_attachment = (Continue, a) \<and>
    decode_all \<lparr>buffer = sink (s_out (at_stream a))\<rparr> = (Inr sent, d) \<and> typed sent = [108, 115, 10]"
proof -
  obtain a where a: "attach_live sample_live_env [answer_writable] sample_attachment = (Continue, a)"
    "bq_contents (at_queue a) = []" "unsent a = []" using sample_sent by blast
  from attachment_relays_the_input [OF sample_attachment_fresh a(1)]
  obtain received sent rest d where r: "sink (s_out (at_stream a)) = received"
    "decode_all \<lparr>buffer = received\<rparr> = (Inr sent, d)" "received = frames (sent @ rest)"
    "requests (sent @ rest)" "typed (sent @ rest) = [108, 115, 10]"
    using a by (auto simp: sample_attachment_def vec_writer_def)
  have "decode_all \<lparr>buffer = received\<rparr> = (Inr (sent @ rest), \<lparr>buffer = []\<rparr>)"
    using ipc.drain_frames [of "sent @ rest" "[]"] ipc.next_nil r(3,4)
    by (simp add: decode_all_ipc_drain frames_def requests_def)
  with r have "rest = []" by simp
  with r a(1) show ?thesis by auto
qed

end
