(* ===== verification/Session_Stream.thy ===== *)
theory Session_Stream
  imports Attach_Input Runner_End
begin

text \<open>
  A runner and the attachment at the other end of its connection: what the pseudo-terminal
  delivers to the one is what the other writes to its standard output.
\<close>

section \<open>What a connection carries\<close>

lemma output_frames_records: "output_frames pieces @ record_frame (Exit exit) = frames (session_records pieces exit)"
  by (simp add: output_frames_def frames_def session_records_def comp_def)

lemma follows_records:
  assumes "follows history c" and "c' = c \<or> c' = farewell exit c"
  obtains seen later pieces where "history = seen @ later" "concat pieces = replay seen @ later"
    "\<forall>p \<in> set pieces. length p \<le> MAX_IPC_PAYLOAD_BYTES"
    "prefix (sink (s_out (c_stream c'))) (frames (session_records pieces exit))"
proof -
  obtain seen later pieces where p: "history = seen @ later" "concat pieces = replay seen @ later"
    "queued c = output_frames pieces" "\<forall>p \<in> set pieces. length p \<le> MAX_IPC_PAYLOAD_BYTES"
    using assms(1) by (auto simp: follows_def carries_def)
  have "prefix (sink (s_out (c_stream c))) (output_frames pieces @ record_frame (Exit exit))"
    using p(3) by (metis append_assoc prefixI queued_def)
  moreover have "prefix (sink (s_out (c_stream (farewell exit c)))) (output_frames pieces @ record_frame (Exit exit))"
    using farewell_sends [of c exit] assms(1) p(3) by (simp add: follows_def)
  ultimately show thesis
    using that p assms(2) by (auto simp: output_frames_records)
qed

section \<open>Properties\<close>


lemma sample_stream_attachment:
  "fresh_attachment (sample_attachment\<lparr>at_stream := \<lparr>s_in = rd, s_out = vec_writer\<rparr>\<rparr>)"
  using sample_attachment_fresh by (simp add: fresh_attachment_def)


end
