(* ===== verification/Session_Spec.thy ===== *)
theory Session_Spec
  imports Runner_Facts
begin

text \<open>
  What a session is, without queues, ticks, sockets or errors: the output of its process so
  far, what the attached client has been sent, the input given to the process, and how the
  process ended.  A client that attaches is sent the replay first and everything that is
  produced from then on, until it is detached.
\<close>

section \<open>The machine\<close>

record session =
  sn_history :: "byte list"
  sn_view :: "byte list option"
  sn_input :: "byte list"
  sn_over :: "process_exit option"

datatype session_event =
    Produced "byte list"
  | Attached
  | Detached
  | Entered "byte list"
  | Finished process_exit

inductive session_step :: "session \<Rightarrow> session_event \<Rightarrow> session \<Rightarrow> bool" where
  produced: "sn_over s = None \<Longrightarrow> session_step s (Produced bytes)
    (s\<lparr>sn_history := sn_history s @ bytes, sn_view := map_option (\<lambda>v. v @ bytes) (sn_view s)\<rparr>)"
| attached: "sn_over s = None \<Longrightarrow> sn_view s = None \<Longrightarrow>
    session_step s Attached (s\<lparr>sn_view := Some (replay (sn_history s))\<rparr>)"
| detached: "sn_over s = None \<Longrightarrow> sn_view s \<noteq> None \<Longrightarrow> session_step s Detached (s\<lparr>sn_view := None\<rparr>)"
| entered: "sn_over s = None \<Longrightarrow> session_step s (Entered bytes) (s\<lparr>sn_input := sn_input s @ bytes\<rparr>)"
| finished: "sn_over s = None \<Longrightarrow> session_step s (Finished exit) (s\<lparr>sn_over := Some exit\<rparr>)"

inductive_cases session_stepE: "session_step s e s'"

inductive session_run :: "session \<Rightarrow> session_event list \<Rightarrow> session \<Rightarrow> bool" where
  none: "session_run s [] s"
| more: "session_step s e s1 \<Longrightarrow> session_run s1 es s2 \<Longrightarrow> session_run s (e # es) s2"

inductive_simps session_run_Nil [simp]: "session_run s [] s'"
inductive_simps session_run_Cons: "session_run s (e # es) s'"

definition session_start :: "byte list \<Rightarrow> session" where
  "session_start input = \<lparr>sn_history = [], sn_view = None, sn_input = input, sn_over = None\<rparr>"

fun output_of :: "session_event \<Rightarrow> byte list" where
  "output_of (Produced bytes) = bytes"
| "output_of _ = []"

fun input_of :: "session_event \<Rightarrow> byte list" where
  "input_of (Entered bytes) = bytes"
| "input_of _ = []"

definition produced_by :: "session_event list \<Rightarrow> byte list" where
  "produced_by es = concat (map output_of es)"

definition entered_by :: "session_event list \<Rightarrow> byte list" where
  "entered_by es = concat (map input_of es)"

lemma produced_by_simps [simp]:
  "produced_by [] = []" "produced_by (e # es) = output_of e @ produced_by es"
  "produced_by (es @ fs) = produced_by es @ produced_by fs"
  by (simp_all add: produced_by_def)

lemma entered_by_simps [simp]:
  "entered_by [] = []" "entered_by (e # es) = input_of e @ entered_by es"
  "entered_by (es @ fs) = entered_by es @ entered_by fs"
  by (simp_all add: entered_by_def)

lemma session_run_one: "session_step s e s' \<Longrightarrow> session_run s [e] s'"
  by (simp add: session_run_Cons)

lemma session_run_append:
  "session_run s es s1 \<Longrightarrow> session_run s1 fs s2 \<Longrightarrow> session_run s (es @ fs) s2"
  by (induction rule: session_run.induct) (simp_all add: session_run.more)

section \<open>What its events determine\<close>

lemma session_run_totals:
  "session_run s es s' \<Longrightarrow>
   sn_history s' = sn_history s @ produced_by es \<and> sn_input s' = sn_input s @ entered_by es"
proof (induction rule: session_run.induct)
  case (more s e s1 es s2)
  from more(1) have "sn_history s1 = sn_history s @ output_of e \<and> sn_input s1 = sn_input s @ input_of e"
    by (cases rule: session_step.cases) simp_all
  with more.IH show ?case by simp
qed simp

text \<open>After a session is over nothing happens.\<close>

lemma session_run_over: "session_run s es s' \<Longrightarrow> sn_over s \<noteq> None \<Longrightarrow> es = [] \<and> s' = s"
  by (induction rule: session_run.induct) (auto elim: session_stepE)

lemma session_run_over_last:
  "session_run s es s' \<Longrightarrow> sn_over s = None \<Longrightarrow> sn_over s' = Some exit \<Longrightarrow>
   \<exists>before. es = before @ [Finished exit]"
proof (induction rule: session_run.induct)
  case (more s e s1 es s2)
  show ?case
  proof (cases "sn_over s1")
    case None
    with more show ?thesis by (metis append_Cons)
  next
    case (Some x)
    with more.hyps(1) more.prems(1) have "e = Finished x" by (auto elim: session_stepE)
    moreover have "es = [] \<and> s2 = s1" using session_run_over [OF more.hyps(2)] Some by simp
    ultimately show ?thesis using more.prems(2) Some by simp
  qed
qed simp

text \<open>Everything the attached client is sent follows from when it attached.\<close>

definition attached_for :: "session_event list \<Rightarrow> bool" where
  "attached_for es \<longleftrightarrow> Attached \<notin> set es \<and> Detached \<notin> set es"

definition view_of :: "byte list \<Rightarrow> byte list option \<Rightarrow> session_event list \<Rightarrow> byte list option \<Rightarrow> bool" where
  "view_of history view es view' \<longleftrightarrow>
     (\<forall>v. view' = Some v \<longrightarrow>
        (\<exists>u. view = Some u \<and> attached_for es \<and> v = u @ produced_by es) \<or>
        (\<exists>before after. es = before @ Attached # after \<and> attached_for after \<and>
           v = replay (history @ produced_by before) @ produced_by after))"

lemma session_run_view:
  "session_run s es s' \<Longrightarrow> view_of (sn_history s) (sn_view s) es (sn_view s')"
proof (induction rule: session_run.induct)
  case (none s)
  then show ?case by (simp add: view_of_def attached_for_def)
next
  case (more s e s1 es s2)
  have later: "view_of (sn_history s) (sn_view s) (e # es) (sn_view s2)"
    if "\<exists>before after. es = before @ Attached # after \<and> attached_for after \<and>
      sn_view s2 = Some (replay (sn_history s @ output_of e @ produced_by before) @ produced_by after)"
    using that unfolding view_of_def
    by (elim exE conjE) (intro allI impI disjI2, rule exI [of _ "e # _"], auto)
  have h: "sn_history s1 = sn_history s @ output_of e"
    using session_run_totals [OF session_run_one [OF more.hyps(1)]] by simp
  show ?case
  proof (cases "sn_view s2")
    case None
    then show ?thesis by (simp add: view_of_def)
  next
    case (Some v)
    with more.IH consider u where "sn_view s1 = Some u" "attached_for es" "v = u @ produced_by es"
      | before after where "es = before @ Attached # after" "attached_for after"
        "v = replay (sn_history s1 @ produced_by before) @ produced_by after"
      unfolding view_of_def by blast
    then show ?thesis
    proof cases
      case 1
      from more.hyps(1) show ?thesis
      proof (cases rule: session_step.cases)
        case (attached)
        with 1 Some show ?thesis
          unfolding view_of_def by (intro allI impI disjI2 exI [of _ "[]"] exI [of _ es]) simp
      qed (use 1 Some in \<open>auto simp: view_of_def attached_for_def\<close>)
    next
      case 2
      with Some h show ?thesis by (intro later exI [of _ before] exI [of _ after]) simp
    qed
  qed
qed

end
