(* ===== verification/Simulation.thy ===== *)
theory Simulation
  imports Main
begin

text \<open>
  The contract of a refinement: every step of a machine is matched by a run of a more abstract
  one, which says by its events what the step did; then so is every sequence of steps.
\<close>

text \<open>
  \<open>run a es a'\<close>: the abstract machine goes from \<open>a\<close> to \<open>a'\<close> by the events \<open>es\<close>.
  \<open>emits c es c'\<close>: what of the events can be seen of the detailed machine.
\<close>

definition matched ::
    "('a \<Rightarrow> 'e list \<Rightarrow> 'a \<Rightarrow> bool) \<Rightarrow> ('a \<Rightarrow> 'c \<Rightarrow> bool) \<Rightarrow> ('c \<Rightarrow> 'e list \<Rightarrow> 'c \<Rightarrow> bool) \<Rightarrow> 'c \<Rightarrow> 'c \<Rightarrow> bool" where
  "matched run sim emits c c' \<longleftrightarrow>
     (\<forall>a. sim a c \<longrightarrow> (\<exists>es a'. run a es a' \<and> sim a' c' \<and> emits c es c'))"

lemma matchedI:
  "(\<And>a. sim a c \<Longrightarrow> \<exists>es a'. run a es a' \<and> sim a' c' \<and> emits c es c') \<Longrightarrow> matched run sim emits c c'"
  by (simp add: matched_def)

lemma matchedE:
  assumes "matched run sim emits c c'" and "sim a c"
  obtains es a' where "run a es a'" "sim a' c'" "emits c es c'"
  using assms unfolding matched_def by blast

locale event_runs =
  fixes run :: "'a \<Rightarrow> 'e list \<Rightarrow> 'a \<Rightarrow> bool"
    and emits :: "'c \<Rightarrow> 'e list \<Rightarrow> 'c \<Rightarrow> bool"
  assumes run_none: "run a [] a"
    and run_append: "run a es b \<Longrightarrow> run b fs d \<Longrightarrow> run a (es @ fs) d"
    and emits_none: "emits c [] c"
    and emits_append: "emits c es c1 \<Longrightarrow> emits c1 fs c2 \<Longrightarrow> emits c (es @ fs) c2"
begin

lemma matched_refl: "matched run sim emits c c"
  unfolding matched_def using run_none emits_none by blast

lemma matched_trans:
  assumes "matched run sim emits c c1" and "matched run sim emits c1 c2"
  shows "matched run sim emits c c2"
  unfolding matched_def
proof (intro allI impI)
  fix a assume "sim a c"
  with assms(1) obtain es b where 1: "run a es b" "sim b c1" "emits c es c1" by (rule matchedE)
  from assms(2) 1(2) obtain fs d where 2: "run b fs d" "sim d c2" "emits c1 fs c2" by (rule matchedE)
  show "\<exists>es a'. run a es a' \<and> sim a' c2 \<and> emits c es c2"
    using run_append [OF 1(1) 2(1)] emits_append [OF 1(3) 2(3)] 2(2) by blast
qed

end

locale simulation = event_runs run emits
  for run :: "'a \<Rightarrow> 'e list \<Rightarrow> 'a \<Rightarrow> bool" and emits :: "'c \<Rightarrow> 'e list \<Rightarrow> 'c \<Rightarrow> bool" +
  fixes sim :: "'a \<Rightarrow> 'c \<Rightarrow> bool" and step :: "'c \<Rightarrow> 'c \<Rightarrow> bool"
  assumes step_matched: "step c c' \<Longrightarrow> matched run sim emits c c'"
begin

lemma reachable_matched: "step\<^sup>*\<^sup>* c c' \<Longrightarrow> matched run sim emits c c'"
  by (induction rule: rtranclp_induct) (blast intro: matched_refl matched_trans step_matched)+

end

end
