(* ===== verification/Session_Refinement.thy ===== *)
theory Session_Refinement
  imports Session_Spec Simulation Runner_Stream
begin

text \<open>
  The event loop of src/runner.rs refines the session of \<open>Session_Spec\<close>: every tick, with its
  queues, short writes, interruptions, replaced and rejected connections, does what some
  events of the session do.
\<close>

section \<open>The relation\<close>

definition view_matches :: "byte list option \<Rightarrow> connection option \<Rightarrow> bool" where
  "view_matches view active =
     (case active of None \<Rightarrow> view = None | Some c \<Rightarrow> (\<exists>v. view = Some v \<and> carries v c))"

text \<open>While the session runs, the two agree on the output, the client's view and the input.\<close>

definition serves :: "session \<Rightarrow> runner \<Rightarrow> bool" where
  "serves s r \<longleftrightarrow>
     sn_over s = None \<and> data_view (sn_history s) r \<and> view_matches (sn_view s) (rn_active r) \<and>
     sn_input s = input_given r"

text \<open>The events that happen are seen of the runner by the output it has taken.\<close>

definition takes :: "runner \<Rightarrow> session_event list \<Rightarrow> runner \<Rightarrow> bool" where
  "takes r es r' \<longleftrightarrow> pending r = produced_by es @ pending r'"

abbreviation follows_session :: "runner \<Rightarrow> runner \<Rightarrow> bool" where
  "follows_session \<equiv> matched session_run serves takes"

interpretation session_events: event_runs session_run takes
  by unfold_locales (auto intro: session_run.none session_run_append simp: takes_def)

lemma follows_session_silent:
  assumes "\<And>s. serves s r \<Longrightarrow> serves s r'" and "pending r' = pending r"
  shows "follows_session r r'"
  using assms by (intro matchedI exI [of _ "[]"]) (auto simp: takes_def)

lemma follows_session_event:
  assumes "\<And>s. serves s r \<Longrightarrow> \<exists>s'. session_step s e s' \<and> serves s' r'"
    and "pending r = output_of e @ pending r'"
  shows "follows_session r r'"
proof (rule matchedI)
  fix s assume "serves s r"
  with assms(1) obtain s' where "session_step s e s'" "serves s' r'" by blast
  with assms(2) show "\<exists>es s'. session_run s es s' \<and> serves s' r' \<and> takes r es r'"
    by (intro exI [of _ "[e]"] exI [of _ s']) (simp add: session_run_one takes_def)
qed

section \<open>Silent steps\<close>

lemma reader_active [simp]: "rn_active (set_pty_reader rd r) = rn_active r"
  by (simp add: set_pty_reader_def)

lemma serves_other [simp]:
  "serves s (r\<lparr>rn_os := x1\<rparr>) = serves s r" "serves s (r\<lparr>rn_now := t\<rparr>) = serves s r"
  "serves s (r\<lparr>rn_child := ch\<rparr>) = serves s r" "serves s (r\<lparr>rn_accepts := a\<rparr>) = serves s r"
  "serves s (r\<lparr>rn_stop := b\<rparr>) = serves s r" "serves s (trace_event ev r) = serves s r"
  "serves s (trace_io_error ev err r) = serves s r" "serves s (trace_process_exit ex r) = serves s r"
  "serves s (set_pty_reader rd r) = serves s r" "serves s (r\<lparr>rn_trace := tr\<rparr>) = serves s r"
  by (simp_all add: serves_def)

lemma serves_drop_candidate: "serves s r \<Longrightarrow> serves s (drop_candidate r)"
  by (simp add: serves_def data_view_drop_candidate)

lemma view_matches_None [simp]: "view_matches view None \<longleftrightarrow> view = None"
  by (simp add: view_matches_def)

lemma view_matches_Some: "view_matches view (Some c) \<longleftrightarrow> (\<exists>v. view = Some v \<and> carries v c)"
  by (simp add: view_matches_def)

lemma view_matches_queued:
  "queued c' = queued c \<Longrightarrow> view_matches view (Some c) \<Longrightarrow> view_matches view (Some c')"
  by (auto simp: view_matches_def carries_def)

section \<open>Detaching\<close>

lemma serves_drop_active:
  assumes "serves s r"
  shows "\<exists>es s'. session_run s es s' \<and> serves s' (drop_active r) \<and> produced_by es = [] \<and>
    sn_history s' = sn_history s \<and> sn_view s' = None"
proof (cases "rn_active r")
  case None
  then have "drop_active r = r" "sn_view s = None"
    using assms by (simp_all add: drop_active_def serves_def)
  with assms show ?thesis by (intro exI [of _ "[]"] exI [of _ s]) simp
next
  case (Some c)
  then have "session_step s Detached (s\<lparr>sn_view := None\<rparr>)"
    using assms by (intro session_step.detached) (auto simp: serves_def view_matches_def)
  moreover have "serves (s\<lparr>sn_view := None\<rparr>) (drop_active r)"
    using assms by (simp add: serves_def data_view_drop_active)
  ultimately show ?thesis
    by (intro exI [of _ "[Detached]"] exI [of _ "s\<lparr>sn_view := None\<rparr>"]) (simp add: session_run_one)
qed

lemma follows_session_drop_active: "follows_session r (drop_active r)"
proof (rule matchedI)
  fix s assume "serves s r"
  from serves_drop_active [OF this] show "\<exists>es s'. session_run s es s' \<and> serves s' (drop_active r) \<and> takes r es (drop_active r)"
    by (auto simp: takes_def)
qed

lemma follows_session_part:
  assumes "follows_session r r'"
  shows "follows_session r (drop_active (trace_event ev r'))" "follows_session r (drop_active (trace_io_error ev err r'))"
  using session_events.matched_trans [OF session_events.matched_trans [OF assms follows_session_silent]
      follows_session_drop_active] by simp_all

section \<open>Taking output\<close>

lemma follows_session_deliver:
  assumes "pending r = bytes @ plan_bytes (read_plan rd)"
  shows "follows_session r (deliver bytes (set_pty_reader rd r))"
proof (rule matchedI)
  fix s assume s: "serves s r"
  let ?r = "set_pty_reader rd r"
  let ?s = "s\<lparr>sn_history := sn_history s @ bytes, sn_view := map_option (\<lambda>v. v @ bytes) (sn_view s)\<rparr>"
  have step: "session_step s (Produced bytes) ?s"
    using s by (intro session_step.produced) (simp add: serves_def)
  have view: "data_view (sn_history s @ bytes) (deliver bytes ?r)"
    using s by (intro deliver_view) (simp add: serves_def)
  have same: "rn_active ?r = rn_active r" "input_given (deliver bytes ?r) = sn_input s"
    using s by (simp_all add: serves_def)
  have out: "takes r (Produced bytes # es) (deliver bytes ?r)" if "produced_by es = []" for es
    using that assms by (simp add: takes_def)
  show "\<exists>es s'. session_run s es s' \<and> serves s' (deliver bytes ?r) \<and> takes r es (deliver bytes ?r)"
  proof (cases "rn_active r")
    case None
    then have "rn_active (deliver bytes ?r) = None" "sn_view s = None"
      using same(1) s by (simp_all add: deliver_def serves_def)
    with step view same(2) s out [of "[]"] show ?thesis
      by (intro exI [of _ "[Produced bytes]"] exI [of _ ?s]) (simp add: session_run_one serves_def)
  next
    case (Some c)
    obtain v where v: "sn_view s = Some v" "carries v c"
      using s Some by (auto simp: serves_def view_matches_def)
    have "queue_ok c" using s Some by (auto simp: serves_def data_view_def follows_def)
    obtain res c' where e: "enqueue_output bytes c = (res, c')" by fastforce
    then obtain front rest where f: "bytes = front @ rest" "is_ok res \<longrightarrow> rest = []" "carries (v @ front) c'"
      using enqueue_output_front [OF e \<open>queue_ok c\<close>] v(2) by blast
    show ?thesis
    proof (cases res)
      case (Inr u)
      then have "rn_active (deliver bytes ?r) = Some c'"
        using same(1) Some e by (simp add: deliver_def Let_def)
      moreover have "carries (v @ bytes) c'" using f Inr by simp
      ultimately have "serves ?s (deliver bytes ?r)"
        using view same(2) v s by (simp add: serves_def view_matches_def)
      with step out [of "[]"] show ?thesis
        by (intro exI [of _ "[Produced bytes]"] exI [of _ ?s]) (simp add: session_run_one)
    next
      case (Inl err)
      let ?t = "?s\<lparr>sn_view := None\<rparr>"
      have "rn_active (deliver bytes ?r) = None"
        using same(1) Some e Inl by (simp add: deliver_def Let_def)
      then have "serves ?t (deliver bytes ?r)" using view same(2) s by (simp add: serves_def)
      moreover have "session_step ?s Detached ?t"
        using s v by (intro session_step.detached) (simp_all add: serves_def)
      ultimately show ?thesis
        using step out [of "[Detached]"]
        by (intro exI [of _ "[Produced bytes, Detached]"] exI [of _ ?t]) (simp add: session_run_Cons, blast)
    qed
  qed
qed

lemma follows_session_nothing_read:
  assumes "read_once IO_CHUNK_BYTES (pty_in (rn_master r)) = (q, rd)" and "\<not> is_ok q \<or> q = Inr []"
  shows "follows_session r (set_pty_reader rd r)"
proof -
  have "plan_bytes (read_plan rd) = pending r"
    using read_once_plan(1) [of IO_CHUNK_BYTES "pty_in (rn_master r)" "[]" rd]
      read_once_plan(2) [of IO_CHUNK_BYTES "pty_in (rn_master r)" _ rd] assms
    by (cases q) (auto simp: pending_def)
  then show ?thesis by (intro follows_session_silent) simp_all
qed

lemma follows_session_something_read:
  "read_once IO_CHUNK_BYTES (pty_in (rn_master r)) = (Inr bytes, rd) \<Longrightarrow>
   follows_session r (deliver bytes (set_pty_reader rd r))"
  using read_once_plan(1) by (intro follows_session_deliver) (simp add: pending_def)

lemma follows_session_write_attached:
  "write_attached js b r = (res, r') \<Longrightarrow> follows_session r r'"
  unfolding write_attached_def using on_os_fields by (fastforce intro: follows_session_silent)

section \<open>Giving input\<close>

lemma follows_session_flush_input: "follows_session r (flush_input r)"
proof -
  obtain res q w where f: "bq_flush (rn_input r, pty_out (rn_master r)) = (res, (q, w))" by (metis surj_pair)
  let ?r = "r\<lparr>rn_input := q, rn_master := (rn_master r)\<lparr>pty_out := w\<rparr>\<rparr>"
  have "serves s ?r" if "serves s r" for s
    using that bq_flush_wf [OF f] bq_flush_moves [OF f] bq_flush_conserves [OF f]
    by (auto simp: serves_def data_view_def input_given_def)
  then have "follows_session r ?r" by (rule follows_session_silent) (simp_all add: pending_def)
  then show ?thesis
    using f follows_session_part(2) by (cases res) (simp_all add: flush_input_def)
qed

lemma follows_session_resize:
  assumes "resize rows columns r = (res, r')"
  shows "follows_session r r'"
proof -
  obtain p where p: "r' = r\<lparr>rn_master := p\<rparr>" "pty_in p = pty_in (rn_master r)" "pty_out p = pty_out (rn_master r)"
    using assms by (auto simp: resize_def dest: set_window_size_keeps split: prod.splits)
  show ?thesis
    by (rule follows_session_silent) (use p in \<open>simp_all add: serves_def input_given_def pending_def\<close>)
qed

lemma follows_session_push:
  assumes "bq_push (rn_input r) bytes = (True, q)"
  shows "follows_session r (r\<lparr>rn_input := q\<rparr>)"
proof (rule follows_session_event [of _ "Entered bytes"])
  fix s assume s: "serves s r"
  let ?s = "s\<lparr>sn_input := sn_input s @ bytes\<rparr>"
  have "session_step s (Entered bytes) ?s" using s by (intro session_step.entered) (simp add: serves_def)
  moreover have "bq_contents q = bq_contents (rn_input r) @ bytes"
    using bq.push_True [OF assms] s by (simp add: serves_def data_view_def bq_wf_def)
  then have "serves ?s (r\<lparr>rn_input := q\<rparr>)"
    using s push_input_view [OF assms] by (simp add: serves_def input_given_def)
  ultimately show "\<exists>s'. session_step s (Entered bytes) s' \<and> serves s' (r\<lparr>rn_input := q\<rparr>)" by blast
qed simp

lemma follows_session_apply: "apply_active_records recs r = (res, r') \<Longrightarrow> follows_session r r'"
proof (induction recs arbitrary: r)
  case Nil
  then show ?case by (simp add: session_events.matched_refl)
next
  case (Cons rec recs)
  have same: "follows_session r r" by (rule session_events.matched_refl)
  show ?case
  proof (cases rec)
    case (Input bytes)
    obtain b q where q: "bq_push (rn_input r) bytes = (b, q)" by fastforce
    show ?thesis
    proof (cases b)
      case True
      with Cons.prems Input q have "apply_active_records recs (r\<lparr>rn_input := q\<rparr>) = (res, r')" by simp
      moreover have "follows_session r (r\<lparr>rn_input := q\<rparr>)"
        using q True by (intro follows_session_push) simp
      ultimately show ?thesis using Cons.IH session_events.matched_trans by blast
    next
      case False
      with Cons.prems Input q same show ?thesis by simp
    qed
  next
    case (Resize rows columns)
    obtain q r1 where q: "resize rows columns r = (q, r1)" by fastforce
    note 1 = follows_session_resize [OF q]
    show ?thesis
    proof (cases q)
      case (Inl e)
      with Cons.prems Resize q 1 show ?thesis by simp
    next
      case (Inr u)
      with Cons.prems Resize q have "apply_active_records recs r1 = (res, r')" by simp
      from 1 Cons.IH [OF this] show ?thesis by (rule session_events.matched_trans)
    qed
  qed (use Cons.prems same in auto)
qed

section \<open>Serving the attached client\<close>

text \<open>Reading from it and writing to it change nothing of what it is sent in all.\<close>

lemma serves_same_active:
  assumes "serves s r" and "rn_active r = Some c" and "queue_ok c'" and "queued c' = queued c"
    and "c_decoder c' = c_decoder c \<or> settled c'"
  shows "serves s (r\<lparr>rn_active := Some c'\<rparr>)"
  using assms follows_queued [OF assms(3,4)] view_matches_queued [OF assms(4)]
  by (auto simp: serves_def data_view_def settled_def)

text \<open>A connection about to be closed need not have a settled decoder.\<close>

lemma serves_drop_new:
  assumes "serves s r" and "rn_active r = Some c" and "queue_ok c'" and "queued c' = queued c"
  shows "\<exists>s'. session_step s Detached s' \<and> serves s' (drop_active (r\<lparr>rn_active := Some c'\<rparr>))"
proof -
  have "session_step s Detached (s\<lparr>sn_view := None\<rparr>)"
    using assms(1,2) by (intro session_step.detached) (auto simp: serves_def view_matches_def)
  moreover have "follows (sn_history s) c'"
    using assms follows_queued [OF assms(3,4)] by (auto simp: serves_def data_view_def)
  then have "serves (s\<lparr>sn_view := None\<rparr>) (drop_active (r\<lparr>rn_active := Some c'\<rparr>))"
    using assms(1) by (simp add: serves_def view_drop_new_active)
  ultimately show ?thesis by blast
qed

lemma follows_session_drop_new:
  assumes "rn_active r = Some c" and "queue_ok c \<Longrightarrow> queue_ok c' \<and> queued c' = queued c"
  shows "follows_session r (drop_active (trace_io_error ev e (r\<lparr>rn_active := Some c'\<rparr>)))"
proof (rule follows_session_event [of _ Detached])
  fix s assume s: "serves s r"
  then have "queue_ok c" using assms(1) by (auto simp: serves_def data_view_def follows_def)
  from serves_drop_new [OF s assms(1)] assms(2) [OF this]
  obtain s' where s': "session_step s Detached s'" "serves s' (drop_active (r\<lparr>rn_active := Some c'\<rparr>))" by blast
  then have "serves s' (drop_active (trace_io_error ev e (r\<lparr>rn_active := Some c'\<rparr>)))"
    by (simp add: serves_def)
  with s'(1) show "\<exists>s'. session_step s Detached s' \<and>
      serves s' (drop_active (trace_io_error ev e (r\<lparr>rn_active := Some c'\<rparr>)))" by blast
qed simp

lemma follows_session_flush_active: "follows_session r (flush_active r)"
proof (cases "rn_active r")
  case None
  then show ?thesis by (simp add: flush_active_def session_events.matched_refl)
next
  case (Some c)
  obtain res c' where f: "flush_connection c = (res, c')" by fastforce
  show ?thesis
  proof (cases res)
    case (Inl e)
    with Some f flush_connection_result [OF f] show ?thesis
      using follows_session_drop_new [OF Some, of c'] by (simp add: flush_active_def)
  next
    case (Inr u)
    have "serves s (r\<lparr>rn_active := Some c'\<rparr>)" if "serves s r" for s
      using serves_same_active [OF that Some] flush_connection_result [OF f] that Some
      by (auto simp: serves_def data_view_def follows_def)
    then show ?thesis
      using Some f Inr by (simp add: flush_active_def follows_session_silent)
  qed
qed

lemma follows_session_serve_active:
  assumes "serve_active r = (res, r')"
  shows "follows_session r r'"
proof (cases "rn_active r")
  case None
  with assms show ?thesis by (simp add: serve_active_def read_active_def io_simps session_events.matched_refl)
next
  case (Some c)
  obtain q c' where rd: "read_records c = (q, c')" by fastforce
  have same: "queue_ok c \<Longrightarrow> queue_ok c' \<and> queued c' = queued c"
    using read_records_result [OF rd] by (simp add: queue_ok_def queued_def)
  let ?r = "r\<lparr>rn_active := Some c'\<rparr>"
  show ?thesis
  proof (cases q)
    case (Inl e)
    with assms Some rd have "r' = drop_active (trace_io_error ''attachment_read_failed'' e ?r)"
      by (simp add: serve_active_def read_active_def)
    with follows_session_drop_new [OF Some same] show ?thesis by simp
  next
    case (Inr records)
    have "serves s ?r" if "serves s r" for s
      using serves_same_active [OF that Some] read_records_result [OF rd] same that Some Inr
      by (auto simp: serves_def data_view_def follows_def)
    then have 1: "follows_session r ?r" by (rule follows_session_silent) simp_all
    obtain z r2 where z: "apply_active_records records ?r = (z, r2)" by fastforce
    have 2: "follows_session r r2"
      using 1 follows_session_apply [OF z] by (rule session_events.matched_trans)
    from assms Some rd Inr z have "r' = r2 \<or> r' = drop_active (trace_event ''attachment_input_rejected'' r2)"
      by (auto simp: serve_active_def read_active_def io_simps split: sum.splits if_splits)
    with 2 follows_session_part(1) [OF 2] show ?thesis by auto
  qed
qed

section \<open>Accepting and attaching\<close>

lemma follows_session_drop_candidate: "follows_session r (drop_candidate r)"
  by (rule follows_session_silent) (simp_all add: serves_drop_candidate)

lemma follows_session_new_candidate:
  "follows_session r ((drop_candidate r)\<lparr>rn_candidate := Some (connection_new (accepted_stream x))\<rparr>)"
  by (rule follows_session_silent) (simp_all add: serves_def view_new_candidate)

lemma follows_session_accept_loop: "accept_loop as r = (res, r') \<Longrightarrow> follows_session r r'"
proof (induction as r arbitrary: res r' rule: accept_loop.induct)
  case (3 x as r)
  have quiet: "follows_session r (r\<lparr>rn_accepts := as\<rparr>)" "follows_session r (trace_event ev r)" for ev
    by (simp_all add: follows_session_silent)
  show ?case
  proof (cases "peer_uid (ac_peer x)")
    case (Inl e)
    with 3 quiet show ?thesis by auto
  next
    case (Inr peer)
    show ?thesis
    proof (cases "peer = os_uid (rn_os r) \<and> is_ok (ac_nonblocking x)")
      case True
      then obtain u where u: "ac_nonblocking x = Inr u" by (cases "ac_nonblocking x") simp_all
      let ?r1 = "if rn_candidate r \<noteq> None then trace_event ''candidate_replaced'' r else r"
      let ?r2 = "trace_event ''candidate_accepted'' ?r1"
      let ?r3 = "(drop_candidate ?r2)\<lparr>rn_candidate := Some (connection_new (accepted_stream x))\<rparr>"
      have "follows_session r ?r2" by (simp add: follows_session_silent)
      then have "follows_session r ?r3"
        using follows_session_new_candidate by (rule session_events.matched_trans)
      moreover have "accept_loop as ?r3 = (res, r')"
        using "3.prems" Inr True u by (simp add: Let_def)
      then have "follows_session ?r3 r'" using "3.IH"(2) Inr True u by simp
      ultimately show ?thesis by (rule session_events.matched_trans)
    next
      case False
      show ?thesis
      proof (cases "peer = os_uid (rn_os r)")
        case True
        with False "3.prems" Inr quiet show ?thesis by (cases "ac_nonblocking x") auto
      next
        case False
        with "3.prems" Inr have "accept_loop as (trace_event ''candidate_peer_rejected'' r) = (res, r')" by simp
        with "3.IH"(1) [OF Inr] False have "follows_session (trace_event ''candidate_peer_rejected'' r) r'" by simp
        with quiet(2) show ?thesis by (rule session_events.matched_trans)
      qed
    qed
  qed
qed (auto split: if_splits intro!: follows_session_silent)

text \<open>A connection that is closed after it was taken out of the candidates.\<close>

lemma follows_session_close:
  assumes "\<And>s. serves s r \<Longrightarrow> closed_view (sn_history s) c"
  shows "follows_session r (r\<lparr>rn_closed := c # rn_closed r\<rparr>)"
  using assms by (intro follows_session_silent) (simp_all add: serves_def view_closed)

lemma serves_activate:
  assumes "serves s r" and "queue_ok c" and "settled c" and "carries (replay (sn_history s)) c"
  shows "\<exists>es s'. session_run s es s' \<and> serves s' (activate c r) \<and> produced_by es = []"
proof -
  let ?r1 = "if rn_active r \<noteq> None then trace_event ''attachment_replaced'' r else r"
  let ?r2 = "trace_event ''attachment_activated'' ?r1"
  have "serves s ?r2" using assms(1) by simp
  from serves_drop_active [OF this] obtain es s1 where es: "session_run s es s1" "serves s1 (drop_active ?r2)"
    "produced_by es = []" "sn_history s1 = sn_history s" "sn_view s1 = None" by blast
  let ?s = "s1\<lparr>sn_view := Some (replay (sn_history s))\<rparr>"
  have "session_step s1 Attached ?s"
    using es(2,4,5) session_step.attached [of s1] by (simp add: serves_def)
  then have "session_run s (es @ [Attached]) ?s"
    using es(1) session_run_append session_run_one by blast
  moreover have "follows (sn_history s) c"
    using assms(2,4) unfolding follows_def by (intro conjI exI [of _ "sn_history s"] exI [of _ "[]"]) simp_all
  then have "serves ?s (activate c r)"
    using es(2,4) assms(3,4) by (simp add: activate_def Let_def serves_def view_active view_matches_Some)
  ultimately show ?thesis using es(3) by (intro exI [of _ "es @ [Attached]"] exI [of _ ?s]) simp
qed

lemma serves_apply:
  assumes "apply_active_records recs r = (res, r')" and "serves s r"
  shows "\<exists>es s'. session_run s es s' \<and> serves s' r' \<and> produced_by es = [] \<and> sn_history s' = sn_history s"
proof -
  from matchedE [OF follows_session_apply [OF assms(1)] assms(2)]
  obtain es s' where es: "session_run s es s'" "serves s' r'" "takes r es r'" .
  have "pending r' = pending r" using apply_active_records_fields [OF assms(1)] by (auto simp: pending_def)
  then have "produced_by es = []" using es(3) by (simp add: takes_def)
  then show ?thesis using es session_run_totals [OF es(1)] by auto
qed

lemma follows_session_attach:
  assumes "attach_candidate js rows columns remaining r = (res, r')"
  shows "follows_session r r'"
proof (cases "rn_candidate r")
  case None
  with assms show ?thesis by (simp add: attach_candidate_def session_events.matched_refl)
next
  case (Some c)
  let ?r = "r\<lparr>rn_candidate := None\<rparr>"
  obtain q r1 where rs: "resize rows columns ?r = (q, r1)" by fastforce
  have "follows_session r ?r" by (rule follows_session_silent) (simp_all add: serves_def view_no_candidate)
  with follows_session_resize [OF rs] have 1: "follows_session r r1"
    using session_events.matched_trans by blast
  have pend1: "pending r1 = pending r" using resize_fields [OF rs] by (auto simp: pending_def)
  show ?thesis
  proof (rule matchedI)
    fix s0 assume s0: "serves s0 r"
    then have c: "quiet c" "settled c" using Some by (auto simp: serves_def data_view_def)
    from matchedE [OF 1 s0] obtain es1 s where es1: "session_run s0 es1 s" "serves s r1" "takes r es1 r1" .
    have quiet1: "produced_by es1 = []" using es1(3) pend1 by (simp add: takes_def)
    have go: "\<exists>es s'. session_run s0 es s' \<and> serves s' r' \<and> takes r es r'"
      if "session_run s es s'" "serves s' r'" "produced_by es = []" "pending r' = pending r1" for es s'
      using that es1(1) quiet1 pend1 session_run_append
      by (intro exI [of _ "es1 @ es"] exI [of _ s']) (auto simp: takes_def)
    show "\<exists>es s'. session_run s0 es s' \<and> serves s' r' \<and> takes r es r'"
    proof (cases q)
      case (Inl e)
      with assms Some rs have r': "r' = r1\<lparr>rn_closed := c # rn_closed r1\<rparr>" by (simp add: attach_candidate_def Let_def)
      have "serves s r'" using es1(2) view_closed quiet_closed [OF c(1)] unfolding r' by (simp add: serves_def)
      then show ?thesis using go [of "[]" s] r' by (simp add: session_run.none)
    next
      case (Inr u)
      obtain c' where c': "enqueue_replay (rn_tail r1) c = (Inr (), c')" "queue_ok c'"
        "c_decoder c' = c_decoder c" "carries (replay (sn_history s)) c'"
        using enqueue_replay_result [OF c(1), of "rn_tail r1" "sn_history s"] es1(2)
        by (auto simp: serves_def data_view_def)
      have settled: "settled c'" using c(2) c'(3) by (simp add: settled_def)
      obtain z r2 where z: "apply_active_records remaining r1 = (z, r2)" by fastforce
      have pend2: "pending r2 = pending r1" using apply_active_records_fields [OF z] by (auto simp: pending_def)
      from serves_apply [OF z es1(2)] obtain es2 s2 where es2: "session_run s es2 s2" "serves s2 r2"
        "produced_by es2 = []" "sn_history s2 = sn_history s" by blast
      have "follows (sn_history s) c'"
        using c'(2,4) unfolding follows_def by (intro conjI exI [of _ "sn_history s"] exI [of _ "[]"]) simp_all
      then have closed: "serves s2 (r2\<lparr>rn_closed := c' # rn_closed r2\<rparr>)"
        using es2(2,4) by (simp add: serves_def view_closed follows_closed)
      have r': "(res, r') = (case z of
          Inl e \<Rightarrow> (Inl e, r2\<lparr>rn_closed := c' # rn_closed r2\<rparr>)
        | Inr ok \<Rightarrow> if ok then write_attached js True (activate c' r2)
                    else (Inr (), r2\<lparr>rn_closed := c' # rn_closed r2\<rparr>))"
        using assms Some rs Inr c'(1) z by (simp add: attach_candidate_def Let_def split: sum.splits bool.splits)
      show ?thesis
      proof (cases "z = Inr True")
        case False
        then have "r' = r2\<lparr>rn_closed := c' # rn_closed r2\<rparr>" using r' by (cases z) auto
        then show ?thesis using go [OF es2(1)] closed es2(3) pend2 by simp
      next
        case True
        then have w: "write_attached js True (activate c' r2) = (res, r')" using r' by simp
        from serves_activate [OF es2(2) c'(2) settled] c'(4) es2(4) obtain es3 s3
          where es3: "session_run s2 es3 s3" "serves s3 (activate c' r2)" "produced_by es3 = []" by auto
        obtain t where "r' = (activate c' r2)\<lparr>rn_os := t\<rparr>"
          using w on_os_fields unfolding write_attached_def by blast
        then have "serves s3 r'" "pending r' = pending r1" using es3(2) pend2 by simp_all
        then show ?thesis using go [OF session_run_append [OF es2(1) es3(1)]] es2(3) es3(3) by simp
      qed
    qed
  qed
qed

lemma follows_session_candidate_records:
  assumes "candidate_records js records r = (res, r')"
  shows "follows_session r r'"
proof -
  have quiet: "follows_session r (drop_candidate (trace_event ev r))"
    "follows_session r ((drop_candidate (trace_event ev r))\<lparr>rn_stop := True\<rparr>)" for ev
    by (rule follows_session_silent; simp add: serves_drop_candidate)+
  from assms consider "r' = r" | ev where "r' = drop_candidate (trace_event ev r)"
    | ev where "r' = (drop_candidate (trace_event ev r))\<lparr>rn_stop := True\<rparr>"
    | rows columns remaining where "attach_candidate js rows columns remaining r = (res, r')"
    unfolding candidate_records_def by (auto split: list.splits ipc_record.splits)
  then show ?thesis
    using quiet session_events.matched_refl follows_session_attach by cases simp_all
qed

lemma follows_session_candidate_step:
  assumes "candidate_step js r = (res, r')"
  shows "follows_session r r'"
proof (cases "rn_candidate r")
  case None
  with assms show ?thesis
    by (simp add: candidate_step_def read_candidate_def candidate_records_def session_events.matched_refl)
next
  case (Some c)
  obtain q c' where rd: "read_records c = (q, c')" by fastforce
  let ?r = "r\<lparr>rn_candidate := Some c'\<rparr>"
  have c': "quiet c'" "is_ok q \<Longrightarrow> settled c'" if "serves s r" for s
  proof -
    have "quiet c" "settled c" using that Some by (auto simp: serves_def data_view_def)
    then show "quiet c'" "is_ok q \<Longrightarrow> settled c'"
      using read_records_result [OF rd] by (auto simp: quiet_def queue_ok_def queued_def)
  qed
  show ?thesis
  proof (cases q)
    case (Inl e)
    with assms Some rd have r': "r' = drop_candidate (trace_io_error ''candidate_read_failed'' e ?r)"
      by (simp add: candidate_step_def read_candidate_def)
    show ?thesis
    proof (rule follows_session_silent)
      show "serves s r'" if "serves s r" for s
        using that c' [OF that] view_drop_new_candidate by (simp add: r' serves_def)
    qed (simp add: r')
  next
    case (Inr records)
    have "follows_session r ?r"
    proof (rule follows_session_silent)
      show "serves s ?r" if "serves s r" for s
        using that c' [OF that] Inr view_candidate by (simp add: serves_def)
    qed simp
    moreover have "candidate_records js records ?r = (res, r')"
      using assms Some rd Inr by (simp add: candidate_step_def read_candidate_def)
    then have "follows_session ?r r'" by (rule follows_session_candidate_records)
    ultimately show ?thesis by (rule session_events.matched_trans)
  qed
qed

section \<open>A tick\<close>

lemma follows_session_drop_files: "follows_session r (drop_files r)"
  using on_os_fields [OF prod.collapse [symmetric], of "drop_session_files (rn_paths r)" r]
  unfolding drop_files_def by (auto intro: follows_session_silent)

interpretation session_ticks: runner_relation follows_session follows_session
proof (unfold_locales, goal_cases)
  case (2 r r1 r2)
  then show ?case by (rule session_events.matched_trans)
next
  case (16 r r1)
  then have "follows_session r (drop_files r1)"
    using follows_session_drop_files by (rule session_events.matched_trans)
  then have "follows_session r (drop_active (drop_files r1))"
    using follows_session_drop_active by (rule session_events.matched_trans)
  then show ?case using follows_session_drop_candidate by (rule session_events.matched_trans)
qed (auto intro: session_events.matched_refl follows_session_silent follows_session_drop_active
  follows_session_drop_candidate follows_session_nothing_read follows_session_something_read
  follows_session_flush_input follows_session_flush_active follows_session_serve_active
  follows_session_accept_loop follows_session_candidate_step simp: accept_candidate_def)

interpretation session_of_runner: simulation session_run takes serves "runner_step js" for js
  by unfold_locales (auto intro: session_ticks.tick_again)

section \<open>The end\<close>

text \<open>
  When the session is over, the ring still stands for all output, and if a client was attached
  it has been sent its view and the status of the process, as far as it took them.
\<close>

definition parted :: "session \<Rightarrow> runner \<Rightarrow> bool" where
  "parted s r \<longleftrightarrow>
     rn_active r = None \<and> rn_candidate r = None \<and> tail.stands_for (rn_tail r) (sn_history s) \<and>
     sn_input s = input_given r \<and>
     (\<exists>exit. sn_over s = Some exit \<and>
        (\<forall>v. sn_view s = Some v \<longrightarrow>
           (\<exists>c pieces. c \<in> set (rn_closed r) \<and> concat pieces = v \<and>
              prefix (sink (s_out (c_stream c))) (output_frames pieces @ record_frame (Exit exit)))))"

definition concludes :: "outcome \<Rightarrow> session \<Rightarrow> runner \<Rightarrow> bool" where
  "concludes out s r = (if out = Returns (Inr ()) then parted s r else serves s r)"

definition ends_session :: "outcome \<Rightarrow> runner \<Rightarrow> runner \<Rightarrow> bool" where
  "ends_session out r r' \<longleftrightarrow>
     (\<forall>s. serves s r \<longrightarrow> (\<exists>es s'. session_run s es s' \<and> takes r es r' \<and> concludes out s' r'))"

lemma ends_session_after:
  assumes "follows_session r r1" and "ends_session out r1 r'"
  shows "ends_session out r r'"
  unfolding ends_session_def
proof (intro allI impI)
  fix s assume "serves s r"
  with assms(1) obtain es s1 where 1: "session_run s es s1" "serves s1 r1" "takes r es r1" by (rule matchedE)
  from assms(2) 1(2) obtain fs s2 where 2: "session_run s1 fs s2" "takes r1 fs r'" "concludes out s2 r'"
    unfolding ends_session_def by blast
  show "\<exists>es s'. session_run s es s' \<and> takes r es r' \<and> concludes out s' r'"
    using session_run_append [OF 1(1) 2(1)] session_events.emits_append [OF 1(3) 2(2)] 2(3) by blast
qed

lemma ends_session_follows: "follows_session r r' \<Longrightarrow> out \<noteq> Returns (Inr ()) \<Longrightarrow> ends_session out r r'"
  unfolding ends_session_def concludes_def matched_def by simp blast

lemma ends_session_farewell:
  "ends_session (Returns (Inr ())) r
     (drop_candidate (drop_active (r\<lparr>rn_active := map_option (farewell exit) (rn_active r)\<rparr>)))"
  (is "ends_session _ r ?r")
  unfolding ends_session_def
proof (intro allI impI)
  fix s assume s: "serves s r"
  let ?s = "s\<lparr>sn_over := Some exit\<rparr>"
  have "session_run s [Finished exit] ?s"
    using s by (intro session_run_one session_step.finished) (simp add: serves_def)
  moreover have "takes r [Finished exit] ?r" by (simp add: takes_def)
  moreover have "\<exists>c pieces. c \<in> set (rn_closed ?r) \<and> concat pieces = v \<and>
      prefix (sink (s_out (c_stream c))) (output_frames pieces @ record_frame (Exit exit))" if v: "sn_view s = Some v" for v
  proof -
    obtain c where c: "rn_active r = Some c" "carries v c"
      using s v by (cases "rn_active r") (auto simp: serves_def view_matches_Some)
    then obtain pieces where p: "concat pieces = v" "queued c = output_frames pieces" by (auto simp: carries_def)
    have "queue_ok c" using s c(1) by (auto simp: serves_def data_view_def follows_def)
    from farewell_sends [OF this, of exit] p c(1) show ?thesis
      by (intro exI [of _ "farewell exit c"] exI [of _ pieces])
        (simp add: drop_active_def drop_candidate_def split: option.split)
  qed
  then have "parted ?s ?r" using s by (simp add: parted_def serves_def data_view_def)
  ultimately show "\<exists>es s'. session_run s es s' \<and> takes r es ?r \<and> concludes (Returns (Inr ())) s' ?r"
    by (auto simp: concludes_def)
qed

lemma run_event_loop_ends:
  assumes "run_event_loop js answers r = (out, r')"
  shows "ends_session out r r'"
proof -
  have out: "session_ticks.comes_out out r r'" by (rule session_ticks.loop_out [OF assms])
  show ?thesis
  proof (cases "out = Returns (Inr ())")
    case True
    then obtain r1 exit where "follows_session r r1"
      "r' = drop_candidate (drop_active (r1\<lparr>rn_active := map_option (farewell exit) (rn_active r1)\<rparr>))"
      using out by (auto simp: session_ticks.comes_out_def)
    with True ends_session_farewell show ?thesis using ends_session_after by simp
  next
    case False
    with out show ?thesis by (simp add: session_ticks.comes_out_def ends_session_follows split: if_splits)
  qed
qed

lemma fresh_serves: "fresh_runner r \<Longrightarrow> serves (session_start (input_given r)) r"
  using fresh_data_view by (simp add: serves_def session_start_def) (simp add: fresh_runner_def)

section \<open>Properties\<close>

text \<open>
  C2: The event loop refines the session: whatever the sockets, the terminal, the poll and
  the file system answer, and however the loop comes out, what it has done is a run of events
  of the abstract session.  As long as it goes on, or when it fails, the ring, the client's
  stream and the process's input stand for the session's history, view and input; when it
  returns successfully the session is over, and its last client has been sent its view and
  then the status, as far as it took them.
\<close>

theorem runner_refines_the_session:
  assumes "fresh_runner r0" and "run_event_loop js answers r0 = (out, r)"
  shows "\<exists>es s. session_run (session_start (input_given r0)) es s \<and>
    pending r0 = produced_by es @ pending r \<and> input_given r = input_given r0 @ entered_by es \<and>
    (if out = Returns (Inr ()) then parted s r else serves s r)"
proof -
  from run_event_loop_ends [OF assms(2)] fresh_serves [OF assms(1)]
  obtain es s where es: "session_run (session_start (input_given r0)) es s" "takes r0 es r" "concludes out s r"
    unfolding ends_session_def by blast
  have "sn_input s = input_given r"
    using es(3) by (auto simp: concludes_def parted_def serves_def split: if_splits)
  with es session_run_totals [OF es(1)] show ?thesis
    by (intro exI [of _ es] exI [of _ s]) (simp add: takes_def concludes_def session_start_def)
qed

text \<open>
  What the attached client is sent is fixed by the events of the session alone: the
  replay of what had been produced when it attached, and all output since, during which it
  was neither replaced nor detached.
\<close>

theorem client_view_follows_from_the_events:
  assumes "fresh_runner r0" and "run_event_loop js answers r0 = (Again, r)" and "rn_active r = Some c"
  shows "\<exists>before after s. session_run (session_start (input_given r0)) (before @ Attached # after) s \<and>
    serves s r \<and> Attached \<notin> set after \<and> Detached \<notin> set after \<and>
    pending r0 = produced_by before @ produced_by after @ pending r \<and>
    carries (replay (produced_by before) @ produced_by after) c"
proof -
  from matchedE [OF session_of_runner.reachable_matched [OF run_event_loop_reachable [OF assms(2)]]
      fresh_serves [OF assms(1)]]
  obtain es s where es: "session_run (session_start (input_given r0)) es s" "serves s r" "takes r0 es r" .
  obtain v where v: "sn_view s = Some v" "carries v c"
    using es(2) assms(3) by (auto simp: serves_def view_matches_Some)
  then obtain before after where "es = before @ Attached # after" "attached_for after"
    "v = replay (produced_by before) @ produced_by after"
    using session_run_view [OF es(1)] by (auto simp: view_of_def session_start_def)
  with es v show ?thesis
    by (intro exI [of _ before] exI [of _ after] exI [of _ s]) (simp add: takes_def attached_for_def)
qed

lemma runner_refines_the_session_witness:
  "\<exists>r es s. run_event_loop sample_json [poll_accept, poll_candidate] sample_runner = (Again, r) \<and>
     session_run (session_start []) es s \<and> [104, 105] = produced_by es @ pending r \<and> serves s r"
proof -
  obtain r c where r: "run_event_loop sample_json [poll_accept, poll_candidate] sample_runner = (Again, r)"
    by (rule sample_run)
  have "input_given sample_runner = []" "pending sample_runner = [104, 105]"
    by (simp_all add: input_given_def pending_def sample_runner_def vec_writer_def)
  with runner_refines_the_session [OF sample_runner_fresh r] r show ?thesis by auto
qed

lemma client_view_follows_from_the_events_witness:
  "\<exists>r c before after. run_event_loop sample_json [poll_accept, poll_candidate] sample_runner = (Again, r) \<and>
     rn_active r = Some c \<and> [104, 105] = produced_by before @ produced_by after @ pending r \<and>
     carries (replay (produced_by before) @ produced_by after) c"
proof -
  obtain r c where r: "run_event_loop sample_json [poll_accept, poll_candidate] sample_runner = (Again, r)"
    "rn_active r = Some c" by (rule sample_run)
  have "pending sample_runner = [104, 105]" by (simp add: pending_def sample_runner_def)
  with client_view_follows_from_the_events [OF sample_runner_fresh r] r show ?thesis by metis
qed

end
