(* ===== verification/Runner_Input.thy ===== *)
theory Runner_Input
  imports Runner_Stream
begin

text \<open>
  Where the input of the managed process comes from: only from connections of the user that
  have asked to attach, from each in the order it was sent, and from the attached client
  without a gap.
\<close>

section \<open>Whose records\<close>

fun arrivals :: "accept_response list \<Rightarrow> accepted list" where
  "arrivals [] = []"
| "arrivals (Accepted a # as) = a # arrivals as"
| "arrivals (Accept_fails e # as) = arrivals as"

text \<open>What a client has sent, and what of it the runner has yet to decode.\<close>

definition sent_by :: "accepted \<Rightarrow> byte list" where
  "sent_by a = plan_bytes (read_plan (ac_in a))"

definition unread :: "connection \<Rightarrow> byte list" where
  "unread c = buffer (c_decoder c) @ plan_bytes (read_plan (s_in (c_stream c)))"

text \<open>The records that were applied, each portion with the number of the client it is from.\<close>

type_synonym portions = "(nat \<times> ipc_record list) list"

definition share :: "nat \<Rightarrow> portions \<Rightarrow> ipc_record list" where
  "share i ps = concat (map snd (filter (\<lambda>p. fst p = i) ps))"

definition applied :: "portions \<Rightarrow> ipc_record list" where
  "applied ps = concat (map snd ps)"

definition asks_to_attach :: "ipc_record list \<Rightarrow> bool" where
  "asks_to_attach rs \<longleftrightarrow> (\<exists>rows columns rest. rs = Attach rows columns # rest)"

definition share_ok :: "u32 \<Rightarrow> accepted \<Rightarrow> ipc_record list \<Rightarrow> bool" where
  "share_ok user a rs \<longleftrightarrow>
     prefix (frames rs) (sent_by a) \<and> (\<forall>r \<in> set rs. valid_record r) \<and>
     (rs \<noteq> [] \<longrightarrow> asks_to_attach rs \<and> peer_uid (ac_peer a) = Inr user)"

lemma share_simps [simp]: "share i [] = []" "share i (ps @ qs) = share i ps @ share i qs"
  "share i [(k, rs)] = (if k = i then rs else [])"
  by (simp_all add: share_def)

lemma applied_simps [simp]: "applied [] = []" "applied (ps @ qs) = applied ps @ applied qs" "applied [p] = snd p"
  by (simp_all add: applied_def)

lemma share_beyond: "\<forall>p \<in> set ps. fst p < n \<Longrightarrow> share n ps = []"
  by (auto simp: share_def)

lemma share_ok_empty [simp]: "share_ok user a []"
  by (simp add: share_ok_def)

section \<open>The invariant\<close>

definition accounted :: "u32 \<Rightarrow> byte list \<Rightarrow> accepted list \<Rightarrow> portions \<Rightarrow> nat \<Rightarrow> runner \<Rightarrow> bool" where
  "accounted user base clients ps n r \<longleftrightarrow>
     n \<le> length clients \<and> drop n clients = arrivals (rn_accepts r) \<and>
     os_uid (rn_os r) = user \<and> bq_wf (rn_input r) \<and>
     input_given r = base @ typed (applied ps) \<and>
     (\<forall>p \<in> set ps. fst p < n) \<and> (\<forall>i < n. share_ok user (clients ! i) (share i ps))"

definition listens_active :: "accepted list \<Rightarrow> portions \<Rightarrow> nat \<Rightarrow> runner \<Rightarrow> bool" where
  "listens_active clients ps n r \<longleftrightarrow>
     (\<forall>c. rn_active r = Some c \<longrightarrow>
        (\<exists>i < n. share i ps \<noteq> [] \<and> sent_by (clients ! i) = frames (share i ps) @ unread c))"

definition listens_candidate :: "u32 \<Rightarrow> accepted list \<Rightarrow> portions \<Rightarrow> nat \<Rightarrow> runner \<Rightarrow> bool" where
  "listens_candidate user clients ps n r \<longleftrightarrow>
     (\<forall>c. rn_candidate r = Some c \<longrightarrow>
        (\<exists>i < n. share i ps = [] \<and> peer_uid (ac_peer (clients ! i)) = Inr user \<and> sent_by (clients ! i) = unread c))"

definition listens :: "u32 \<Rightarrow> byte list \<Rightarrow> accepted list \<Rightarrow> runner \<Rightarrow> bool" where
  "listens user base clients r \<longleftrightarrow>
     (\<exists>ps n. accounted user base clients ps n r \<and> listens_active clients ps n r \<and>
        listens_candidate user clients ps n r)"

definition has_listened :: "u32 \<Rightarrow> byte list \<Rightarrow> accepted list \<Rightarrow> runner \<Rightarrow> bool" where
  "has_listened user base clients r \<longleftrightarrow> (\<exists>ps n. accounted user base clients ps n r)"

text \<open>Steps that neither read from a connection nor give input keep the account.\<close>

lemma accounted_cong:
  assumes "accounted user base clients ps n r" and "rn_accepts r' = rn_accepts r"
    and "os_uid (rn_os r') = os_uid (rn_os r)" and "bq_wf (rn_input r')" and "input_given r' = input_given r"
  shows "accounted user base clients ps n r'"
  using assms by (simp add: accounted_def)

lemma listens_cong:
  assumes "listens user base clients r" and "rn_accepts r' = rn_accepts r"
    and "os_uid (rn_os r') = os_uid (rn_os r)" and "bq_wf (rn_input r) \<Longrightarrow> bq_wf (rn_input r')"
    and "input_given r' = input_given r"
    and "\<And>c'. rn_active r' = Some c' \<Longrightarrow> \<exists>c. rn_active r = Some c \<and> unread c' = unread c"
    and "\<And>c'. rn_candidate r' = Some c' \<Longrightarrow> \<exists>c. rn_candidate r = Some c \<and> unread c' = unread c"
  shows "listens user base clients r'"
proof -
  obtain ps n where ps: "accounted user base clients ps n r" "listens_active clients ps n r"
    "listens_candidate user clients ps n r" using assms(1) by (auto simp: listens_def)
  have "accounted user base clients ps n r'"
    using ps(1) assms(2-5) by (intro accounted_cong [OF ps(1)]) (simp_all add: accounted_def)
  moreover have "listens_active clients ps n r'"
    using ps(2) assms(6) unfolding listens_active_def by metis
  moreover have "listens_candidate user clients ps n r'"
    using ps(3) assms(7) unfolding listens_candidate_def by metis
  ultimately show ?thesis unfolding listens_def by blast
qed

lemma listens_has: "listens user base clients r \<Longrightarrow> has_listened user base clients r"
  by (auto simp: listens_def has_listened_def)

lemma trace_more [simp]:
  "rn_accepts (trace_event ev r) = rn_accepts r" "rn_accepts (trace_io_error ev err r) = rn_accepts r"
  "rn_input (trace_event ev r) = rn_input r" "rn_input (trace_io_error ev err r) = rn_input r"
  "os_uid (rn_os (trace_event ev r)) = os_uid (rn_os r)" "os_uid (rn_os (trace_io_error ev err r)) = os_uid (rn_os r)"
  using trace_is_entry(1) [of ev] trace_is_entry(2) [of ev err] by auto

section \<open>Reading records\<close>

lemma read_records_unread:
  assumes "read_records c = (Inr rs, c')"
  shows "unread c = frames rs @ unread c' \<and> (\<forall>r \<in> set rs. valid_record r)"
proof -
  let ?cap = "min (remaining_capacity (c_decoder c)) IO_CHUNK_BYTES"
  obtain q rd where rd: "read_once ?cap (s_in (c_stream c)) = (q, rd)" by fastforce
  have cap: "?cap \<noteq> 0"
  proof
    assume "?cap = 0"
    then have "read_records c = (Inl (io_error_new InvalidData), c)"
      by (simp only: read_records_def Let_def simp_thms if_True)
    with assms show False by simp
  qed
  show ?thesis
  proof (cases q)
    case (Inl e)
    with assms rd cap have "rs = []" "c' = c\<lparr>c_stream := (c_stream c)\<lparr>s_in := rd\<rparr>\<rparr>"
      by (auto simp: read_records_def Let_def split: if_splits)
    with read_once_plan(2) rd Inl show ?thesis by (simp add: unread_def)
  next
    case (Inr bytes)
    let ?d = "(c_decoder c)\<lparr>buffer := buffer (c_decoder c) @ bytes\<rparr>"
    have fits: "decoder_push (c_decoder c) bytes = (Inr (), ?d)"
      using assms rd cap Inr by (auto simp: read_records_def Let_def decoder_push_def split: if_splits prod.splits sum.splits)
    then obtain d where d: "decode_all ?d = (Inr rs, d)"
      "c' = c\<lparr>c_stream := (c_stream c)\<lparr>s_in := rd\<rparr>, c_decoder := d\<rparr>"
      using assms rd cap Inr by (auto simp: read_records_def Let_def split: if_splits prod.splits sum.splits)
    have "plan_bytes (read_plan (s_in (c_stream c))) = bytes @ plan_bytes (read_plan rd)"
      using read_once_plan(1) rd Inr by blast
    with decode_all_Inr [OF d(1)] d(2) show ?thesis by (simp add: unread_def frames_def)
  qed
qed

lemma apply_active_records_front:
  "apply_active_records recs r = (res, r') \<Longrightarrow> bq_wf (rn_input r) \<Longrightarrow>
   \<exists>front rest. recs = front @ rest \<and> input_given r' = input_given r @ typed front \<and>
     bq_wf (rn_input r') \<and> (res = Inr True \<longrightarrow> rest = [])"
proof (induction recs arbitrary: r)
  case Nil
  then show ?case by simp
next
  case (Cons rec recs)
  have stop: ?case if "r' = r" "res \<noteq> Inr True"
    using that Cons.prems(2) by (intro exI [of _ "[]"] exI [of _ "rec # recs"]) simp
  have go: ?case if "apply_active_records recs r1 = (res, r')" "bq_wf (rn_input r1)"
    "input_given r1 = input_given r @ typed_of rec" for r1
  proof -
    from Cons.IH [OF that(1,2)] obtain front rest where "recs = front @ rest"
      "input_given r' = input_given r1 @ typed front" "bq_wf (rn_input r')" "res = Inr True \<longrightarrow> rest = []" by blast
    with that(3) show ?thesis by (intro exI [of _ "rec # front"] exI [of _ rest]) simp
  qed
  show ?case
  proof (cases rec)
    case (Input bytes)
    obtain b q where q: "bq_push (rn_input r) bytes = (b, q)" by fastforce
    show ?thesis
    proof (cases b)
      case True
      have "bq_contents q = bq_contents (rn_input r) @ bytes" "bq_wf q"
        using bq.push_True [of "rn_input r" bytes q] q True Cons.prems(2) by (auto simp: bq_wf_def)
      then show ?thesis
        using Cons.prems Input q True by (intro go [of "r\<lparr>rn_input := q\<rparr>"]) (simp_all add: input_given_def)
    next
      case False
      with Cons.prems Input q show ?thesis by (intro stop) auto
    qed
  next
    case (Resize rows columns)
    obtain q r1 where q: "resize rows columns r = (q, r1)" by fastforce
    then have same: "rn_input r1 = rn_input r" "input_given r1 = input_given r"
      by (auto simp: resize_def input_given_def dest: set_window_size_keeps split: prod.splits)
    show ?thesis
    proof (cases q)
      case (Inl e)
      with Cons.prems Resize q same show ?thesis
        by (intro exI [of _ "[]"] exI [of _ "rec # recs"]) auto
    next
      case (Inr u)
      with Cons.prems Resize q same show ?thesis by (intro go [of r1]) simp_all
    qed
  qed (use Cons.prems stop in auto)
qed

section \<open>Portions\<close>

lemma frames_prefix_front: "prefix (frames (xs @ front)) (frames xs @ frames (front @ rest) @ left)"
  by (simp add: prefix_def)

text \<open>A further portion of client \<open>i\<close>, of what it sent next.\<close>

lemma accounted_portion:
  assumes "accounted user base clients ps n r" and "i < n"
    and "sent_by (clients ! i) = frames (share i ps) @ frames (front @ rest) @ left"
    and "\<forall>x \<in> set (front @ rest). valid_record x" and "peer_uid (ac_peer (clients ! i)) = Inr user"
    and "share i ps = [] \<Longrightarrow> front = [] \<or> asks_to_attach front"
    and "rn_accepts r' = rn_accepts r" and "os_uid (rn_os r') = os_uid (rn_os r)" and "bq_wf (rn_input r')"
    and "input_given r' = input_given r @ typed front"
  shows "accounted user base clients (ps @ [(i, front)]) n r'"
proof -
  have "share_ok user (clients ! k) (share k (ps @ [(i, front)]))" if "k < n" for k
  proof (cases "k = i")
    case True
    have old: "share_ok user (clients ! i) (share i ps)" using assms(1,2) by (simp add: accounted_def)
    have "prefix (frames (share i ps @ front)) (sent_by (clients ! i))"
      unfolding assms(3) by (rule frames_prefix_front)
    moreover have "share i ps @ front \<noteq> [] \<longrightarrow> asks_to_attach (share i ps @ front)"
      using old assms(6) by (cases "share i ps") (auto simp: share_ok_def asks_to_attach_def)
    ultimately show ?thesis using True old assms(4,5) by (auto simp: share_ok_def)
  next
    case False
    with that assms(1) show ?thesis by (simp add: accounted_def)
  qed
  with assms show ?thesis by (simp add: accounted_def)
qed

lemma listens_active_portion:
  assumes "\<And>c. rn_active r = Some c \<Longrightarrow> share i (ps @ [(i, front)]) \<noteq> [] \<and>
      sent_by (clients ! i) = frames (share i (ps @ [(i, front)])) @ unread c"
    and "i < n"
  shows "listens_active clients (ps @ [(i, front)]) n r"
  unfolding listens_active_def using assms by blast

lemma listens_candidate_portion:
  assumes "listens_candidate user clients ps n r" and "share i ps \<noteq> [] \<or> front = []"
  shows "listens_candidate user clients (ps @ [(i, front)]) n r"
  unfolding listens_candidate_def
proof (intro allI impI)
  fix c assume "rn_candidate r = Some c"
  with assms(1) obtain j where j: "j < n" "share j ps = []" "peer_uid (ac_peer (clients ! j)) = Inr user"
    "sent_by (clients ! j) = unread c" by (auto simp: listens_candidate_def)
  with assms(2) have "share j (ps @ [(i, front)]) = []" by (cases "i = j") auto
  with j show "\<exists>k<n. share k (ps @ [(i, front)]) = [] \<and> peer_uid (ac_peer (clients ! k)) = Inr user \<and>
      sent_by (clients ! k) = unread c" by blast
qed

section \<open>The attached client\<close>

lemma apply_same:
  assumes "apply_active_records recs r = (res, r')"
  shows "rn_accepts r' = rn_accepts r" "rn_os r' = rn_os r" "rn_active r' = rn_active r"
    "rn_candidate r' = rn_candidate r" "rn_trace r' = rn_trace r"
  using apply_active_records_fields [OF assms] by auto

lemma serve_active_account:
  assumes "serve_active r = (res, r')" and "listens user base clients r"
  shows "if is_ok res then listens user base clients r' else has_listened user base clients r'"
proof (cases "rn_active r")
  case None
  with assms show ?thesis by (auto simp: serve_active_def read_active_def io_simps)
next
  case (Some c)
  obtain q c1 where rd: "read_records c = (q, c1)" by fastforce
  let ?r = "r\<lparr>rn_active := Some c1\<rparr>"
  show ?thesis
  proof (cases q)
    case (Inl e)
    with assms(1) Some rd have r': "r' = drop_active (trace_io_error ''attachment_read_failed'' e ?r)" and ok: "is_ok res"
      by (auto simp: serve_active_def read_active_def)
    have "listens user base clients r'"
      by (rule listens_cong [OF assms(2)]) (simp_all add: r')
    with ok show ?thesis by simp
  next
    case (Inr records)
    obtain z r2 where z: "apply_active_records records ?r = (z, r2)" by fastforce
    note rr = read_records_unread [OF rd [unfolded Inr]]
    obtain ps n where ps: "accounted user base clients ps n r" "listens_active clients ps n r"
      "listens_candidate user clients ps n r" using assms(2) by (auto simp: listens_def)
    then obtain i where i: "i < n" "share i ps \<noteq> []" "sent_by (clients ! i) = frames (share i ps) @ unread c"
      using Some by (auto simp: listens_active_def)
    have "bq_wf (rn_input ?r)" using ps(1) by (simp add: accounted_def)
    from apply_active_records_front [OF z this] obtain front rest where
      front: "records = front @ rest" "input_given r2 = input_given r @ typed front" "bq_wf (rn_input r2)"
        "z = Inr True \<longrightarrow> rest = []" by auto
    have peer: "peer_uid (ac_peer (clients ! i)) = Inr user" using ps(1) i(1,2) by (auto simp: accounted_def share_ok_def)
    have acc: "accounted user base clients (ps @ [(i, front)]) n r2"
      using i rr front apply_same [OF z] peer
      by (intro accounted_portion [OF ps(1), of i front rest "unread c1"]) simp_all
    have cand: "listens_candidate user clients (ps @ [(i, front)]) n r2"
      using listens_candidate_portion [OF ps(3), of i front] i(2) apply_same [OF z]
      by (simp add: listens_candidate_def)
    show ?thesis
    proof (cases z)
      case (Inl e)
      with assms(1) Some rd Inr z have "r' = r2" "\<not> is_ok res"
        by (auto simp: serve_active_def read_active_def io_simps)
      with acc show ?thesis by (auto simp: has_listened_def)
    next
      case ok: (Inr b)
      show ?thesis
      proof (cases b)
        case True
        with assms(1) Some rd Inr z ok have r': "r' = r2" and "is_ok res"
          by (auto simp: serve_active_def read_active_def io_simps)
        moreover have "listens_active clients (ps @ [(i, front)]) n r2"
        proof (rule listens_active_portion)
          fix c' assume "rn_active r2 = Some c'"
          then have "c' = c1" using apply_same [OF z] by simp
          then show "share i (ps @ [(i, front)]) \<noteq> [] \<and>
              sent_by (clients ! i) = frames (share i (ps @ [(i, front)])) @ unread c'"
            using i rr front ok True by simp
        qed (rule i(1))
        ultimately show ?thesis using acc cand by (auto simp: listens_def)
      next
        case False
        with assms(1) Some rd Inr z ok have r': "r' = drop_active (trace_event ''attachment_input_rejected'' r2)"
          and good: "is_ok res" by (auto simp: serve_active_def read_active_def io_simps)
        have "accounted user base clients (ps @ [(i, front)]) n r'"
          using acc by (intro accounted_cong [OF acc]) (simp_all add: r' accounted_def)
        moreover have "listens_active clients (ps @ [(i, front)]) n r'" by (simp add: r' listens_active_def)
        moreover have "listens_candidate user clients (ps @ [(i, front)]) n r'"
          using cand by (simp add: r' listens_candidate_def)
        ultimately show ?thesis using good by (auto simp: listens_def)
      qed
    qed
  qed
qed

section \<open>Candidates\<close>

text \<open>The next client has been taken from the listener and nothing of it was kept.\<close>

lemma drop_eq_Cons: "drop n xs = y # ys \<Longrightarrow> n < length xs \<and> xs ! n = y \<and> drop (Suc n) xs = ys"
  by (metis Cons_nth_drop_Suc drop_all leI list.inject list.simps(3))

lemma listens_next:
  assumes "accounted user base clients ps n (r\<lparr>rn_accepts := Accepted a # as\<rparr>)"
  shows "n < length clients \<and> clients ! n = a \<and> share n ps = [] \<and>
    accounted user base clients ps (Suc n) (r\<lparr>rn_accepts := as\<rparr>)"
proof -
  have "n < length clients \<and> clients ! n = a \<and> drop (Suc n) clients = arrivals as"
    using assms by (intro drop_eq_Cons) (simp add: accounted_def)
  moreover have empty: "share n ps = []" using assms by (intro share_beyond) (simp add: accounted_def)
  moreover have "share_ok user (clients ! i) (share i ps)" if "i < Suc n" for i
    using that assms empty by (cases "i = n") (simp_all add: accounted_def)
  ultimately show ?thesis using assms by (auto simp: accounted_def)
qed

lemma listens_refused:
  assumes "listens user base clients (r\<lparr>rn_accepts := Accepted a # as\<rparr>)"
  shows "listens user base clients (r\<lparr>rn_accepts := as\<rparr>)"
proof -
  obtain ps n where ps: "accounted user base clients ps n (r\<lparr>rn_accepts := Accepted a # as\<rparr>)"
    "listens_active clients ps n r" "listens_candidate user clients ps n r"
    using assms by (auto simp: listens_def listens_active_def listens_candidate_def)
  have "listens_active clients ps (Suc n) (r\<lparr>rn_accepts := as\<rparr>)"
    using ps(2) by (auto simp: listens_active_def intro: less_SucI)
  moreover have "listens_candidate user clients ps (Suc n) (r\<lparr>rn_accepts := as\<rparr>)"
    using ps(3) by (auto simp: listens_candidate_def intro: less_SucI)
  ultimately show ?thesis using listens_next [OF ps(1)] by (auto simp: listens_def)
qed

lemma listens_admitted:
  assumes "listens user base clients (r\<lparr>rn_accepts := Accepted a # as\<rparr>)" and "peer_uid (ac_peer a) = Inr user"
  shows "listens user base clients
    ((drop_candidate r)\<lparr>rn_candidate := Some (connection_new (accepted_stream a)), rn_accepts := as\<rparr>)"
    (is "listens user base clients ?r")
proof -
  obtain ps n where ps: "accounted user base clients ps n (r\<lparr>rn_accepts := Accepted a # as\<rparr>)"
    "listens_active clients ps n r"
    using assms by (auto simp: listens_def listens_active_def)
  note nx = listens_next [OF ps(1)]
  from nx have acc: "accounted user base clients ps (Suc n) (r\<lparr>rn_accepts := as\<rparr>)" by simp
  have wf: "bq_wf (rn_input ?r)" using ps(1) by (simp add: accounted_def)
  have "accounted user base clients ps (Suc n) ?r"
    by (rule accounted_cong [OF acc _ _ wf]) simp_all
  moreover have "listens_active clients ps (Suc n) ?r"
    using ps(2) by (auto simp: listens_active_def intro: less_SucI)
  moreover have "sent_by a = unread (connection_new (accepted_stream a))"
    by (simp add: sent_by_def unread_def connection_new_def accepted_stream_def decoder_default_def)
  then have "listens_candidate user clients ps (Suc n) ?r"
    using nx assms(2) by (auto simp: listens_candidate_def)
  ultimately show ?thesis by (auto simp: listens_def)
qed

lemma accept_loop_account:
  "accept_loop as r = (res, r') \<Longrightarrow> listens user base clients (r\<lparr>rn_accepts := as\<rparr>) \<Longrightarrow>
   listens user base clients r'"
proof (induction as r arbitrary: res r' rule: accept_loop.induct)
  case (1 r)
  then show ?case by simp
next
  case (2 e as r)
  have "listens user base clients (r\<lparr>rn_accepts := as\<rparr>)"
    using "2.prems"(2) by (simp add: listens_def accounted_def listens_active_def listens_candidate_def)
  with "2.prems"(1) show ?case by (auto split: if_splits)
next
  case (3 a as r)
  note refused = listens_refused [OF "3.prems"(2)]
  have user: "user = os_uid (rn_os r)" using "3.prems"(2) by (auto simp: listens_def accounted_def)
  show ?case
  proof (cases "peer_uid (ac_peer a)")
    case (Inl e)
    with "3.prems"(1) refused show ?thesis by auto
  next
    case (Inr peer)
    show ?thesis
    proof (cases "peer = os_uid (rn_os r)")
      case False
      let ?r = "trace_event ''candidate_peer_rejected'' r"
      have "listens user base clients (?r\<lparr>rn_accepts := as\<rparr>)"
        by (rule listens_cong [OF refused]) simp_all
      moreover have "accept_loop as ?r = (res, r')" using "3.prems"(1) Inr False by simp
      ultimately show ?thesis using "3.IH"(1) [OF Inr] False by simp
    next
      case same: True
      show ?thesis
      proof (cases "ac_nonblocking a")
        case (Inl e)
        with "3.prems"(1) Inr same refused show ?thesis by auto
      next
        case (Inr u)
        let ?r1 = "if rn_candidate r \<noteq> None then trace_event ''candidate_replaced'' r else r"
        let ?r2 = "trace_event ''candidate_accepted'' ?r1"
        let ?r3 = "(drop_candidate ?r2)\<lparr>rn_candidate := Some (connection_new (accepted_stream a))\<rparr>"
        have "listens user base clients (?r2\<lparr>rn_accepts := Accepted a # as\<rparr>)"
          by (rule listens_cong [OF "3.prems"(2)]) (simp_all split: if_split_asm)
        then have "listens user base clients (?r3\<lparr>rn_accepts := as\<rparr>)"
          using listens_admitted \<open>peer_uid (ac_peer a) = Inr peer\<close> same user by simp
        moreover have "accept_loop as ?r3 = (res, r')"
          using "3.prems"(1) \<open>peer_uid (ac_peer a) = Inr peer\<close> same Inr by (simp add: Let_def)
        ultimately show ?thesis using "3.IH"(2) [OF \<open>peer_uid (ac_peer a) = Inr peer\<close> _ Inr] same by simp
      qed
    qed
  qed
qed

text \<open>The candidate is gone, and nothing was given to the process.\<close>

lemma listens_drop_new_candidate:
  assumes "listens user base clients r"
  shows "listens user base clients (drop_candidate (trace_io_error ev e (r\<lparr>rn_candidate := x\<rparr>)))"
  by (rule listens_cong [OF assms]) simp_all

lemma resize_same:
  assumes "resize rows columns r = (res, r')"
  shows "rn_accepts r' = rn_accepts r" "rn_os r' = rn_os r" "rn_active r' = rn_active r"
    "rn_candidate r' = rn_candidate r" "rn_input r' = rn_input r" "input_given r' = input_given r"
  using assms by (auto simp: resize_def input_given_def dest: set_window_size_keeps split: prod.splits)

lemma activate_same [simp]:
  "rn_accepts (activate c r) = rn_accepts r" "os_uid (rn_os (activate c r)) = os_uid (rn_os r)"
  "rn_input (activate c r) = rn_input r" "rn_active (activate c r) = Some c"
  "rn_candidate (activate c r) = rn_candidate r" "input_given (activate c r) = input_given r"
  by (simp_all add: activate_def Let_def)

lemma write_attached_account:
  assumes "write_attached js b r = (res, r')" and "listens user base clients r"
  shows "listens user base clients r'"
proof -
  obtain s where "r' = r\<lparr>rn_os := s\<rparr>" "os_uid s = os_uid (rn_os r)"
    using on_os_result [OF touches_all_writes(1)] assms(1) unfolding write_attached_def by blast
  then show ?thesis by (intro listens_cong [OF assms(2)]) simp_all
qed

lemma enqueue_replay_decoder:
  "enqueue_replay t c = (res, c') \<Longrightarrow> c_decoder c' = c_decoder c \<and> c_stream c' = c_stream c"
proof -
  have chunks: "enqueue_chunks ps c = (q, c1) \<Longrightarrow> c_decoder c1 = c_decoder c \<and> c_stream c1 = c_stream c" for ps c q c1
    by (induction ps arbitrary: c) (auto split: sum.splits prod.splits bool.splits)
  show "enqueue_replay t c = (res, c') \<Longrightarrow> c_decoder c' = c_decoder c \<and> c_stream c' = c_stream c"
    by (auto simp: enqueue_replay_def enqueue_output_def io_simps split: if_splits prod.splits sum.splits
        dest!: chunks)
qed

text \<open>What a candidate sent after its request is given to the process, all of it if it becomes active.\<close>

lemma attach_account:
  assumes "accounted user base clients ps n r" and "listens_active clients ps n r" and "i < n"
    and "share i ps = []" and "peer_uid (ac_peer (clients ! i)) = Inr user"
    and "sent_by (clients ! i) = frames (Attach rows columns # remaining) @ unread c"
    and "\<forall>x \<in> set (Attach rows columns # remaining). valid_record x"
    and "rn_candidate r = Some c" and "attach_candidate js rows columns remaining r = (res, r')"
  shows "listens user base clients r'"
proof -
  let ?r = "r\<lparr>rn_candidate := None\<rparr>"
  have none: "listens user base clients (r1\<lparr>rn_closed := c' # rn_closed r1\<rparr>)"
    if "rn_accepts r1 = rn_accepts r" "os_uid (rn_os r1) = os_uid (rn_os r)" "rn_active r1 = rn_active r"
      "rn_candidate r1 = None" "bq_wf (rn_input r1)" "accounted user base clients qs n r1"
      "qs = ps \<or> qs = ps @ [(i, front)]" for r1 c' qs front
  proof -
    note same = that
    have "accounted user base clients qs n (r1\<lparr>rn_closed := c' # rn_closed r1\<rparr>)"
      using that(5) by (intro accounted_cong [OF that(6)]) simp_all
    moreover have "listens_active clients qs n (r1\<lparr>rn_closed := c' # rn_closed r1\<rparr>)"
      unfolding listens_active_def
    proof (intro allI impI)
      fix x assume "rn_active (r1\<lparr>rn_closed := c' # rn_closed r1\<rparr>) = Some x"
      then obtain j where j: "j < n" "share j ps \<noteq> []" "sent_by (clients ! j) = frames (share j ps) @ unread x"
        using assms(2) same(3) by (auto simp: listens_active_def)
      then have "j \<noteq> i" using assms(4) by auto
      then have "share j qs = share j ps" using same(7) by auto
      with j show "\<exists>k<n. share k qs \<noteq> [] \<and> sent_by (clients ! k) = frames (share k qs) @ unread x" by auto
    qed
    moreover have "listens_candidate user clients qs n (r1\<lparr>rn_closed := c' # rn_closed r1\<rparr>)"
      using that(4) by (simp add: listens_candidate_def)
    ultimately show ?thesis by (auto simp: listens_def)
  qed
  obtain q r1 where rs: "resize rows columns ?r = (q, r1)" by fastforce
  note same1 = resize_same [OF rs, simplified]
  have wf1: "bq_wf (rn_input r1)" using assms(1) same1 by (simp add: accounted_def)
  have acc1: "accounted user base clients ps n r1"
    using wf1 same1 by (intro accounted_cong [OF assms(1)]) simp_all
  show ?thesis
  proof (cases q)
    case (Inl e)
    with assms(8,9) rs have "r' = r1\<lparr>rn_closed := c # rn_closed r1\<rparr>" by (simp add: attach_candidate_def Let_def)
    then show ?thesis using none [of r1 ps _ c] same1 wf1 acc1 by simp
  next
    case (Inr u)
    obtain p c' where e: "enqueue_replay (rn_tail r1) c = (p, c')" by fastforce
    show ?thesis
    proof (cases p)
      case (Inl e1)
      with assms(8,9) rs Inr e have "r' = r1\<lparr>rn_closed := c' # rn_closed r1\<rparr>" by (simp add: attach_candidate_def Let_def)
      then show ?thesis using none [of r1 ps _ c'] same1 wf1 acc1 by simp
    next
      case ok: (Inr v)
      obtain z r2 where z: "apply_active_records remaining r1 = (z, r2)" by fastforce
      note same2 = apply_same [OF z]
      from apply_active_records_front [OF z wf1] obtain front rest where front: "remaining = front @ rest"
        "input_given r2 = input_given r1 @ typed front" "bq_wf (rn_input r2)" "z = Inr True \<longrightarrow> rest = []" by blast
      let ?front = "Attach rows columns # front"
      have acc2: "accounted user base clients (ps @ [(i, ?front)]) n r2"
        using assms(3-7) front same1 same2
        by (intro accounted_portion [OF assms(1), of i ?front rest "unread c"]) (simp_all add: asks_to_attach_def)
      have r': "(res, r') = (case z of
          Inl e \<Rightarrow> (Inl e, r2\<lparr>rn_closed := c' # rn_closed r2\<rparr>)
        | Inr ok \<Rightarrow> if ok then write_attached js True (activate c' r2)
                    else (Inr (), r2\<lparr>rn_closed := c' # rn_closed r2\<rparr>))"
        using assms(8,9) rs Inr e ok z by (simp add: attach_candidate_def Let_def split: sum.splits bool.splits)
      show ?thesis
      proof (cases "z = Inr True")
        case False
        then have "r' = r2\<lparr>rn_closed := c' # rn_closed r2\<rparr>" using r' by (cases z) auto
        then show ?thesis using none [of r2 "ps @ [(i, ?front)]" ?front c'] same1 same2 front(3) acc2 by simp
      next
        case True
        then have w: "write_attached js True (activate c' r2) = (res, r')" using r' by simp
        have "unread c' = unread c" using enqueue_replay_decoder [OF e] by (simp add: unread_def)
        then have "listens_active clients (ps @ [(i, ?front)]) n (activate c' r2)"
          using assms(3,4,6) front(1,4) True by (intro listens_active_portion) simp_all
        moreover have "accounted user base clients (ps @ [(i, ?front)]) n (activate c' r2)"
          using front(3) by (intro accounted_cong [OF acc2]) simp_all
        moreover have "listens_candidate user clients (ps @ [(i, ?front)]) n (activate c' r2)"
          using same1 same2 by (simp add: listens_candidate_def)
        ultimately have "listens user base clients (activate c' r2)" by (auto simp: listens_def)
        with w show ?thesis by (rule write_attached_account)
      qed
    qed
  qed
qed

lemma candidate_records_cases:
  assumes "candidate_records js records r = (res, r')"
  obtains "records = []" "r' = r"
  | ev where "r' = drop_candidate (trace_event ev r)"
  | ev where "r' = (drop_candidate (trace_event ev r))\<lparr>rn_stop := True\<rparr>"
  | rows columns remaining where "records = Attach rows columns # remaining"
      "attach_candidate js rows columns remaining r = (res, r')"
proof (cases records)
  case Nil
  with assms that(1) show thesis by (simp add: candidate_records_def)
next
  case (Cons x xs)
  show thesis
  proof (cases x)
    case (Attach rows columns)
    with assms Cons that(4) show thesis by (simp add: candidate_records_def)
  next
    case Stop
    with assms Cons that(2,3) show thesis by (cases xs) (auto simp: candidate_records_def)
  qed (use assms Cons that(2) in \<open>auto simp: candidate_records_def\<close>)
qed

lemma candidate_step_account:
  assumes "candidate_step js r = (res, r')" and "listens user base clients r"
  shows "listens user base clients r'"
proof (cases "rn_candidate r")
  case None
  with assms show ?thesis by (simp add: candidate_step_def read_candidate_def candidate_records_def)
next
  case (Some c)
  obtain q c1 where rd: "read_records c = (q, c1)" by fastforce
  let ?r = "r\<lparr>rn_candidate := Some c1\<rparr>"
  show ?thesis
  proof (cases q)
    case (Inl e)
    with assms(1) Some rd have "r' = drop_candidate (trace_io_error ''candidate_read_failed'' e ?r)"
      by (simp add: candidate_step_def read_candidate_def)
    with listens_drop_new_candidate [OF assms(2)] show ?thesis by simp
  next
    case (Inr records)
    note rr = read_records_unread [OF rd [unfolded Inr]]
    have go: "candidate_records js records ?r = (res, r')"
      using assms(1) Some rd Inr by (simp add: candidate_step_def read_candidate_def)
    have dropped: "listens user base clients (drop_candidate (trace_event ev ?r))"
      "listens user base clients ((drop_candidate (trace_event ev ?r))\<lparr>rn_stop := True\<rparr>)" for ev
      by (rule listens_cong [OF assms(2)]; simp)+
    from go show ?thesis
    proof (cases rule: candidate_records_cases)
      case 1
      with rr Some show ?thesis by (intro listens_cong [OF assms(2)]) simp_all
    next
      case (2 ev)
      with dropped show ?thesis by simp
    next
      case (3 ev)
      with dropped show ?thesis by simp
    next
      case (4 rows columns remaining)
      obtain ps n where ps: "accounted user base clients ps n r" "listens_active clients ps n r"
        "listens_candidate user clients ps n r" using assms(2) by (auto simp: listens_def)
      then obtain i where i: "i < n" "share i ps = []" "peer_uid (ac_peer (clients ! i)) = Inr user"
        "sent_by (clients ! i) = unread c" using Some by (auto simp: listens_candidate_def)
      show ?thesis
      proof (rule attach_account [OF _ _ i(1-3) _ _ _ 4(2)])
        show "accounted user base clients ps n ?r"
          using ps(1) by (intro accounted_cong [OF ps(1)]) (simp_all add: accounted_def)
        show "listens_active clients ps n ?r" using ps(2) by (simp add: listens_active_def)
        show "sent_by (clients ! i) = frames (Attach rows columns # remaining) @ unread c1"
          using i(4) rr 4(1) by simp
        show "\<forall>x \<in> set (Attach rows columns # remaining). valid_record x" using rr 4(1) by simp
      qed simp
    qed
  qed
qed

section \<open>Ticks\<close>

lemma deliver_same [simp]:
  "rn_accepts (deliver bytes r) = rn_accepts r" "rn_os (deliver bytes r) = rn_os r"
  "rn_input (deliver bytes r) = rn_input r" "rn_candidate (deliver bytes r) = rn_candidate r"
  by (auto simp: deliver_def Let_def split: option.splits prod.splits sum.splits)

lemma enqueue_output_same:
  "enqueue_output bytes c = (res, c') \<Longrightarrow> c_decoder c' = c_decoder c \<and> c_stream c' = c_stream c"
proof -
  have "enqueue_chunks ps c = (res, c') \<Longrightarrow> c_decoder c' = c_decoder c \<and> c_stream c' = c_stream c" for ps
    by (induction ps arbitrary: c) (auto split: sum.splits prod.splits bool.splits)
  then show "enqueue_output bytes c = (res, c') \<Longrightarrow> c_decoder c' = c_decoder c \<and> c_stream c' = c_stream c"
    by (simp add: enqueue_output_def)
qed

lemma deliver_active:
  "rn_active (deliver bytes r) = Some c' \<Longrightarrow> \<exists>c. rn_active r = Some c \<and> unread c' = unread c"
  by (auto simp: deliver_def Let_def unread_def split: option.splits prod.splits sum.splits
      dest!: enqueue_output_same)

lemma reader_same [simp]:
  "rn_accepts (set_pty_reader rd r) = rn_accepts r" "rn_os (set_pty_reader rd r) = rn_os r"
  "rn_input (set_pty_reader rd r) = rn_input r" "rn_active (set_pty_reader rd r) = rn_active r"
  "rn_candidate (set_pty_reader rd r) = rn_candidate r"
  by (simp_all add: set_pty_reader_def)

lemma deliver_account:
  assumes "listens user base clients r"
  shows "listens user base clients (deliver bytes (set_pty_reader rd r))"
  by (rule listens_cong [OF assms]) (auto dest: deliver_active)

lemma flush_input_account:
  assumes "listens user base clients r"
  shows "listens user base clients (flush_input r)"
proof -
  obtain res q w where f: "bq_flush (rn_input r, pty_out (rn_master r)) = (res, (q, w))" by (metis surj_pair)
  let ?r = "r\<lparr>rn_input := q, rn_master := (rn_master r)\<lparr>pty_out := w\<rparr>\<rparr>"
  have "input_given ?r = input_given r" using bq_flush_conserves [OF f] by (simp add: input_given_def)
  moreover have "bq_wf q" if "bq_wf (rn_input r)" using bq_flush_wf [OF f that] .
  ultimately have 1: "listens user base clients ?r" by (intro listens_cong [OF assms]) simp_all
  show ?thesis
  proof (cases res)
    case (Inl e)
    have "listens user base clients (drop_active (trace_io_error ''pty_input_write_failed'' e ?r))"
      by (rule listens_cong [OF 1]) simp_all
    with f Inl show ?thesis by (simp add: flush_input_def)
  next
    case (Inr u)
    with f 1 show ?thesis by (simp add: flush_input_def)
  qed
qed

lemma flush_active_account:
  assumes "listens user base clients r"
  shows "listens user base clients (flush_active r)"
proof (cases "rn_active r")
  case None
  with assms show ?thesis by (simp add: flush_active_def)
next
  case (Some c)
  obtain res c' where f: "flush_connection c = (res, c')" by fastforce
  have same: "unread c' = unread c"
    using f by (auto simp: flush_connection_def unread_def split: prod.splits)
  show ?thesis
    by (rule listens_cong [OF assms])
      (use Some f same in \<open>cases res; simp add: flush_active_def\<close>)+
qed

lemma drop_files_account:
  assumes "has_listened user base clients r"
  shows "has_listened user base clients (drop_candidate (drop_active (drop_files r)))"
proof -
  obtain ps n where ps: "accounted user base clients ps n r" using assms by (auto simp: has_listened_def)
  obtain s where s: "drop_files r = r\<lparr>rn_os := s\<rparr>" "os_uid s = os_uid (rn_os r)"
    using on_os_result [OF touches_all_writes(4) prod.collapse [symmetric]] unfolding drop_files_def by blast
  have "accounted user base clients ps n (drop_candidate (drop_active (drop_files r)))"
    using ps s by (intro accounted_cong [OF ps]) (simp_all add: accounted_def)
  then show ?thesis by (auto simp: has_listened_def)
qed

interpretation listening: runner_relation
  "\<lambda>r r'. \<forall>user base clients. listens user base clients r \<longrightarrow> listens user base clients r'"
  "\<lambda>r r'. \<forall>user base clients. listens user base clients r \<longrightarrow> has_listened user base clients r'"
proof (unfold_locales, goal_cases)
  case (3 s r t)
  then show ?case by (intro allI impI, elim listens_cong) simp_all
next
  case (4 r ch now)
  then show ?case by (intro allI impI, elim listens_cong) simp_all
next
  case (5 r)
  then show ?case by (intro allI impI, elim listens_cong) simp_all
next
  case (6 r)
  then show ?case by (intro allI impI, elim listens_cong) simp_all
next
  case (7 r q rd)
  show ?case by (intro allI impI, elim listens_cong) simp_all
next
  case (11 r u r')
  then show ?case using serve_active_account [OF 11] by simp
next
  case (12 r e r')
  then show ?case using serve_active_account [OF 12] by simp
next
  case (13 r res r')
  then show ?case using accept_loop_account [of "rn_accepts r" r] by (simp add: accept_candidate_def)
next
  case (8 r bytes rd)
  show ?case by (simp add: deliver_account)
next
  case (9 r)
  show ?case by (simp add: flush_input_account)
next
  case (10 r)
  show ?case by (simp add: flush_active_account)
next
  case (14 js r res r')
  then show ?case using candidate_step_account [OF 14] by simp
next
  case (15 r r')
  then show ?case by (simp add: listens_has)
next
  case (17 r r1)
  then show ?case by (simp add: drop_files_account)
qed simp_all

section \<open>Properties\<close>

lemma fresh_listens:
  assumes "fresh_runner r"
  shows "listens (os_uid (rn_os r)) (input_given r) (arrivals (rn_accepts r)) r"
  unfolding listens_def
proof (intro exI conjI)
  show "accounted (os_uid (rn_os r)) (input_given r) (arrivals (rn_accepts r)) [] 0 r"
    using assms by (simp add: accounted_def fresh_runner_def)
qed (use assms in \<open>simp_all add: listens_active_def listens_candidate_def fresh_runner_def\<close>)

lemma run_accounts:
  assumes "fresh_runner r0" and "run_event_loop js answers r0 = (out, r)"
  shows "has_listened (os_uid (rn_os r0)) (input_given r0) (arrivals (rn_accepts r0)) r"
proof -
  note start = fresh_listens [OF assms(1)]
  have out: "listening.comes_out out r0 r" by (rule listening.loop_out [OF assms(2)])
  show ?thesis
  proof (cases "out = Returns (Inr ())")
    case False
    with out start show ?thesis by (auto simp: listening.comes_out_def listens_has split: if_splits)
  next
    case True
    then obtain r1 exit where r1: "\<forall>user base clients. listens user base clients r0 \<longrightarrow> listens user base clients r1"
      "r = drop_candidate (drop_active (r1\<lparr>rn_active := map_option (farewell exit) (rn_active r1)\<rparr>))"
      using out unfolding listening.comes_out_def by auto
    then have 1: "listens (os_uid (rn_os r0)) (input_given r0) (arrivals (rn_accepts r0)) r1" using start by blast
    have "listens (os_uid (rn_os r0)) (input_given r0) (arrivals (rn_accepts r0)) r"
      by (rule listens_cong [OF 1]) (simp_all add: r1(2))
    then show ?thesis by (rule listens_has)
  qed
qed

text \<open>
  C7: Whatever happened, the input the managed process has been given or will be given next
  consists of input records of the clients that asked to attach, all of them processes of the
  user: of each client it is the input among the first records it sent, in order, and nothing
  comes from a connection of somebody else or from one that did not attach.
\<close>

theorem process_hears_attaching_clients:
  assumes "fresh_runner r0" and "run_event_loop js answers r0 = (out, r)"
  shows "\<exists>ps. input_given r = input_given r0 @ typed (applied ps) \<and>
    (\<forall>(i, rs) \<in> set ps. i < length (arrivals (rn_accepts r0))) \<and>
    (\<forall>i < length (arrivals (rn_accepts r0)). let client = arrivals (rn_accepts r0) ! i in
       prefix (frames (share i ps)) (sent_by client) \<and> (\<forall>x \<in> set (share i ps). valid_record x) \<and>
       (share i ps \<noteq> [] \<longrightarrow> peer_uid (ac_peer client) = Inr (os_uid (rn_os r0)) \<and>
          (\<exists>rows columns rest. share i ps = Attach rows columns # rest)))"
proof -
  let ?clients = "arrivals (rn_accepts r0)"
  obtain ps n where ps: "accounted (os_uid (rn_os r0)) (input_given r0) ?clients ps n r"
    using run_accounts [OF assms] by (auto simp: has_listened_def)
  have ok: "share_ok (os_uid (rn_os r0)) (?clients ! i) (share i ps)" if "i < length ?clients" for i
  proof (cases "i < n")
    case True
    with ps show ?thesis by (simp add: accounted_def)
  next
    case False
    with ps have "share i ps = []" by (intro share_beyond) (auto simp: accounted_def)
    then show ?thesis by simp
  qed
  have "\<forall>(i, rs) \<in> set ps. i < length ?clients"
    using ps by (auto simp: accounted_def)
  moreover have "input_given r = input_given r0 @ typed (applied ps)" using ps by (simp add: accounted_def)
  ultimately show ?thesis
    using ok by (intro exI [of _ ps]) (simp add: share_ok_def asks_to_attach_def Let_def)
qed

lemma process_hears_attaching_clients_witness:
  "\<exists>r ps. run_event_loop sample_json [poll_accept, poll_candidate] sample_runner = (Again, r) \<and>
     input_given r = typed (applied ps) \<and> prefix (frames (share 0 ps)) (record_frame (Attach 24 80))"
proof -
  obtain r c where r: "run_event_loop sample_json [poll_accept, poll_candidate] sample_runner = (Again, r)"
    by (rule sample_run)
  have "arrivals (rn_accepts sample_runner) = [sample_client]" "input_given sample_runner = []"
    "sent_by sample_client = record_frame (Attach 24 80)"
    by (simp_all add: sample_runner_def input_given_def vec_writer_def sent_by_def sample_client_def)
  with process_hears_attaching_clients [OF sample_runner_fresh r] r show ?thesis by (auto simp: Let_def)
qed

end
