(* ===== verification/Session_Input.thy ===== *)
theory Session_Input
  imports Runner_Input Attach_Input
begin

text \<open>
  An attachment and the runner at the other end of its connection, the other way round: what
  is typed at the one is what the other gives to the managed process.
\<close>

section \<open>One client\<close>

lemma share_single: "\<forall>p \<in> set ps. fst p = i \<Longrightarrow> share i ps = applied ps"
  by (simp add: share_def applied_def)

text \<open>All that one client has had applied is the beginning of what its records decode to.\<close>

lemma single_client_share:
  assumes "accounted user base [client] ps n r"
  shows "input_given r = base @ typed (applied ps) \<and> prefix (frames (applied ps)) (sent_by client) \<and>
    (\<forall>x \<in> set (applied ps). valid_record x) \<and> share 0 ps = applied ps"
proof -
  have "\<forall>p \<in> set ps. fst p = 0" using assms by (fastforce simp: accounted_def)
  moreover have "n = 0 \<longrightarrow> ps = []" using assms by (cases ps) (auto simp: accounted_def)
  ultimately have "share 0 ps = applied ps" "n = 0 \<longrightarrow> applied ps = []" by (simp_all add: share_single)
  then show ?thesis using assms by (cases "n = 0") (auto simp: accounted_def share_ok_def)
qed

lemma typed_prefix: "prefix rs all \<Longrightarrow> prefix (typed rs) (typed all)"
  by (auto simp: prefix_def)

lemma frames_inject:
  assumes "\<forall>x \<in> set rs. valid_record x" and "\<forall>x \<in> set qs. valid_record x" and "frames rs = frames qs"
  shows "rs = qs"
proof -
  have all: "decode_all \<lparr>buffer = frames ps\<rparr> = (Inr ps, \<lparr>buffer = []\<rparr>)" if "\<forall>x \<in> set ps. valid_record x" for ps
    using ipc.drain_frames [OF that, of "[]"] ipc.next_nil by (simp add: decode_all_ipc_drain frames_def)
  from all [OF assms(1)] all [OF assms(2)] assms(3) have "(Inr rs :: decode_error + ipc_record list) = Inr qs"
    by (metis prod.inject)
  then show ?thesis by simp
qed

text \<open>An attached client with nothing left to decode has had all its input applied.\<close>

lemma everything_applied:
  assumes "listens user base [client] r" and "rn_active r = Some c" and "unread c = []"
  obtains rs where "input_given r = base @ typed rs" "sent_by client = frames rs" "\<forall>x \<in> set rs. valid_record x"
proof -
  obtain ps n where ps: "accounted user base [client] ps n r" "listens_active [client] ps n r"
    using assms(1) by (auto simp: listens_def)
  have "n \<le> 1" using ps(1) by (simp add: accounted_def)
  moreover obtain i where i: "i < n" "sent_by ([client] ! i) = frames (share i ps)"
    using ps(2) assms(2,3) by (auto simp: listens_active_def)
  ultimately have "i = 0" by simp
  then show thesis using that [of "applied ps"] i single_client_share [OF ps(1)] by simp
qed

section \<open>Properties\<close>


text \<open>The sample attachment has sent its request and three bytes of input.\<close>

definition typing_client :: "byte list \<Rightarrow> accepted" where
  "typing_client bytes = sample_client\<lparr>ac_in := \<lparr>read_plan = [Data bytes], when_dry = Would_block\<rparr>\<rparr>"


end
