(* ===== verification/Registry_Spec.thy ===== *)
theory Registry_Spec
  imports Registry_Sessions
begin

text \<open>
  What the registry is, without paths, files, modes, renames or errors: the record and the
  output of each session, and the time.  Records and output are written; what goes is the
  record of a live session and the record and output of a completed one that has outlived its
  retention, and nothing else.
\<close>

record store =
  st_record :: "session_id \<Rightarrow> session_metadata option"
  st_output :: "session_id \<Rightarrow> byte list option"
  st_now :: int

datatype store_event =
    Recorded session_id session_metadata
  | Kept session_id "byte list"
  | Forgotten session_id
  | Discarded session_id
  | Clock int

definition outlived :: "session_metadata \<Rightarrow> int \<Rightarrow> bool" where
  "outlived m now \<longleftrightarrow> 0 \<le> now \<and> is_expired m (word_of_int now)"

fun may_go :: "session_metadata \<Rightarrow> int \<Rightarrow> bool" where
  "may_go (Live m) now = True"
| "may_go (Completed m) now = outlived (Completed m) now"

inductive store_step :: "store \<Rightarrow> store_event \<Rightarrow> store \<Rightarrow> bool" where
  recorded: "store_step st (Recorded sid m) (st\<lparr>st_record := (st_record st)(sid := Some m)\<rparr>)"
| kept: "store_step st (Kept sid out) (st\<lparr>st_output := (st_output st)(sid := Some out)\<rparr>)"
| forgotten: "st_record st sid = Some m \<Longrightarrow> may_go m (st_now st) \<Longrightarrow>
    store_step st (Forgotten sid) (st\<lparr>st_record := (st_record st)(sid := None)\<rparr>)"
| discarded: "st_record st sid = Some m \<Longrightarrow> outlived m (st_now st) \<Longrightarrow>
    store_step st (Discarded sid) (st\<lparr>st_output := (st_output st)(sid := None)\<rparr>)"
| clock: "store_step st (Clock now) (st\<lparr>st_now := now\<rparr>)"

inductive_cases store_stepE: "store_step st e st'"

inductive store_run :: "store \<Rightarrow> store_event list \<Rightarrow> store \<Rightarrow> bool" where
  none: "store_run st [] st"
| more: "store_step st e st1 \<Longrightarrow> store_run st1 es st2 \<Longrightarrow> store_run st (e # es) st2"

inductive_simps store_run_Nil [simp]: "store_run st [] st'"
inductive_simps store_run_Cons: "store_run st (e # es) st'"

lemma store_run_one: "store_step st e st' \<Longrightarrow> store_run st [e] st'"
  by (simp add: store_run_Cons)

lemma store_run_append: "store_run st es st1 \<Longrightarrow> store_run st1 fs st2 \<Longrightarrow> store_run st (es @ fs) st2"
  by (induction rule: store_run.induct) (simp_all add: store_run.more)

section \<open>Retention\<close>

lemma outlived_retention:
  "outlived (Completed m) now \<Longrightarrow> int (unat (cs_finished_at m)) + 86400 \<le> now"
proof -
  assume o: "outlived (Completed m) now"
  then have "unat (cs_finished_at m) + 86400 \<le> unat (word_of_int now :: u64)"
    by (simp add: outlived_def expired_iff del: is_expired.simps)
  moreover have "int (unat (word_of_int now :: u64)) \<le> now"
    using o by (simp add: outlived_def unsigned_of_int take_bit_int_less_eq_self_iff)
  ultimately show ?thesis by linarith
qed

text \<open>The record and the output of a completed session stay until the retention is over.\<close>

definition retained :: "session_id \<Rightarrow> completed_session \<Rightarrow> byte list option \<Rightarrow> store \<Rightarrow> bool" where
  "retained sid m out st \<longleftrightarrow>
     st_record st sid = Some (Completed m) \<and> st_output st sid = out \<and>
     st_now st < int (unat (cs_finished_at m)) + 86400"

fun leaves_alone :: "session_id \<Rightarrow> completed_session \<Rightarrow> store_event \<Rightarrow> bool" where
  "leaves_alone sid m (Recorded sid' m') = (sid' \<noteq> sid)"
| "leaves_alone sid m (Kept sid' out) = (sid' \<noteq> sid)"
| "leaves_alone sid m (Clock now) = (now < int (unat (cs_finished_at m)) + 86400)"
| "leaves_alone sid m _ = True"

lemma retained_step:
  assumes "store_step st e st'" and "retained sid m out st" and "leaves_alone sid m e"
  shows "retained sid m out st'"
proof -
  have young: "\<not> outlived (Completed m) (st_now st)"
    using assms(2) outlived_retention [of m "st_now st"] by (auto simp: retained_def)
  from assms(1) show ?thesis
    using assms(2,3) young by (cases rule: store_step.cases) (auto simp: retained_def split: if_splits)
qed

lemma retained_run:
  "store_run st es st' \<Longrightarrow> retained sid m out st \<Longrightarrow> \<forall>e \<in> set es. leaves_alone sid m e \<Longrightarrow>
   retained sid m out st'"
  by (induction rule: store_run.induct) (simp_all add: retained_step)

end
