(* ===== verification/Registry_Refinement.thy ===== *)
theory Registry_Refinement
  imports Registry_Spec Simulation
begin

text \<open>
  The operations of src/registry.rs refine the store of \<open>Registry_Spec\<close>: in any order, from
  any processes of the user, and whatever the file system refuses, what they do to the
  runtime directory is what some events do to the store.
\<close>

section \<open>The operations\<close>

datatype registry_op =
    Op_connect session_id
  | Op_read session_id
  | Op_read_output session_id
  | Op_list
  | Op_cleanup
  | Op_bind session_id
  | Op_write session_id session_metadata
  | Op_write_output session_id "byte list"
  | Op_remove_live session_id
  | Op_drop session_id
  | Op_clock int
  | Op_process u32

text \<open>What an operation leaves of the state: the time passes, or another process has its turn.\<close>

fun perform :: "json \<Rightarrow> registry \<Rightarrow> registry_op \<Rightarrow> os \<Rightarrow> os" where
  "perform js reg (Op_connect sid) s = snd (connect reg sid s)"
| "perform js reg (Op_read sid) s = snd (read_metadata js reg sid s)"
| "perform js reg (Op_read_output sid) s = snd (read_output reg sid s)"
| "perform js reg Op_list s = snd (list_sessions js reg s)"
| "perform js reg Op_cleanup s = snd (cleanup_expired js reg s)"
| "perform js reg (Op_bind sid) s = snd (bind_session js reg sid s)"
| "perform js reg (Op_write sid m) s = snd (write_metadata js (paths_of reg sid) m s)"
| "perform js reg (Op_write_output sid out) s = snd (write_output (paths_of reg sid) out s)"
| "perform js reg (Op_remove_live sid) s = snd (remove_live_files (paths_of reg sid) s)"
| "perform js reg (Op_drop sid) s = snd (drop_session_files (paths_of reg sid) s)"
| "perform js reg (Op_clock now) s = s\<lparr>clock := now\<rparr>"
| "perform js reg (Op_process pid) s = s\<lparr>os_pid := pid\<rparr>"

definition performs :: "json \<Rightarrow> registry \<Rightarrow> registry_op list \<Rightarrow> os \<Rightarrow> os" where
  "performs js reg ops s = fold (perform js reg) ops s"

fun op_session :: "registry_op \<Rightarrow> session_id option" where
  "op_session (Op_connect sid) = Some sid"
| "op_session (Op_read sid) = Some sid"
| "op_session (Op_read_output sid) = Some sid"
| "op_session (Op_bind sid) = Some sid"
| "op_session (Op_write sid m) = Some sid"
| "op_session (Op_write_output sid out) = Some sid"
| "op_session (Op_remove_live sid) = Some sid"
| "op_session (Op_drop sid) = Some sid"
| "op_session _ = None"

text \<open>Sessions have proper identifiers, and serde\_json reads back the records it is to write.\<close>

definition op_ok :: "json \<Rightarrow> registry_op \<Rightarrow> bool" where
  "op_ok js op \<longleftrightarrow>
     (\<forall>sid. op_session op = Some sid \<longrightarrow> session_wf sid) \<and>
     (\<forall>sid m xs. op = Op_write sid m \<and> to_vec js m = Some xs \<longrightarrow> from_slice js xs = Some m)"

section \<open>The store a directory stands for\<close>

definition kept_output :: "registry \<Rightarrow> os \<Rightarrow> session_id \<Rightarrow> byte list option" where
  "kept_output reg s sid =
     (case look s (p_output (paths_of reg sid)) of
        None \<Rightarrow> None
      | Some e \<Rightarrow> if \<not> private_entry (uid reg) Regular_path 384 e then None
          else (case e_node e of Regular xs \<Rightarrow> Some xs | _ \<Rightarrow> None))"

definition store_of :: "json \<Rightarrow> registry \<Rightarrow> os \<Rightarrow> store" where
  "store_of js reg s =
     \<lparr>st_record = (\<lambda>sid. if session_wf sid then stored js reg s sid else None),
      st_output = (\<lambda>sid. if session_wf sid then kept_output reg s sid else None),
      st_now = clock s\<rparr>"

text \<open>The user of the registry is the one of the processes, and can write and read its files.\<close>

definition stands_for :: "json \<Rightarrow> registry \<Rightarrow> store \<Rightarrow> registry_op list \<times> os \<Rightarrow> bool" where
  "stands_for js reg st c \<longleftrightarrow>
     st = store_of js reg (snd c) \<and> uid reg = os_uid (snd c) \<and> plain_umask (snd c)"

text \<open>Only a write of a record records, only a write of an output keeps one.\<close>

fun explained :: "registry_op list \<Rightarrow> store_event \<Rightarrow> bool" where
  "explained ops (Recorded sid m) = (Op_write sid m \<in> set ops)"
| "explained ops (Kept sid out) = (Op_write_output sid out \<in> set ops)"
| "explained ops (Clock now) = (Op_clock now \<in> set ops)"
| "explained ops _ = True"

definition accounts :: "registry_op list \<times> os \<Rightarrow> store_event list \<Rightarrow> registry_op list \<times> os \<Rightarrow> bool" where
  "accounts c es c' \<longleftrightarrow> (\<exists>ops. fst c' = fst c @ ops \<and> (\<forall>e \<in> set es. explained ops e))"

inductive registry_step :: "json \<Rightarrow> registry \<Rightarrow> registry_op list \<times> os \<Rightarrow> registry_op list \<times> os \<Rightarrow> bool"
  for js reg where
  operation: "op_ok js op \<Longrightarrow> registry_step js reg (log, s) (log @ [op], perform js reg op s)"

inductive_cases registry_stepE: "registry_step js reg c c'"

lemma explained_more:
  "explained ops e \<Longrightarrow> explained (ops @ others) e" "explained ops e \<Longrightarrow> explained (others @ ops) e"
  by (cases e; simp)+

interpretation store_events: event_runs store_run accounts
proof
  fix c c1 c2 :: "registry_op list \<times> os" and es fs
  assume "accounts c es c1" and "accounts c1 fs c2"
  then obtain ops ops' where "fst c1 = fst c @ ops" "\<forall>e \<in> set es. explained ops e"
    "fst c2 = fst c1 @ ops'" "\<forall>e \<in> set fs. explained ops' e" by (auto simp: accounts_def)
  then show "accounts c (es @ fs) c2"
    unfolding accounts_def by (intro exI [of _ "ops @ ops'"]) (auto intro: explained_more)
qed (auto intro: store_run.none store_run_append simp: accounts_def)

text \<open>A step of the directory alone, within one operation.\<close>

definition store_follows :: "json \<Rightarrow> registry \<Rightarrow> registry_op list \<Rightarrow> os \<Rightarrow> os \<Rightarrow> bool" where
  "store_follows js reg ops s t \<longleftrightarrow> same_process s t \<and>
     (\<exists>es. store_run (store_of js reg s) es (store_of js reg t) \<and> (\<forall>e \<in> set es. explained ops e))"

lemma store_follows_trans:
  assumes "store_follows js reg ops s t" and "store_follows js reg ops t u"
  shows "store_follows js reg ops s u"
  using assms unfolding store_follows_def
  by (auto intro: same_process_trans) (metis UnE set_append store_run_append)

section \<open>Sessions apart\<close>

lemma stored_apart:
  assumes "changes_only (session_files (paths_of reg sid)) s t" and "session_wf sid" and "session_wf other" and "other \<noteq> sid"
  shows "stored js reg t other = stored js reg s other" "kept_output reg t other = kept_output reg s other"
proof -
  have "p \<notin> session_files (paths_of reg sid)" if "p \<in> session_files (paths_of reg other)" for p
    using that assms(2-4) by (auto simp: session_files_paths_of session_path_inject)
  then have "look t p = look s p" if "p \<in> session_files (paths_of reg other)" for p
    using that changes_only_look [OF assms(1)] by blast
  then show "stored js reg t other = stored js reg s other" "kept_output reg t other = kept_output reg s other"
    by (simp_all add: stored_def kept_output_def session_files_def)
qed

text \<open>An operation on one session that leaves its record and its output.\<close>

lemma store_follows_silent:
  assumes "changes_only (session_files (paths_of reg sid)) s t" and "session_wf sid"
    and "stored js reg t sid = stored js reg s sid" and "kept_output reg t sid = kept_output reg s sid"
  shows "store_follows js reg ops s t"
proof -
  have same: "same_process s t" using assms(1) by (simp add: changes_only_def)
  have "stored js reg t other = stored js reg s other \<and> kept_output reg t other = kept_output reg s other"
    if "session_wf other" for other
    using that assms stored_apart [OF assms(1,2)] by (cases "other = sid") auto
  then have "store_of js reg t = store_of js reg s"
    using same_process_fields(5) [OF same] by (auto simp: store_of_def fun_eq_iff)
  then show ?thesis using same unfolding store_follows_def by (intro conjI exI [of _ "[]"]) auto
qed

lemma store_follows_refl: "store_follows js reg ops s s"
  unfolding store_follows_def by (intro conjI exI [of _ "[]"]) simp_all

text \<open>An operation that takes the record, or the output, or both.\<close>

lemma store_follows_losing:
  assumes "changes_only (session_files (paths_of reg sid)) s t" and "session_wf sid"
    and "stored js reg t sid = stored js reg s sid \<or>
      (stored js reg t sid = None \<and> (\<forall>m. stored js reg s sid = Some m \<longrightarrow> may_go m (clock s)))"
    and "kept_output reg t sid = kept_output reg s sid \<or>
      (kept_output reg t sid = None \<and> (\<exists>m. stored js reg s sid = Some m \<and> outlived m (clock s)))"
  shows "store_follows js reg ops s t"
proof -
  have same: "same_process s t" "clock t = clock s"
    using assms(1) same_process_fields(5) by (auto simp: changes_only_def)
  let ?a = "store_of js reg s" and ?b = "store_of js reg t"
  define a1 where "a1 = ?a\<lparr>st_output := (st_output ?a)(sid := st_output ?b sid)\<rparr>"
  have out: "\<exists>es. store_run ?a es a1 \<and> (\<forall>e \<in> set es. explained ops e)"
  proof (cases "kept_output reg t sid = kept_output reg s sid")
    case True
    then have "a1 = ?a" by (auto simp: a1_def store_of_def fun_eq_iff)
    then show ?thesis by (intro exI [of _ "[]"]) simp
  next
    case False
    with assms(4) obtain m where m: "stored js reg s sid = Some m" "outlived m (clock s)" "kept_output reg t sid = None"
      by auto
    have "store_step ?a (Discarded sid) (?a\<lparr>st_output := (st_output ?a)(sid := None)\<rparr>)"
      by (rule store_step.discarded [of _ _ m]) (use m assms(2) in \<open>simp_all add: store_of_def\<close>)
    then have "store_step ?a (Discarded sid) a1" using m(3) by (simp add: a1_def store_of_def)
    then show ?thesis by (intro exI [of _ "[Discarded sid]"]) (simp add: store_run_one)
  qed
  have "stored js reg t other = stored js reg s other \<and> kept_output reg t other = kept_output reg s other"
    if "session_wf other" "other \<noteq> sid" for other
    using that stored_apart [OF assms(1,2)] by blast
  then have b: "?b = a1\<lparr>st_record := (st_record a1)(sid := stored js reg t sid)\<rparr>"
    using same(2) assms(2) by (auto simp: a1_def store_of_def fun_eq_iff)
  have "\<exists>es. store_run a1 es ?b \<and> (\<forall>e \<in> set es. explained ops e)"
  proof (cases "stored js reg t sid = stored js reg s sid")
    case True
    then have "?b = a1" unfolding b using assms(2) by (auto simp: a1_def store_of_def fun_eq_iff)
    then show ?thesis by (intro exI [of _ "[]"]) simp
  next
    case False
    with assms(3) obtain m where m: "stored js reg s sid = Some m" "may_go m (clock s)" "stored js reg t sid = None"
      by (metis not_None_eq)
    have "store_step a1 (Forgotten sid) (a1\<lparr>st_record := (st_record a1)(sid := None)\<rparr>)"
      by (rule store_step.forgotten [of _ _ m]) (use m assms(2) in \<open>simp_all add: a1_def store_of_def\<close>)
    then have "store_step a1 (Forgotten sid) ?b" unfolding b m(3) .
    then show ?thesis by (intro exI [of _ "[Forgotten sid]"]) (simp add: store_run_one)
  qed
  then obtain fs where fs: "store_run a1 fs ?b" "\<forall>e \<in> set fs. explained ops e" by blast
  from out obtain es where es: "store_run ?a es a1" "\<forall>e \<in> set es. explained ops e" by blast
  have "\<forall>e \<in> set (es @ fs). explained ops e" using es(2) fs(2) by auto
  with store_run_append [OF es(1) fs(1)] same(1) show ?thesis unfolding store_follows_def by blast
qed

section \<open>Cleaning up\<close>

lemma session_files_all:
  "p_output (paths_of reg sid) \<in> session_files (paths_of reg sid)"
  "p_metadata (paths_of reg sid) \<in> session_files (paths_of reg sid)"
  "p_trace (paths_of reg sid) \<in> session_files (paths_of reg sid)"
  "p_socket (paths_of reg sid) \<in> session_files (paths_of reg sid)"
  "p_lock (paths_of reg sid) \<in> session_files (paths_of reg sid)"
  by (simp_all add: session_files_def)

lemma gone_record: "look t (p_metadata (paths_of reg sid)) = None \<Longrightarrow> stored js reg t sid = None"
  by (simp add: stored_def)

lemma gone_output: "look t (p_output (paths_of reg sid)) = None \<Longrightarrow> kept_output reg t sid = None"
  by (simp add: kept_output_def)

lemma same_output:
  "look t (p_output (paths_of reg sid)) = look s (p_output (paths_of reg sid)) \<Longrightarrow>
   kept_output reg t sid = kept_output reg s sid"
  by (simp add: kept_output_def)

lemma outlived_may_go: "outlived m now \<Longrightarrow> may_go m now"
  by (cases m) (simp_all add: outlived_def)

text \<open>Removing an expired session, as far as it comes.\<close>

lemma store_follows_remove_completed:
  assumes "remove_completed (paths_of reg sid) s = (r, t)" and "session_wf sid"
    and "stored js reg s sid = Some m" and "outlived m (clock s)"
  shows "store_follows js reg ops s t"
proof -
  let ?ps = "paths_of reg sid"
  have ch: "changes_only (session_files ?ps) s t"
    by (rule touchesD [OF touches_remove_completed assms(1)]) (simp_all add: session_files_def)
  have "deletes (session_files ?ps) (remove_completed ?ps)"
    by (intro deletes_remove_completed session_files_all)
  then have del: "look t q = look s q \<or> look t q = None" for q
    using assms(1) unfolding deletes_def by (metis snd_conv)
  show ?thesis
  proof (rule store_follows_losing [OF ch assms(2)])
    show "stored js reg t sid = stored js reg s sid \<or>
        (stored js reg t sid = None \<and> (\<forall>m. stored js reg s sid = Some m \<longrightarrow> may_go m (clock s)))"
      using del [of "p_metadata ?ps"] stored_cong [of t reg sid s js] gone_record [of t reg sid js]
        assms(3,4) outlived_may_go by auto
    show "kept_output reg t sid = kept_output reg s sid \<or>
        (kept_output reg t sid = None \<and> (\<exists>m. stored js reg s sid = Some m \<and> outlived m (clock s)))"
      using del [of "p_output ?ps"] same_output [of t reg sid s] gone_output [of t reg sid] assms(3,4) by auto
  qed
qed

lemma now_outlived: "now_seconds s = (Inr now, s') \<Longrightarrow> is_expired m now \<Longrightarrow> outlived m (clock s)"
  by (auto simp: now_seconds_def outlived_def split: if_splits)

lemma store_follows_cleanup_entries:
  "cleanup_entries js reg now names s = (r, t) \<Longrightarrow> now_seconds s0 = (Inr now, s1) \<Longrightarrow> clock s = clock s0 \<Longrightarrow>
   store_follows js reg ops s t"
proof (induction names arbitrary: s)
  case Nil
  then show ?case by (simp add: io_simps store_follows_refl)
next
  case (Cons name names)
  show ?case
  proof (cases "session_from_metadata_name name")
    case None
    with Cons show ?thesis by simp
  next
    case (Some sid)
    then have wf: "session_wf sid" by (simp add: session_from_metadata_name_iff)
    obtain r1 s2 where m: "read_metadata js reg sid s = (r1, s2)" by fastforce
    then have s2: "s2 = s" by (rule readsD [OF reads_sessions(2)])
    from Cons.prems(1) Some m s2 consider "t = s" | "cleanup_entries js reg now names s = (r, t)"
      | md where "r1 = Inr (Some md)" "is_expired md now"
        "io_try (remove_completed (paths_of reg sid)) (\<lambda>_. cleanup_entries js reg now names) s = (r, t)"
      by (auto simp: io_try_paths io_try_apply [of "read_metadata js reg sid"]
          split: if_splits sum.splits option.splits)
    then show ?thesis
    proof cases
      case 1
      then show ?thesis by (simp add: store_follows_refl)
    next
      case 2
      with Cons show ?thesis by blast
    next
      case (3 md)
      obtain r3 s3 where rc: "remove_completed (paths_of reg sid) s = (r3, s3)" by fastforce
      have "stored js reg s sid = Some md" using stored_Some m 3(1) by blast
      moreover have "outlived md (clock s)"
        using now_outlived [OF Cons.prems(2) 3(2)] Cons.prems(3) by simp
      ultimately have 4: "store_follows js reg ops s s3" using rc wf by (intro store_follows_remove_completed)
      then have "clock s3 = clock s0" using Cons.prems(3) same_process_fields(5) by (auto simp: store_follows_def)
      with Cons have "cleanup_entries js reg now names s3 = (r, t) \<Longrightarrow> store_follows js reg ops s3 t" by blast
      moreover have "t = s3 \<or> cleanup_entries js reg now names s3 = (r, t)"
        using 3(3) rc by (auto simp: io_simps split: sum.splits)
      ultimately show ?thesis using 4 store_follows_trans by blast
    qed
  qed
qed

lemma store_follows_cleanup:
  assumes "cleanup_expired js reg s = (r, t)"
  shows "store_follows js reg ops s t"
proof -
  obtain r1 s1 where n: "now_seconds s = (r1, s1)" by fastforce
  then have s1: "s1 = s" by (rule readsD [OF reads_now_seconds])
  obtain r2 s2 where d: "fs_read_dir (root reg) s = (r2, s2)" by fastforce
  then have s2: "s2 = s" by (rule readsD [OF reads_calls(6)])
  from assms n s1 d s2 consider "t = s" | now names where "r1 = Inr now"
      "cleanup_entries js reg now (take MAX_SESSION_LIST_ENTRIES names) s = (r, t)"
    by (auto simp: cleanup_expired_def io_simps split: sum.splits)
  then show ?thesis
    using n by cases (simp add: store_follows_refl, blast intro: store_follows_cleanup_entries)
qed

section \<open>Binding\<close>

lemma make_room_any:
  assumes "make_room js reg sid ps s = (r, t)"
  obtains "t = s"
  | md now where "read_metadata js reg sid s = (Inr (Some md), s)" "now_seconds s = (Inr now, s)"
      "is_expired md now" "remove_completed ps s = (r, t)"
  | "remove_stale_live reg ps s = (r, t)"
      "read_metadata js reg sid s = (Inr None, s) \<or> (\<exists>l. read_metadata js reg sid s = (Inr (Some (Live l)), s))"
proof -
  obtain r1 s1 where m: "read_metadata js reg sid s = (r1, s1)" by fastforce
  then have s1: "s1 = s" by (rule readsD [OF reads_sessions(2)])
  obtain r2 s2 where n: "now_seconds s = (r2, s2)" by fastforce
  then have s2: "s2 = s" by (rule readsD [OF reads_now_seconds])
  obtain r3 s3 where c: "connect reg sid s = (r3, s3)" by fastforce
  then have s3: "s3 = s" by (rule readsD [OF reads_sessions(1)])
  obtain r4 s4 where k: "path_entry_exists (p_socket ps) s = (r4, s4)" by fastforce
  then have s4: "s4 = s" by (rule readsD [OF reads_files(2)])
  obtain r5 s5 where l: "path_entry_exists (p_lock ps) s = (r5, s5)" by fastforce
  then have s5: "s5 = s" by (rule readsD [OF reads_files(2)])
  note facts = m n c k l s1 s2 s3 s4 s5
  consider e where "r1 = Inl e" | "r1 = Inr None" | md where "r1 = Inr (Some md)"
    by (metis not_None_eq sum.exhaust)
  then show thesis
  proof cases
    case 1
    with assms facts have "t = s" by (simp add: make_room_def io_simps Let_def)
    then show thesis by (rule that(1))
  next
    case 2
    with assms facts have "t = s \<or> remove_stale_live reg ps s = (r, t)"
      by (auto simp: make_room_def io_simps Let_def split: if_splits sum.splits)
    then show thesis using that(1,3) 2 m s1 by auto
  next
    case (3 md)
    show thesis
    proof (cases r2)
      case (Inl e)
      with 3 assms facts have "t = s" by (simp add: make_room_def io_simps Let_def)
      then show thesis by (rule that(1))
    next
      case (Inr now)
      show thesis
      proof (cases "is_expired md now")
        case True
        with 3 Inr assms facts have "remove_completed ps s = (r, t)" by (simp add: make_room_def io_simps Let_def)
        with that(2) True 3 Inr m n s1 s2 show thesis by simp
      next
        case False
        with 3 Inr assms facts have "t = s \<or> ((\<exists>l. md = Live l) \<and> remove_stale_live reg ps s = (r, t))"
          by (cases md; cases r3) (simp_all add: make_room_def io_simps Let_def)
        then show thesis using that(1,3) 3 m s1 by auto
      qed
    qed
  qed
qed

text \<open>What cannot be read for want of an entry cannot be removed for want of one.\<close>

lemma read_None_verify:
  assumes "read_metadata js reg sid s = (Inr None, s)"
  shows "\<exists>e. verify_path (p_metadata (paths_of reg sid)) (uid reg) Regular_path 384 s = (Inl e, s)"
proof -
  let ?v = "verify_path (p_metadata (paths_of reg sid)) (uid reg) Regular_path 384 s"
  obtain q s1 where v: "?v = (q, s1)" by fastforce
  show ?thesis
  proof (cases q)
    case (Inl e)
    with v verify_path_Inl show ?thesis by blast
  next
    case (Inr e)
    with assms v show ?thesis
      by (auto simp: read_metadata_def registry_paths_def read_bounded_file_def io_simps Let_def
          split: if_splits prod.splits sum.splits option.splits)
  qed
qed

lemma remove_owned_unverified:
  assumes "verify_path p u kind mode s = (Inl e, s)" and "same_process s t" and "look t p = look s p"
  shows "snd (remove_owned_entry_if_present p u kind mode t) = t"
proof -
  have f: "faults t = faults s" using assms(2) by (simp add: same_process_fields)
  have "fst (verify_path p u kind mode t) = fst (verify_path p u kind mode s)"
    using f assms(3) by (simp add: verify_path_def fs_lstat_def syscall_def io_simps Let_def
        split: option.split path_kind.split)
  then have "fst (verify_path p u kind mode t) = Inl e" using assms(1) by simp
  moreover have "snd (verify_path p u kind mode t) = t"
    using readsD [OF reads_registry(2) prod.collapse [symmetric]] by blast
  ultimately have "verify_path p u kind mode t = (Inl e, t)" by (metis prod.collapse)
  then show ?thesis by (simp add: remove_owned_entry_if_present_def io_simps io_match_def io_ok_def io_fail_def)
qed

lemma touches_unless_metadata:
  assumes "verify_path (p_metadata ps) (uid reg) Regular_path 384 s = (Inl e, s)"
    and "p_metadata ps \<notin> {p_socket ps, p_lock ps, p_trace ps}"
    and "remove_stale_live reg ps s = (r, t)"
  shows "look t (p_metadata ps) = look s (p_metadata ps)"
proof -
  let ?P = "{p_socket ps, p_lock ps, p_trace ps}"
  let ?own = "\<lambda>p kind. remove_owned_entry_if_present p (uid reg) kind 384"
  obtain r1 s1 where 1: "?own (p_socket ps) Socket_path s = (r1, s1)" by fastforce
  obtain r2 s2 where 2: "?own (p_lock ps) Regular_path s1 = (r2, s2)" by fastforce
  obtain r3 s3 where 3: "?own (p_trace ps) Regular_path s2 = (r3, s3)" by fastforce
  have c1: "changes_only ?P s s1" using touchesD [OF touches_remove_owned 1] by simp
  have c2: "changes_only ?P s s2" using c1 touchesD [OF touches_remove_owned 2] changes_only_trans by simp
  have c3: "changes_only ?P s s3" using c2 touchesD [OF touches_remove_owned 3] changes_only_trans by simp
  have keep: "look u (p_metadata ps) = look s (p_metadata ps)" if "changes_only ?P s u" for u
    using changes_only_look [OF that assms(2)] .
  have "snd (?own (p_metadata ps) Regular_path s3) = s3"
    using c3 keep [OF c3] by (intro remove_owned_unverified [OF assms(1)]) (simp_all add: changes_only_def)
  then have "t = s1 \<or> t = s2 \<or> t = s3"
    using assms(3) 1 2 3 by (auto simp: remove_stale_live_def io_simps split: sum.splits)
  with keep c1 c2 c3 show ?thesis by blast
qed

lemma deletes_verify: "deletes P (verify_path p u kind mode)"
  using reads_registry(2) [of p u kind mode] by (simp add: deletes_def reads_def)

lemma deletes_remove_stale_live:
  assumes "p_socket ps \<in> P" "p_lock ps \<in> P" "p_trace ps \<in> P" "p_metadata ps \<in> P"
  shows "deletes P (remove_stale_live reg ps)"
proof -
  have "deletes P (remove_owned_entry_if_present p u kind mode)" if "p \<in> P" for p u kind mode
    unfolding remove_owned_entry_if_present_def
    using that by (auto intro!: deletes_io_match deletes_verify deletes_basic)
  then show ?thesis
    unfolding remove_stale_live_def io_try_def using assms by (auto intro!: deletes_io_match deletes_basic)
qed

lemma store_follows_stale:
  assumes "remove_stale_live reg (paths_of reg sid) s = (r, t)" and "session_wf sid"
    and "read_metadata js reg sid s = (Inr None, s) \<or> (\<exists>l. read_metadata js reg sid s = (Inr (Some (Live l)), s))"
  shows "store_follows js reg ops s t"
proof -
  let ?ps = "paths_of reg sid"
  let ?P = "{p_socket ?ps, p_lock ?ps, p_trace ?ps, p_metadata ?ps}"
  have ch: "changes_only ?P s t"
    by (rule touchesD [OF touches_remove_stale_live assms(1)]) (auto simp: session_files_def)
  then have files: "changes_only (session_files ?ps) s t"
    by (rule changes_only_mono) (auto simp: session_files_def)
  have "p_output ?ps \<notin> ?P" using paths_of_distinct [of reg sid] by auto
  then have out: "kept_output reg t sid = kept_output reg s sid"
    using changes_only_look [OF ch] by (intro same_output) blast
  have "deletes ?P (remove_stale_live reg ?ps)" by (intro deletes_remove_stale_live) simp_all
  then have del: "look t q = look s q \<or> look t q = None" for q
    using assms(1) unfolding deletes_def by (metis snd_conv)
  from assms(3) have "stored js reg t sid = stored js reg s sid \<or>
      (stored js reg t sid = None \<and> (\<forall>m. stored js reg s sid = Some m \<longrightarrow> may_go m (clock s)))"
  proof (elim disjE exE)
    assume none: "read_metadata js reg sid s = (Inr None, s)"
    then obtain e where "verify_path (p_metadata ?ps) (uid reg) Regular_path 384 s = (Inl e, s)"
      using read_None_verify by blast
    moreover have "p_metadata ?ps \<notin> {p_socket ?ps, p_lock ?ps, p_trace ?ps}" using paths_of_distinct [of reg sid] by auto
    ultimately have "look t (p_metadata ?ps) = look s (p_metadata ?ps)"
      using assms(1) by (rule touches_unless_metadata)
    then show ?thesis using stored_cong by blast
  next
    fix l assume "read_metadata js reg sid s = (Inr (Some (Live l)), s)"
    then have "stored js reg s sid = Some (Live l)" by (rule stored_Some)
    then show ?thesis
      using del [of "p_metadata ?ps"] stored_cong [of t reg sid s js] gone_record [of t reg sid js] by auto
  qed
  with out show ?thesis using store_follows_losing [OF files assms(2)] by blast
qed

lemma store_follows_make_room:
  assumes "make_room js reg sid (paths_of reg sid) s = (r, t)" and "session_wf sid"
  shows "store_follows js reg ops s t"
  using assms(1)
proof (cases rule: make_room_any)
  case 1
  then show ?thesis by (simp add: store_follows_refl)
next
  case (2 md now)
  then show ?thesis
    using store_follows_remove_completed [OF 2(4) assms(2) stored_Some [OF 2(1)] now_outlived [OF 2(2,3)]] by simp
next
  case 3
  from store_follows_stale [OF 3(1) assms(2) 3(2)] show ?thesis .
qed

text \<open>Socket and lock are not part of the store.\<close>

lemma store_follows_endpoints:
  assumes "changes_only {p_socket (paths_of reg sid), p_lock (paths_of reg sid)} s t" and "session_wf sid"
  shows "store_follows js reg ops s t"
proof (rule store_follows_silent)
  let ?ps = "paths_of reg sid"
  show "changes_only (session_files ?ps) s t"
    using assms(1) by (rule changes_only_mono) (auto simp: session_files_def)
  have "p_metadata ?ps \<notin> {p_socket ?ps, p_lock ?ps}" "p_output ?ps \<notin> {p_socket ?ps, p_lock ?ps}"
    using paths_of_distinct [of reg sid] by auto
  then show "stored js reg t sid = stored js reg s sid" "kept_output reg t sid = kept_output reg s sid"
    using changes_only_look [OF assms(1)] by (blast intro: stored_cong same_output)+
qed (rule assms(2))

lemma touches_bind_listener: "touches {p_socket ps, p_lock ps} (bind_listener ps)"
  unfolding bind_listener_def Let_def by (auto intro!: touching)

lemma store_follows_bind:
  assumes "bind_session js reg sid s = (r, t)" and "session_wf sid"
  shows "store_follows js reg ops s t"
proof -
  let ?ps = "paths_of reg sid"
  obtain r1 s1 where m: "make_room js reg sid ?ps s = (r1, s1)" by fastforce
  obtain r2 s2 where b: "bind_listener ?ps s1 = (r2, s2)" by fastforce
  have 1: "store_follows js reg ops s s1" using m assms(2) by (rule store_follows_make_room)
  have 2: "store_follows js reg ops s1 s2"
    using touchesD [OF touches_bind_listener b] assms(2) by (rule store_follows_endpoints)
  from assms(1) m b have "t = s \<or> t = s1 \<or> t = s2"
    unfolding bind_session_def io_try_paths by (auto simp: io_simps split: if_splits sum.splits)
  with 1 2 store_follows_trans [OF 1 2] store_follows_refl show ?thesis by blast
qed

section \<open>Writing\<close>

lemma store_of_written:
  assumes "session_wf sid" and "same_process s t"
    and "\<And>q. q \<in> session_keys reg \<Longrightarrow> look t q = (if q = p then e else look s q)"
    and "p \<in> session_files (paths_of reg sid)"
  shows "session_wf other \<Longrightarrow> other \<noteq> sid \<Longrightarrow>
    stored js reg t other = stored js reg s other \<and> kept_output reg t other = kept_output reg s other"
proof -
  assume o: "session_wf other" "other \<noteq> sid"
  have "q \<noteq> p" if "q \<in> session_files (paths_of reg other)" for q
    using that assms(1,4) o by (auto simp: session_files_paths_of session_path_inject)
  moreover have "q \<in> session_keys reg" if "q \<in> session_files (paths_of reg other)" for q
    using that o(1) by (auto simp: session_files_paths_of)
  ultimately have "look t q = look s q" if "q \<in> session_files (paths_of reg other)" for q
    using that assms(3) by auto
  then show ?thesis by (simp add: stored_def kept_output_def session_files_all)
qed

lemma store_follows_write:
  assumes "write_metadata js (paths_of reg sid) m s = (r, t)" and "session_wf sid"
    and "\<And>xs. to_vec js m = Some xs \<Longrightarrow> from_slice js xs = Some m"
    and "uid reg = os_uid s" and "plain_umask s" and "Op_write sid m \<in> set ops"
  shows "store_follows js reg ops s t"
  using assms(1)
proof (cases rule: write_metadata_cases)
  case 1
  then show ?thesis by (simp add: store_follows_refl)
next
  case (2 xs)
  let ?p = "p_metadata (paths_of reg sid)"
  have same: "same_process s t" by (rule atomic_write_session(1) [OF session_key_paths(1) [OF assms(2)] 2(3)])
  have look: "look t q = (if q = ?p \<and> is_ok r then Some (own_file s xs) else look s q)" if "q \<in> session_keys reg" for q
    by (rule atomic_write_session(2) [OF session_key_paths(1) [OF assms(2)] 2(3) that])
  have others: "stored js reg t other = stored js reg s other \<and> kept_output reg t other = kept_output reg s other"
    if "session_wf other" "other \<noteq> sid" for other
    using store_of_written [OF assms(2) same, of reg ?p "if is_ok r then Some (own_file s xs) else look s ?p"]
      look session_files_all(2) that by auto
  have "p_output (paths_of reg sid) \<noteq> ?p" using paths_of_distinct [of reg sid] by auto
  then have out: "kept_output reg t sid = kept_output reg s sid"
    using look [OF session_key_paths(2) [OF assms(2)]] by (intro same_output) simp
  have clock: "clock t = clock s" using same by (rule same_process_fields)
  show ?thesis
  proof (cases "is_ok r")
    case False
    then have "stored js reg t sid = stored js reg s sid"
      using look [OF session_key_paths(1) [OF assms(2)]] by (intro stored_cong) simp
    then have "store_of js reg t = store_of js reg s"
      using others out clock by (auto simp: store_of_def fun_eq_iff)
    then show ?thesis using same unfolding store_follows_def by (intro conjI exI [of _ "[]"]) auto
  next
    case True
    have "stored js reg t sid = Some m"
      using look [OF session_key_paths(1) [OF assms(2)]] True own_file_private [OF assms(5), of xs] assms(3) [OF 2(1)] assms(4) 2(2)
      by (simp add: stored_def) (simp add: own_file_def new_entry_def)
    then have "store_of js reg t = (store_of js reg s)\<lparr>st_record := (st_record (store_of js reg s))(sid := Some m)\<rparr>"
      using others out clock assms(2) by (auto simp: store_of_def fun_eq_iff)
    then have "store_step (store_of js reg s) (Recorded sid m) (store_of js reg t)"
      using store_step.recorded [of "store_of js reg s" sid m] by simp
    then show ?thesis
      using same assms(6) unfolding store_follows_def
      by (intro conjI exI [of _ "[Recorded sid m]"]) (simp_all add: store_run_one)
  qed
qed

lemma store_follows_write_output:
  assumes "write_output (paths_of reg sid) out s = (r, t)" and "session_wf sid"
    and "uid reg = os_uid s" and "plain_umask s" and "Op_write_output sid out \<in> set ops"
  shows "store_follows js reg ops s t"
  using assms(1)
proof (cases rule: write_output_cases)
  case 1
  then show ?thesis by (simp add: store_follows_refl)
next
  case 2
  let ?p = "p_output (paths_of reg sid)"
  have same: "same_process s t" by (rule atomic_write_session(1) [OF session_key_paths(2) [OF assms(2)] 2(2)])
  have look: "look t q = (if q = ?p \<and> is_ok r then Some (own_file s out) else look s q)" if "q \<in> session_keys reg" for q
    by (rule atomic_write_session(2) [OF session_key_paths(2) [OF assms(2)] 2(2) that])
  have others: "stored js reg t other = stored js reg s other \<and> kept_output reg t other = kept_output reg s other"
    if "session_wf other" "other \<noteq> sid" for other
    using store_of_written [OF assms(2) same, of reg ?p "if is_ok r then Some (own_file s out) else look s ?p"]
      look session_files_all(1) that by auto
  have "p_metadata (paths_of reg sid) \<noteq> ?p" using paths_of_distinct [of reg sid] by auto
  then have rec: "stored js reg t sid = stored js reg s sid"
    using look [OF session_key_paths(1) [OF assms(2)]] by (intro stored_cong) simp
  have clock: "clock t = clock s" using same by (rule same_process_fields)
  show ?thesis
  proof (cases "is_ok r")
    case False
    then have "kept_output reg t sid = kept_output reg s sid"
      using look [OF session_key_paths(2) [OF assms(2)]] by (intro same_output) simp
    then have "store_of js reg t = store_of js reg s"
      using others rec clock by (auto simp: store_of_def fun_eq_iff)
    then show ?thesis using same unfolding store_follows_def by (intro conjI exI [of _ "[]"]) auto
  next
    case True
    have "kept_output reg t sid = Some out"
      using look [OF session_key_paths(2) [OF assms(2)]] True own_file_private [OF assms(4), of out] assms(3)
      by (simp add: kept_output_def) (simp add: own_file_def new_entry_def)
    then have "store_of js reg t = (store_of js reg s)\<lparr>st_output := (st_output (store_of js reg s))(sid := Some out)\<rparr>"
      using others rec clock assms(2) by (auto simp: store_of_def fun_eq_iff)
    then have "store_step (store_of js reg s) (Kept sid out) (store_of js reg t)"
      using store_step.kept [of "store_of js reg s" sid out] by simp
    then show ?thesis
      using same assms(5) unfolding store_follows_def
      by (intro conjI exI [of _ "[Kept sid out]"]) (simp_all add: store_run_one)
  qed
qed

section \<open>The refinement\<close>

lemma reads_list_sessions: "reads (list_sessions js reg)"
proof -
  have "reads (list_entries js reg ms names)" for ms names
    by (induction names arbitrary: ms) (auto intro!: reading split: option.splits)
  then show ?thesis unfolding list_sessions_def by (auto intro!: reading)
qed

lemma perform_reads: "reads m \<Longrightarrow> snd (m s) = s"
  by (simp add: reads_def)

lemma perform_follows:
  assumes "op_ok js op" and "uid reg = os_uid s" and "plain_umask s"
    and "\<And>now. op \<noteq> Op_clock now" and "\<And>pid. op \<noteq> Op_process pid"
  shows "store_follows js reg [op] s (perform js reg op s)"
proof -
  have wf: "op_session op = Some sid \<Longrightarrow> session_wf sid" for sid using assms(1) by (simp add: op_ok_def)
  have ends: "touches {p_socket ps, p_lock ps} (remove_live_files ps)"
    "touches {p_socket ps, p_lock ps} (drop_session_files ps)" for ps
    unfolding remove_live_files_def drop_session_files_def by (auto intro!: touching)
  show ?thesis
  proof (cases op)
    case (Op_cleanup)
    then show ?thesis using store_follows_cleanup [OF prod.collapse [symmetric]] by simp
  next
    case (Op_bind sid)
    then show ?thesis using store_follows_bind [OF prod.collapse [symmetric] wf] by simp
  next
    case (Op_write sid m)
    then show ?thesis
      using store_follows_write [where sid = sid and m = m and js = js and ops = "[op]",
          OF prod.collapse [symmetric] wf _ assms(2,3)] assms(1)
      by (simp add: op_ok_def)
  next
    case (Op_write_output sid out)
    then show ?thesis
      using store_follows_write_output [where sid = sid and out = out and ops = "[op]",
          OF prod.collapse [symmetric] wf assms(2,3)] by simp
  next
    case (Op_remove_live sid)
    then show ?thesis
      using store_follows_endpoints [OF touchesD [OF ends(1) prod.collapse [symmetric]] wf] by simp
  next
    case (Op_drop sid)
    then show ?thesis
      using store_follows_endpoints [OF touchesD [OF ends(2) prod.collapse [symmetric]] wf] by simp
  qed (use assms(4,5) perform_reads [OF reads_sessions(1)] perform_reads [OF reads_sessions(2)]
      perform_reads [OF reads_sessions(3)] perform_reads [OF reads_list_sessions]
      in \<open>simp_all add: store_follows_refl\<close>)
qed

lemma store_look:
  "stored js reg (s\<lparr>clock := now\<rparr>) sid = stored js reg s sid"
  "kept_output reg (s\<lparr>clock := now\<rparr>) sid = kept_output reg s sid"
  "stored js reg (s\<lparr>os_pid := pid\<rparr>) sid = stored js reg s sid"
  "kept_output reg (s\<lparr>os_pid := pid\<rparr>) sid = kept_output reg s sid"
  by (simp_all add: stored_def kept_output_def look_def)

lemma registry_step_matched:
  assumes "registry_step js reg c c'"
  shows "matched store_run (stands_for js reg) accounts c c'"
  using assms
proof (cases rule: registry_step.cases)
  case (operation op log s)
  show ?thesis
  proof (rule matchedI)
    fix st assume st: "stands_for js reg st c"
    then have s: "st = store_of js reg s" "uid reg = os_uid s" "plain_umask s"
      using operation(1) by (simp_all add: stands_for_def)
    have fin: "\<exists>es st'. store_run st es st' \<and> stands_for js reg st' c' \<and> accounts c es c'"
      if "store_run st es (store_of js reg (perform js reg op s))" "\<forall>e \<in> set es. explained [op] e"
        "os_uid (perform js reg op s) = os_uid s" "os_umask (perform js reg op s) = os_umask s" for es
      using that s operation(1,2)
      by (intro exI [of _ es] exI [of _ "store_of js reg (perform js reg op s)"])
        (auto simp: stands_for_def accounts_def plain_umask_def)
    consider now where "op = Op_clock now" | pid where "op = Op_process pid"
      | "\<And>now. op \<noteq> Op_clock now" "\<And>pid. op \<noteq> Op_process pid" by blast
    then show "\<exists>es st'. store_run st es st' \<and> stands_for js reg st' c' \<and> accounts c es c'"
    proof cases
      case (1 now)
      then have "store_of js reg (perform js reg op s) = st\<lparr>st_now := now\<rparr>"
        using s(1) by (simp add: store_of_def store_look cong: if_cong)
      then have "store_step st (Clock now) (store_of js reg (perform js reg op s))"
        using store_step.clock by simp
      then show ?thesis using fin [of "[Clock now]"] 1 by (simp add: store_run_one)
    next
      case (2 pid)
      then have "store_of js reg (perform js reg op s) = st"
        using s(1) by (simp add: store_of_def store_look cong: if_cong)
      then show ?thesis using fin [of "[]"] 2 by simp
    next
      case 3
      from perform_follows [OF operation(3) s(2,3) 3] obtain es where
        "same_process s (perform js reg op s)" "store_run st es (store_of js reg (perform js reg op s))"
        "\<forall>e \<in> set es. explained [op] e" using s(1) by (auto simp: store_follows_def)
      then show ?thesis using fin [of es] by (simp add: same_process_fields)
    qed
  qed
qed

interpretation store_of_registry: simulation store_run accounts "stands_for js reg" "registry_step js reg" for js reg
  by unfold_locales (rule registry_step_matched)

lemma performs_steps:
  "\<forall>op \<in> set ops. op_ok js op \<Longrightarrow> (registry_step js reg)\<^sup>*\<^sup>* (log, s) (log @ ops, performs js reg ops s)"
proof (induction ops arbitrary: log s)
  case (Cons op ops)
  have "registry_step js reg (log, s) (log @ [op], perform js reg op s)"
    using Cons.prems by (intro registry_step.operation) simp
  moreover have "(registry_step js reg)\<^sup>*\<^sup>* (log @ [op], perform js reg op s)
      ((log @ [op]) @ ops, performs js reg ops (perform js reg op s))"
    using Cons.prems by (intro Cons.IH) simp
  ultimately show ?case by (simp add: performs_def converse_rtranclp_into_rtranclp)
qed (simp add: performs_def)

lemma performs_store:
  assumes "\<forall>op \<in> set ops. op_ok js op" and "uid reg = os_uid s" and "plain_umask s"
  obtains es where "store_run (store_of js reg s) es (store_of js reg (performs js reg ops s))"
    "\<forall>e \<in> set es. explained ops e"
proof -
  have "stands_for js reg (store_of js reg s) ([], s)" using assms(2,3) by (simp add: stands_for_def)
  with store_of_registry.reachable_matched [OF performs_steps [OF assms(1), of reg "[]" s]]
  show thesis using that by (auto elim!: matchedE simp: stands_for_def accounts_def)
qed

text \<open>What is retained by every event of the store is retained by the operations.\<close>

lemma performs_retain:
  assumes "\<forall>op \<in> set ops. op_ok js op" and "uid reg = os_uid s" and "plain_umask s" and "session_wf sid"
    and "stored js reg s sid = Some (Completed m)"
    and "\<forall>m'. Op_write sid m' \<notin> set ops" and "\<forall>out. Op_write_output sid out \<notin> set ops"
    and "\<forall>now. clock s = now \<or> Op_clock now \<in> set ops \<longrightarrow> now < int (unat (cs_finished_at m)) + 86400"
  shows "stored js reg (performs js reg ops s) sid = Some (Completed m) \<and>
    kept_output reg (performs js reg ops s) sid = kept_output reg s sid"
proof -
  obtain es where es: "store_run (store_of js reg s) es (store_of js reg (performs js reg ops s))"
    "\<forall>e \<in> set es. explained ops e" by (rule performs_store [OF assms(1-3)])
  have "\<forall>e \<in> set es. leaves_alone sid m e"
  proof
    fix e assume "e \<in> set es"
    with es(2) have "explained ops e" by blast
    then show "leaves_alone sid m e" using assms(6-8) by (cases e) auto
  qed
  moreover have "retained sid m (kept_output reg s sid) (store_of js reg s)"
    using assms(4,5,8) by (simp add: retained_def store_of_def)
  ultimately have "retained sid m (kept_output reg s sid) (store_of js reg (performs js reg ops s))"
    using retained_run [OF es(1)] by blast
  then show ?thesis using assms(4) by (simp add: retained_def store_of_def)
qed

section \<open>Properties\<close>

text \<open>
  C8: Whatever operations the processes of the user perform on the registry, in any order, at
  any time and under any errors of the file system, the trusted records and outputs in its
  directory change as the store allows: a record or an output appears only as it was to be
  written, a record goes only if its session was live or has outlived its day, an output
  only if its session has.
\<close>

theorem registry_refines_the_store:
  assumes "\<forall>op \<in> set ops. op_ok js op" and "uid reg = os_uid s" and "plain_umask s"
  shows "\<exists>es. store_run (store_of js reg s) es (store_of js reg (performs js reg ops s)) \<and>
    (\<forall>sid m. Recorded sid m \<in> set es \<longrightarrow> Op_write sid m \<in> set ops) \<and>
    (\<forall>sid out. Kept sid out \<in> set es \<longrightarrow> Op_write_output sid out \<in> set ops) \<and>
    (\<forall>now. Clock now \<in> set es \<longrightarrow> Op_clock now \<in> set ops)"
proof -
  obtain es where es: "store_run (store_of js reg s) es (store_of js reg (performs js reg ops s))"
    "\<forall>e \<in> set es. explained ops e" by (rule performs_store [OF assms])
  then show ?thesis by (intro exI [of _ es]) auto
qed

text \<open>
  C6: A completed session can be replayed for a day: as long as its runner writes nothing
  more and less than 24 hours have passed, no sequence of operations, by whichever processes
  and under whichever errors, loses or changes its record or its output: neither cleaning up
  nor another attempt to start the session.
\<close>

theorem completed_session_is_kept_for_a_day:
  assumes "\<forall>op \<in> set ops. op_ok js op" and "uid reg = os_uid s" and "plain_umask s" and "session_wf sid"
    and "stored js reg s sid = Some (Completed m)"
    and "\<forall>m'. Op_write sid m' \<notin> set ops" and "\<forall>out. Op_write_output sid out \<notin> set ops"
    and "\<forall>now. clock s = now \<or> Op_clock now \<in> set ops \<longrightarrow> now < int (unat (cs_finished_at m)) + 86400"
  shows "stored js reg (performs js reg ops s) sid = Some (Completed m) \<and>
    kept_output reg (performs js reg ops s) sid = kept_output reg s sid"
  using assms by (rule performs_retain)

text \<open>A day in the life of a completed session: it is cleaned up only at the end.\<close>

definition sample_kept :: os where
  "sample_kept = sample_old\<lparr>clock := 100\<rparr>"

lemma sample_kept_stored: "stored sample_json sample_registry sample_kept sample_session = Some sample_done"
  using stored_Some [OF sample_old_read] by (simp add: sample_kept_def store_look)

lemma sample_kept_user: "uid sample_registry = os_uid sample_kept" "plain_umask sample_kept"
  by (simp_all add: sample_kept_def sample_old_def set_entry_def sample_os_def plain_umask_def)

definition sample_day :: "registry_op list" where
  "sample_day = [Op_cleanup, Op_bind sample_session, Op_process 9, Op_clock 86000, Op_list, Op_cleanup]"

lemma sample_day_ok: "\<forall>op \<in> set sample_day. op_ok sample_json op"
  by (simp add: sample_day_def op_ok_def)

lemma registry_refines_the_store_witness:
  "\<exists>es. store_run (store_of sample_json sample_registry sample_kept) es
     (store_of sample_json sample_registry (performs sample_json sample_registry sample_day sample_kept)) \<and>
     (\<forall>sid m. Recorded sid m \<notin> set es)"
  using registry_refines_the_store [OF sample_day_ok sample_kept_user] by (auto simp: sample_day_def)

lemma completed_session_is_kept_for_a_day_witness:
  "stored sample_json sample_registry (performs sample_json sample_registry sample_day sample_kept) sample_session = Some sample_done"
proof -
  obtain m where m: "sample_done = Completed m" "cs_finished_at m = 20" by (simp add: sample_done_def)
  have "\<forall>now. clock sample_kept = now \<or> Op_clock now \<in> set sample_day \<longrightarrow> now < int (unat (cs_finished_at m)) + 86400"
    using m(2) by (auto simp: sample_kept_def sample_day_def)
  then show ?thesis
    using completed_session_is_kept_for_a_day [OF sample_day_ok sample_kept_user sample_session_wf, of m]
      sample_kept_stored m by (simp add: sample_day_def)
qed

end
