(* ===== verification/Session_Retention.thy ===== *)
theory Session_Retention
  imports Registry_Refinement Client_Facts
begin

text \<open>
  The runner, the registry and an attachment together: what a session leaves behind is still
  there, and still replayed, after whatever the other processes of the user have done on the
  registry in the meantime.
\<close>

section \<open>Reading what is stored\<close>

lemma read_stored:
  assumes "no_faults s" and "registry_paths reg sid s = (Inr (paths_of reg sid), s)"
    and "stored js reg s sid = Some m" and "metadata_session_id m = session_to_string sid"
  shows "read_metadata js reg sid s = (Inr (Some m), s)"
proof -
  obtain e xs where e: "look s (p_metadata (paths_of reg sid)) = Some e"
    "private_entry (uid reg) Regular_path 384 e" "e_node e = Regular xs"
    "length xs \<le> MAX_METADATA_BYTES" "from_slice js xs = Some m"
    using assms(3) by (auto simp: stored_def split: option.splits if_splits node.splits)
  show ?thesis
    unfolding read_metadata_def
    using assms(2,4) read_bounded_file_intro [OF assms(1) e(1-4)] e(5) by (simp add: io_simps)
qed

lemma read_kept:
  assumes "no_faults s" and "registry_paths reg sid s = (Inr (paths_of reg sid), s)"
    and "kept_output reg s sid = Some out" and "length out \<le> OUTPUT_TAIL_BYTES"
  shows "read_output reg sid s = (Inr (Some out), s)"
proof -
  obtain e where e: "look s (p_output (paths_of reg sid)) = Some e"
    "private_entry (uid reg) Regular_path 384 e" "e_node e = Regular out"
    using assms(3) by (auto simp: kept_output_def split: option.splits if_splits node.splits)
  show ?thesis
    unfolding read_output_def
    using assms(2) read_bounded_file_intro [OF assms(1) e assms(4)] by (simp add: io_try_apply)
qed

text \<open>The files of a session as its runner has left them.\<close>

lemma left_stored:
  assumes "plain_umask o'" and "uid reg = os_uid o'"
  shows "look s (p_metadata (paths_of reg sid)) = Some (own_file o' xs) \<Longrightarrow> length xs \<le> MAX_METADATA_BYTES \<Longrightarrow>
      stored js reg s sid = from_slice js xs"
    and "look s (p_output (paths_of reg sid)) = Some (own_file o' out) \<Longrightarrow> kept_output reg s sid = Some out"
proof -
  have "private_entry (uid reg) Regular_path 384 (own_file o' ys)" "e_node (own_file o' ys) = Regular ys" for ys
    using own_file_private [OF assms(1)] assms(2) by (simp_all add: own_file_def new_entry_def)
  then show "look s (p_metadata (paths_of reg sid)) = Some (own_file o' xs) \<Longrightarrow> length xs \<le> MAX_METADATA_BYTES \<Longrightarrow>
      stored js reg s sid = from_slice js xs"
    and "look s (p_output (paths_of reg sid)) = Some (own_file o' out) \<Longrightarrow> kept_output reg s sid = Some out"
    by (simp_all add: stored_def kept_output_def)
qed

lemma left_behind:
  assumes "started_runner js r0" and "run_event_loop js polls r0 = (Returns (Inr ()), r)"
    and "keeps_completed js r0" and "plain_umask (rn_os r0)" and "uid (rn_registry r0) = os_uid (rn_os r0)"
  obtains history rest at status m where "pending r0 = history @ rest" "at \<le> rn_now r"
    "child_end (rn_child r) = Some (at, status)" "0 \<le> clock (rn_os r)" "cs_finished_at m = word_of_int (clock (rn_os r))"
    "stored js (rn_registry r0) (rn_os r) (rn_session r0) = Some (Completed m)"
    "kept_output (rn_registry r0) (rn_os r) (rn_session r0) = Some (last_bytes 262144 history)"
    "process_exit_from (cs_exit m) = process_exit_of status" "cs_truncated m \<longleftrightarrow> 262144 < length history"
    "metadata_session_id (Completed m) = session_to_string (rn_session r0)"
proof -
  let ?reg = "rn_registry r0" and ?id = "rn_session r0"
  obtain history rest at status finished_at xs where d:
    "pending r0 = history @ rest" "at \<le> rn_now r" "child_end (rn_child r) = Some (at, status)"
    "look (rn_os r) (p_output (rn_paths r0)) = Some (own_file (rn_os r0) (last_bytes 262144 history))"
    "look (rn_os r) (p_metadata (rn_paths r0)) = Some (own_file (rn_os r0) xs)"
    "to_vec js (completed_record r0 (process_exit_of status) finished_at (min 262144 (length history))
      (262144 < length history)) = Some xs"
    "0 \<le> clock (rn_os r)" "finished_at = word_of_int (clock (rn_os r))"
    by (rule completed_run [OF assms(1,2)])
  have paths: "rn_paths r0 = paths_of ?reg ?id" using assms(1) by (simp add: started_runner_def)
  let ?m = "completed_record r0 (process_exit_of status) finished_at (min 262144 (length history)) (262144 < length history)"
  have "min 262144 (length history) \<le> OUTPUT_TAIL_BYTES" by (simp add: limits)
  then have vec: "length xs \<le> MAX_METADATA_BYTES" "from_slice js xs = Some ?m"
    using assms(3) d(6) unfolding keeps_completed_def by blast+
  obtain m where m: "?m = Completed m" by (simp add: completed_record_def)
  then have "process_exit_from (cs_exit m) = process_exit_of status" "cs_truncated m \<longleftrightarrow> 262144 < length history"
    "cs_finished_at m = finished_at" "metadata_session_id (Completed m) = session_to_string ?id"
    by (auto simp: completed_record_def)
  moreover have "stored js ?reg (rn_os r) ?id = Some (Completed m)"
    using left_stored(1) [OF assms(4,5) d(5) [unfolded paths] vec(1)] vec(2) m by simp
  moreover have "kept_output ?reg (rn_os r) ?id = Some (last_bytes 262144 history)"
    using left_stored(2) [OF assms(4,5)] d(4) paths by simp
  ultimately show thesis using d(1-3,7,8) that by blast
qed

text \<open>
  What the other processes of the user do on the registry in the day after the end of a
  session: anything but writing the files of that session.
\<close>

definition within_a_day :: "json \<Rightarrow> session_id \<Rightarrow> completed_session \<Rightarrow> os \<Rightarrow> registry_op list \<Rightarrow> bool" where
  "within_a_day js sid m s ops \<longleftrightarrow>
     (\<forall>op \<in> set ops. op_ok js op \<and> (\<forall>m'. op \<noteq> Op_write sid m') \<and> (\<forall>out. op \<noteq> Op_write_output sid out)) \<and>
     (\<forall>now. clock s = now \<or> Op_clock now \<in> set ops \<longrightarrow> now < int (unat (cs_finished_at m)) + 86400)"

lemma within_a_day_kept:
  assumes "within_a_day js sid m s ops" and "uid reg = os_uid s" and "plain_umask s" and "session_wf sid"
    and "stored js reg s sid = Some (Completed m)"
  shows "stored js reg (performs js reg ops s) sid = Some (Completed m) \<and>
    kept_output reg (performs js reg ops s) sid = kept_output reg s sid"
  using assms(1) by (intro performs_retain [OF _ assms(2-5)]) (auto simp: within_a_day_def)

section \<open>Properties\<close>


text \<open>
  The day after the sample session: another process cleans up, tries to start the session
  again, lists the sessions, and cleans up once more when the day is nearly over.
\<close>

definition day_after :: "completed_session \<Rightarrow> registry_op list" where
  "day_after m = [Op_cleanup, Op_bind sample_session, Op_process 9,
     Op_clock (int (unat (cs_finished_at m)) + 86000), Op_list, Op_cleanup]"

lemma day_after_ok:
  "clock s = int (unat (cs_finished_at m)) \<Longrightarrow> within_a_day js sample_session m s (day_after m)"
  by (auto simp: within_a_day_def day_after_def op_ok_def)

lemma stored_there:
  "stored js reg s sid = Some m \<Longrightarrow> \<exists>e. look s (p_metadata (paths_of reg sid)) = Some e"
  "kept_output reg s sid = Some out \<Longrightarrow> \<exists>e. look s (p_output (paths_of reg sid)) = Some e"
  by (auto simp: stored_def kept_output_def split: option.splits)


end
