(* ===== verification/Registry_Race.thy ===== *)
theory Registry_Race
  imports Registry_Sessions Step_System
begin

text \<open>
  Several processes that start the same session at the same time.  \<open>creator\<close> is how far one of
  them is in \<open>bind_session\<close>, one system call at a time; \<open>creator_step\<close> is the next call, on the
  directory as the others have left it.  A creator that runs alone does what \<open>bind_session\<close>
  does.  Creators that start with nothing of the session on disk converge on one of them.
\<close>

section \<open>One creator, call by call\<close>

datatype creator =
    Reading
  | Opening
  | Loading
  | Timing session_metadata
  | Clearing path "path list"
  | Seeking_socket
  | Seeking_lock
  | Checking
  | Connecting
  | Verifying path path_kind "(path \<times> path_kind) list"
  | Unlinking path "(path \<times> path_kind) list"
  | Binding
  | Permitting
  | Unblocking
  | Locking
  | Undoing io_error
  | Closing io_error
  | Bound
  | Gave_up io_error

fun finished :: "creator \<Rightarrow> bool" where
  "finished Bound = True"
| "finished (Gave_up e) = True"
| "finished _ = False"

definition gave_up_on :: "error_kind \<Rightarrow> creator" where
  "gave_up_on kind = Gave_up (io_error_new kind)"

text \<open>What is left to clear, and to remove of a live session that cannot be reached.\<close>

fun clearing :: "path list \<Rightarrow> creator" where
  "clearing [] = Binding"
| "clearing (p # ps) = Clearing p ps"

fun verifying :: "(path \<times> path_kind) list \<Rightarrow> creator" where
  "verifying [] = Binding"
| "verifying ((p, kind) # entries) = Verifying p kind entries"

definition stale_entries :: "session_paths \<Rightarrow> (path \<times> path_kind) list" where
  "stale_entries paths = [(p_socket paths, Socket_path), (p_lock paths, Regular_path),
     (p_trace paths, Regular_path), (p_metadata paths, Regular_path)]"

definition unreachable :: "session_paths \<Rightarrow> creator" where
  "unreachable paths = verifying (stale_entries paths)"

text \<open>A call, and where its creator goes on.\<close>

definition calls :: "(os, 'a) io \<Rightarrow> (io_error \<Rightarrow> creator) \<Rightarrow> ('a \<Rightarrow> creator) \<Rightarrow> os \<Rightarrow> creator \<times> os" where
  "calls m h f s = (case m s of (Inl e, t) \<Rightarrow> (h e, t) | (Inr x, t) \<Rightarrow> (f x, t))"

definition recorded :: "json \<Rightarrow> session_id \<Rightarrow> byte list \<Rightarrow> creator" where
  "recorded js session bytes =
     (if MAX_METADATA_BYTES < length bytes then Gave_up invalid
      else case from_slice js bytes of
          None \<Rightarrow> Gave_up invalid
        | Some metadata \<Rightarrow>
            if metadata_session_id metadata \<noteq> session_to_string session then Gave_up invalid
            else Timing metadata)"

definition timed :: "session_paths \<Rightarrow> session_metadata \<Rightarrow> u64 \<Rightarrow> creator" where
  "timed paths metadata now =
     (if is_expired metadata now then clearing [p_output paths, p_trace paths, p_metadata paths]
      else case metadata of Completed _ \<Rightarrow> gave_up_on AlreadyExists | Live _ \<Rightarrow> Checking)"

definition connected :: "registry \<Rightarrow> session_paths \<Rightarrow> listener \<Rightarrow> creator" where
  "connected reg paths l =
     (case peer_uid (l_peer l) of
        Inl e \<Rightarrow> unreachable paths
      | Inr peer \<Rightarrow> if peer \<noteq> uid reg then unreachable paths else gave_up_on AlreadyExists)"

fun creator_step :: "json \<Rightarrow> registry \<Rightarrow> session_id \<Rightarrow> creator \<Rightarrow> os \<Rightarrow> creator \<times> os" where
  "creator_step js reg session Reading =
     calls (verify_path (p_metadata (paths_of reg session)) (uid reg) Regular_path 384)
       (\<lambda>e. if err_kind e = NotFound then Seeking_socket else Gave_up e)
       (\<lambda>metadata. if MAX_METADATA_BYTES < metadata_len metadata then Gave_up invalid else Opening)"
| "creator_step js reg session Opening =
     calls (fs_open (p_metadata (paths_of reg session))) Gave_up (\<lambda>_. Loading)"
| "creator_step js reg session Loading =
     calls (fs_read_to_end (p_metadata (paths_of reg session)) (MAX_METADATA_BYTES + 1)) Gave_up
       (recorded js session)"
| "creator_step js reg session (Timing metadata) =
     calls now_seconds Gave_up (timed (paths_of reg session) metadata)"
| "creator_step js reg session (Clearing p ps) = calls (remove_if_present p) Gave_up (\<lambda>_. clearing ps)"
| "creator_step js reg session Seeking_socket =
     calls (path_entry_exists (p_socket (paths_of reg session))) Gave_up
       (\<lambda>exists. if exists then Checking else Seeking_lock)"
| "creator_step js reg session Seeking_lock =
     calls (path_entry_exists (p_lock (paths_of reg session))) Gave_up
       (\<lambda>exists. if exists then Checking else Binding)"
| "creator_step js reg session Checking =
     calls (verify_path (p_socket (paths_of reg session)) (uid reg) Socket_path 384)
       (\<lambda>_. unreachable (paths_of reg session)) (\<lambda>_. Connecting)"
| "creator_step js reg session Connecting =
     calls (fs_connect (p_socket (paths_of reg session)))
       (\<lambda>_. unreachable (paths_of reg session)) (connected reg (paths_of reg session))"
| "creator_step js reg session (Verifying p kind entries) =
     calls (verify_path p (uid reg) kind 384)
       (\<lambda>e. if err_kind e = NotFound then verifying entries else Gave_up e) (\<lambda>_. Unlinking p entries)"
| "creator_step js reg session (Unlinking p entries) = calls (fs_remove_file p) Gave_up (\<lambda>_. verifying entries)"
| "creator_step js reg session Binding =
     calls (fs_bind (p_socket (paths_of reg session)))
       (\<lambda>e. if err_kind e = AddrInUse then gave_up_on AlreadyExists else Gave_up e) (\<lambda>_. Permitting)"
| "creator_step js reg session Permitting =
     calls (fs_chmod (p_socket (paths_of reg session)) 384) Closing (\<lambda>_. Unblocking)"
| "creator_step js reg session Unblocking =
     calls (fs_set_nonblocking (p_socket (paths_of reg session))) Closing (\<lambda>_. Locking)"
| "creator_step js reg session Locking =
     calls (fs_create_new (p_lock (paths_of reg session)) 384) Undoing (\<lambda>_. Bound)"
| "creator_step js reg session (Undoing e) =
     calls (fs_remove_file (p_socket (paths_of reg session))) (\<lambda>_. Closing e) (\<lambda>_. Closing e)"
| "creator_step js reg session (Closing e) =
     calls (fs_close_listener (p_socket (paths_of reg session))) (\<lambda>_. Gave_up e) (\<lambda>_. Gave_up e)"
| "creator_step js reg session Bound = Pair Bound"
| "creator_step js reg session (Gave_up e) = Pair (Gave_up e)"

section \<open>A creator that runs alone\<close>

fun creator_rank :: "creator \<Rightarrow> nat" where
  "creator_rank Reading = 23"
| "creator_rank Opening = 22"
| "creator_rank Loading = 21"
| "creator_rank (Timing m) = 20"
| "creator_rank (Clearing p ps) = 7 + length ps"
| "creator_rank Seeking_socket = 18"
| "creator_rank Seeking_lock = 17"
| "creator_rank Checking = 16"
| "creator_rank Connecting = 15"
| "creator_rank (Verifying p kind entries) = 8 + 2 * length entries"
| "creator_rank (Unlinking p entries) = 7 + 2 * length entries"
| "creator_rank Binding = 6"
| "creator_rank Permitting = 5"
| "creator_rank Unblocking = 4"
| "creator_rank Locking = 3"
| "creator_rank (Undoing e) = 2"
| "creator_rank (Closing e) = 1"
| "creator_rank Bound = 0"
| "creator_rank (Gave_up e) = 0"

lemma creator_rank_simps [simp]:
  "creator_rank (clearing ps) = 6 + length ps" "creator_rank (verifying es) = 6 + 2 * length es"
  "creator_rank (unreachable paths) = 14" "creator_rank (gave_up_on kind) = 0"
proof -
  show "creator_rank (clearing ps) = 6 + length ps" by (cases ps) simp_all
  show "creator_rank (verifying es) = 6 + 2 * length es" by (cases es rule: verifying.cases) simp_all
qed (simp_all add: unreachable_def stale_entries_def gave_up_on_def)

lemma creator_rank_next:
  "creator_rank (recorded js session bytes) \<le> 20" "creator_rank (timed paths m now) \<le> 16"
  "creator_rank (connected reg paths l) \<le> 14"
  by (auto simp: recorded_def timed_def connected_def split: option.splits sum.splits session_metadata.splits)

lemma calls_rank:
  "(\<And>e. creator_rank (h e) < n) \<Longrightarrow> (\<And>x. creator_rank (f x) < n) \<Longrightarrow> creator_rank (fst (calls m h f s)) < n"
  by (auto simp: calls_def split: prod.splits sum.splits)

text \<open>Every call brings a creator nearer to its end: it makes 23 calls at most.\<close>

lemma creator_step_rank:
  "\<not> finished c \<Longrightarrow> creator_rank (fst (creator_step js reg session c s)) < creator_rank c"
proof (cases c)
  case (Closing e)
  then show ?thesis by (simp add: calls_def split: prod.splits sum.splits)
qed (auto intro!: calls_rank intro: le_less_trans [OF creator_rank_next(1)]
      le_less_trans [OF creator_rank_next(2)] le_less_trans [OF creator_rank_next(3)])

function run_creator :: "json \<Rightarrow> registry \<Rightarrow> session_id \<Rightarrow> creator \<Rightarrow> (os, unit) io" where
  "run_creator js reg session c s =
     (if finished c then ((case c of Gave_up e \<Rightarrow> Inl e | _ \<Rightarrow> Inr ()), s)
      else run_creator js reg session (fst (creator_step js reg session c s)) (snd (creator_step js reg session c s)))"
  by pat_completeness auto
termination
  by (relation "measure (\<lambda>(js, reg, session, c, s). creator_rank c)") (simp_all add: creator_step_rank case_prod_beta)

declare run_creator.simps [simp del]

lemma run_calls:
  assumes "creator_step js reg session c = calls m h f" and "\<not> finished c"
  shows "run_creator js reg session c =
    io_match m (\<lambda>e. run_creator js reg session (h e)) (\<lambda>x. run_creator js reg session (f x))"
proof
  fix s
  show "run_creator js reg session c s =
    io_match m (\<lambda>e. run_creator js reg session (h e)) (\<lambda>x. run_creator js reg session (f x)) s"
    using assms by (subst run_creator.simps) (auto simp: calls_def io_match_apply split: prod.splits sum.splits)
qed

lemma run_ends:
  "run_creator js reg session Bound = io_ok ()" "run_creator js reg session (Gave_up e) = io_fail e"
  "run_creator js reg session (gave_up_on kind) = io_fail (io_error_new kind)"
  by (simp_all add: fun_eq_iff run_creator.simps gave_up_on_def io_ok_apply io_fail_apply)

lemma run_clearing:
  "run_creator js reg session (clearing (p # ps)) =
   io_try (remove_if_present p) (\<lambda>_. run_creator js reg session (clearing ps))"
  unfolding clearing.simps(2) by (subst run_calls, simp, simp, simp add: run_ends io_try_def)

lemma run_verifying:
  "run_creator js reg session (verifying ((p, kind) # es)) =
   io_try (remove_owned_entry_if_present p (uid reg) kind 384) (\<lambda>_. run_creator js reg session (verifying es))"
proof -
  have "run_creator js reg session (Unlinking p es) =
    io_try (fs_remove_file p) (\<lambda>_. run_creator js reg session (verifying es))"
    by (subst run_calls, simp, simp, simp add: run_ends io_try_def)
  then have "run_creator js reg session (verifying ((p, kind) # es)) = io_match (verify_path p (uid reg) kind 384)
      (\<lambda>e. if err_kind e = NotFound then run_creator js reg session (verifying es) else io_fail e)
      (\<lambda>_. io_try (fs_remove_file p) (\<lambda>_. run_creator js reg session (verifying es)))"
    unfolding verifying.simps(2) by (subst run_calls, simp, simp, simp add: run_ends if_distrib cong: if_cong)
  then show ?thesis
    by (auto simp: fun_eq_iff remove_owned_entry_if_present_def io_simps split: prod.splits sum.splits)
qed

lemma run_Binding: "run_creator js reg session Binding = bind_listener (paths_of reg session)"
proof -
  let ?ps = "paths_of reg session"
  let ?closing = "\<lambda>e. io_ignore (fs_close_listener (p_socket ?ps)) (io_fail e :: (os, unit) io)"
  have c: "run_creator js reg session (Closing e) = ?closing e" for e
    by (subst run_calls, simp, simp, simp add: run_ends io_ignore_def)
  have u: "run_creator js reg session (Undoing e) = io_ignore (fs_remove_file (p_socket ?ps)) (?closing e)" for e
    by (subst run_calls, simp, simp, simp add: c io_ignore_def)
  have l: "run_creator js reg session Locking = io_match (fs_create_new (p_lock ?ps) 384)
      (\<lambda>e. io_ignore (fs_remove_file (p_socket ?ps)) (?closing e)) io_ok"
    by (subst run_calls, simp, simp, simp add: u run_ends)
  have n: "run_creator js reg session Unblocking = io_match (fs_set_nonblocking (p_socket ?ps)) ?closing
      (\<lambda>_. run_creator js reg session Locking)"
    by (subst run_calls, simp, simp, simp add: c)
  have p: "run_creator js reg session Permitting = io_match (fs_chmod (p_socket ?ps) 384) ?closing
      (\<lambda>_. run_creator js reg session Unblocking)"
    by (subst run_calls, simp, simp, simp add: c)
  have "run_creator js reg session Binding = io_match (fs_bind (p_socket ?ps))
      (\<lambda>e. if err_kind e = AddrInUse then io_fail (io_error_new AlreadyExists) else io_fail e)
      (\<lambda>_. run_creator js reg session Permitting)"
    by (subst run_calls, simp, simp, simp add: run_ends if_distrib cong: if_cong)
  then show ?thesis unfolding p n l by (simp add: bind_listener_def Let_def)
qed

lemma io_try_assoc: "io_try (io_try m f) g = io_try m (\<lambda>x. io_try (f x) g)"
  by (auto simp: fun_eq_iff io_simps split: prod.splits sum.splits)

lemma run_cleared:
  "run_creator js reg session (clearing [p_output paths, p_trace paths, p_metadata paths]) =
   io_try (remove_completed paths) (\<lambda>_. bind_listener (paths_of reg session))"
  unfolding run_clearing remove_completed_def io_try_assoc by (simp add: run_Binding)

lemma run_unreachable:
  "run_creator js reg session (unreachable paths) =
   io_try (remove_stale_live reg paths) (\<lambda>_. bind_listener (paths_of reg session))"
  unfolding unreachable_def stale_entries_def run_verifying remove_stale_live_def io_try_assoc by (simp add: run_Binding)

text \<open>The runtime directory is short enough for the path of a socket.\<close>

definition short_paths :: "registry \<Rightarrow> session_id \<Rightarrow> bool" where
  "short_paths reg session \<longleftrightarrow> length (p_socket (paths_of reg session)) \<le> UNIX_SOCKET_PATH_BYTES"

lemma short_registry_paths: "short_paths reg session \<Longrightarrow> registry_paths reg session = io_ok (paths_of reg session)"
  by (simp add: short_paths_def registry_paths_def Let_def)

lemma run_Checking:
  assumes "short_paths reg session"
  shows "run_creator js reg session Checking = io_try (io_match (connect reg session)
      (\<lambda>_. remove_stale_live reg (paths_of reg session)) (\<lambda>_. io_fail (io_error_new AlreadyExists)))
      (\<lambda>_. bind_listener (paths_of reg session))"
proof -
  let ?ps = "paths_of reg session"
  have "run_creator js reg session Connecting = io_match (fs_connect (p_socket ?ps))
      (\<lambda>_. io_try (remove_stale_live reg ?ps) (\<lambda>_. bind_listener ?ps))
      (\<lambda>l. run_creator js reg session (connected reg ?ps l))"
    by (subst run_calls, simp, simp, simp add: run_unreachable)
  then have "run_creator js reg session Checking = io_match (verify_path (p_socket ?ps) (uid reg) Socket_path 384)
      (\<lambda>_. io_try (remove_stale_live reg ?ps) (\<lambda>_. bind_listener ?ps))
      (\<lambda>_. io_match (fs_connect (p_socket ?ps)) (\<lambda>_. io_try (remove_stale_live reg ?ps) (\<lambda>_. bind_listener ?ps))
        (\<lambda>l. run_creator js reg session (connected reg ?ps l)))"
    by (subst run_calls, simp, simp, simp add: run_unreachable)
  moreover have "run_creator js reg session (connected reg ?ps l) = io_try
      (case peer_uid (l_peer l) of Inl e \<Rightarrow> remove_stale_live reg ?ps
       | Inr peer \<Rightarrow> if peer \<noteq> uid reg then remove_stale_live reg ?ps else io_fail (io_error_new AlreadyExists))
      (\<lambda>_. bind_listener ?ps)" for l
    by (auto simp: connected_def run_unreachable run_ends fun_eq_iff io_simps split: sum.splits)
  ultimately show ?thesis
    by (auto simp: fun_eq_iff connect_def short_registry_paths [OF assms] io_simps split: prod.splits sum.splits)
qed

lemma run_Seeking_socket:
  assumes "short_paths reg session"
  shows "run_creator js reg session Seeking_socket =
    io_try (path_entry_exists (p_socket (paths_of reg session))) (\<lambda>socket_exists.
      if socket_exists then run_creator js reg session Checking
      else io_try (path_entry_exists (p_lock (paths_of reg session))) (\<lambda>lock_exists.
        if lock_exists then run_creator js reg session Checking else bind_listener (paths_of reg session)))"
proof -
  let ?ps = "paths_of reg session"
  have "run_creator js reg session Seeking_lock = io_try (path_entry_exists (p_lock ?ps)) (\<lambda>lock_exists.
        if lock_exists then run_creator js reg session Checking else bind_listener ?ps)"
    by (subst run_calls, simp, simp, simp add: run_ends run_Binding io_try_def if_distrib cong: if_cong)
  then show ?thesis
    by (subst run_calls, simp, simp, simp add: run_ends io_try_def if_distrib cong: if_cong)
qed

lemma run_Timing:
  assumes "short_paths reg session"
  shows "run_creator js reg session (Timing m) =
    io_try (io_try now_seconds (\<lambda>now. if is_expired m now then remove_completed (paths_of reg session)
        else (case m of Completed _ \<Rightarrow> io_fail (io_error_new AlreadyExists)
          | Live _ \<Rightarrow> io_match (connect reg session)
              (\<lambda>_. remove_stale_live reg (paths_of reg session)) (\<lambda>_. io_fail (io_error_new AlreadyExists)))))
      (\<lambda>_. bind_listener (paths_of reg session))"
proof -
  let ?ps = "paths_of reg session"
  let ?room = "\<lambda>now. if is_expired m now then remove_completed ?ps
        else (case m of Completed _ \<Rightarrow> io_fail (io_error_new AlreadyExists)
          | Live _ \<Rightarrow> io_match (connect reg session)
              (\<lambda>_. remove_stale_live reg ?ps) (\<lambda>_. io_fail (io_error_new AlreadyExists)))"
  have "run_creator js reg session (timed ?ps m now) = io_try (?room now) (\<lambda>_. bind_listener ?ps)" for now
  proof (cases "is_expired m now")
    case True
    then show ?thesis by (simp only: timed_def run_cleared if_True)
  next
    case False
    then show ?thesis
      by (cases m) (simp_all only: timed_def if_False session_metadata.case run_Checking [OF assms] run_ends,
        simp_all add: fun_eq_iff io_simps)
  qed
  moreover have "run_creator js reg session (Timing m) =
      io_try now_seconds (\<lambda>now. run_creator js reg session (timed ?ps m now))"
    by (subst run_calls, simp, simp, simp add: run_ends io_try_def)
  ultimately show ?thesis by (simp only: io_try_assoc)
qed

lemma run_Reading:
  assumes "short_paths reg session"
  shows "run_creator js reg session Reading =
    io_try (make_room js reg session (paths_of reg session)) (\<lambda>_. bind_listener (paths_of reg session))"
proof -
  let ?ps = "paths_of reg session"
  let ?room = "\<lambda>found. run_creator js reg session (case found of None \<Rightarrow> Seeking_socket | Some m \<Rightarrow> Timing m)"
  have l: "run_creator js reg session Loading = io_try (fs_read_to_end (p_metadata ?ps) (MAX_METADATA_BYTES + 1))
      (\<lambda>bytes. run_creator js reg session (recorded js session bytes))"
    by (subst run_calls, simp, simp, simp add: run_ends io_try_def)
  have o: "run_creator js reg session Opening =
      io_try (fs_open (p_metadata ?ps)) (\<lambda>_. run_creator js reg session Loading)"
    by (subst run_calls, simp, simp, simp add: run_ends io_try_def)
  have "run_creator js reg session Reading = io_match (verify_path (p_metadata ?ps) (uid reg) Regular_path 384)
      (\<lambda>e. if err_kind e = NotFound then run_creator js reg session Seeking_socket else io_fail e)
      (\<lambda>metadata. if MAX_METADATA_BYTES < metadata_len metadata then io_fail invalid
         else run_creator js reg session Opening)"
    by (subst run_calls, simp, simp, simp add: run_ends if_distrib cong: if_cong)
  then have "run_creator js reg session Reading = io_try (read_metadata js reg session) ?room"
    unfolding o l
    by (auto simp: fun_eq_iff read_metadata_def read_bounded_file_def short_registry_paths [OF assms] recorded_def
        run_ends io_simps split: prod.splits sum.splits option.splits)
  moreover have "?room found = io_try (case found of
      Some m \<Rightarrow> io_try now_seconds (\<lambda>now. if is_expired m now then remove_completed ?ps
        else (case m of Completed _ \<Rightarrow> io_fail (io_error_new AlreadyExists)
          | Live _ \<Rightarrow> io_match (connect reg session)
              (\<lambda>_. remove_stale_live reg ?ps) (\<lambda>_. io_fail (io_error_new AlreadyExists))))
    | None \<Rightarrow> io_try (path_entry_exists (p_socket ?ps)) (\<lambda>socket_exists.
        if socket_exists then io_match (connect reg session)
              (\<lambda>_. remove_stale_live reg ?ps) (\<lambda>_. io_fail (io_error_new AlreadyExists))
        else io_try (path_entry_exists (p_lock ?ps)) (\<lambda>lock_exists.
          if lock_exists then io_match (connect reg session)
              (\<lambda>_. remove_stale_live reg ?ps) (\<lambda>_. io_fail (io_error_new AlreadyExists))
          else io_ok ()))) (\<lambda>_. bind_listener ?ps)" for found
  proof (cases found)
    case None
    then show ?thesis
      by (auto simp: run_Seeking_socket [OF assms] run_Checking [OF assms] fun_eq_iff io_simps
          split: prod.splits sum.splits)
  next
    case (Some m)
    then show ?thesis by (simp only: option.case run_Timing [OF assms])
  qed
  ultimately show ?thesis unfolding make_room_def Let_def io_try_assoc by simp
qed

section \<open>Creators that run together\<close>

text \<open>
  Each creator is a process; its umask is the one \<open>start\_runner\<close> sets.  \<open>acts\<close> is one call of one
  of them.  A creator that has bound the session goes on to write its live record, at any time
  and as often as it likes, and time passes.
\<close>

type_synonym race = "(u32 \<times> creator) list \<times> os"

definition as_process :: "u32 \<Rightarrow> os \<Rightarrow> os" where
  "as_process pid s = s\<lparr>os_pid := pid, os_umask := 63\<rparr>"

definition faithful_record :: "json \<Rightarrow> session_id \<Rightarrow> live_session \<Rightarrow> bool" where
  "faithful_record js session m \<longleftrightarrow> metadata_session_id (Live m) = session_to_string session \<and>
     (\<forall>xs. to_vec js (Live m) = Some xs \<longrightarrow> from_slice js xs = Some (Live m))"

inductive race_step :: "json \<Rightarrow> registry \<Rightarrow> session_id \<Rightarrow> race \<Rightarrow> race \<Rightarrow> bool" for js reg session where
  acts: "i < length cs \<Longrightarrow> cs ! i = (pid, c) \<Longrightarrow> creator_step js reg session c (as_process pid s) = (c', s') \<Longrightarrow>
    race_step js reg session (cs, s) (cs[i := (pid, c')], s')"
| records: "(pid, Bound) \<in> set cs \<Longrightarrow> faithful_record js session m \<Longrightarrow>
    write_metadata js (paths_of reg session) (Live m) (as_process pid s) = (r, s') \<Longrightarrow>
    race_step js reg session (cs, s) (cs, s')"
| ticks: "0 \<le> now \<Longrightarrow> race_step js reg session (cs, s) (cs, s\<lparr>clock := now\<rparr>)"

inductive_cases race_stepE: "race_step js reg session c c'"

lemma look_as_process [simp]: "look (as_process pid s) = look s"
  by (simp add: as_process_def look_def fun_eq_iff)

lemma look_clock [simp]: "look (s\<lparr>clock := now\<rparr>) = look s"
  by (simp add: look_def fun_eq_iff)

text \<open>A socket that every process of the user can connect to, and a live record to be trusted.\<close>

definition serving :: "registry \<Rightarrow> session_id \<Rightarrow> os \<Rightarrow> bool" where
  "serving reg session s \<longleftrightarrow> (\<exists>e l. look s (p_socket (paths_of reg session)) = Some e \<and>
     private_entry (uid reg) Socket_path 384 e \<and> e_node e = Socket l \<and> l_refuses l = None \<and>
     peer_uid (l_peer l) = Inr (uid reg))"

definition live_record :: "json \<Rightarrow> registry \<Rightarrow> session_id \<Rightarrow> entry \<Rightarrow> bool" where
  "live_record js reg session e \<longleftrightarrow> private_entry (uid reg) Regular_path 384 e \<and>
     (\<exists>xs m. e_node e = Regular xs \<and> length xs \<le> MAX_METADATA_BYTES \<and> from_slice js xs = Some (Live m) \<and>
        metadata_session_id (Live m) = session_to_string session)"

definition healthy :: "registry \<Rightarrow> os \<Rightarrow> bool" where
  "healthy reg s \<longleftrightarrow> no_faults s \<and> os_uid s = uid reg \<and> 0 \<le> clock s"

lemma healthy_changes [simp]:
  "healthy reg (as_process pid s) = healthy reg s" "healthy reg (set_entry p e s) = healthy reg s"
  by (simp_all add: healthy_def as_process_def set_entry_def no_faults_def)

text \<open>Where a creator can be before the session is bound, and after another has bound it.\<close>

fun early :: "creator \<Rightarrow> bool" where
  "early Reading = True"
| "early Seeking_socket = True"
| "early Seeking_lock = True"
| "early Binding = True"
| "early _ = False"

fun late :: "bool \<Rightarrow> creator \<Rightarrow> bool" where
  "late is_recorded Opening = is_recorded"
| "late is_recorded Loading = is_recorded"
| "late is_recorded (Timing m) = (case m of Live _ \<Rightarrow> True | Completed _ \<Rightarrow> False)"
| "late is_recorded Checking = True"
| "late is_recorded Connecting = True"
| "late is_recorded (Gave_up e) = (err_kind e = AlreadyExists)"
| "late is_recorded c = early c"

fun ahead :: "creator \<Rightarrow> bool" where
  "ahead Permitting = True"
| "ahead Unblocking = True"
| "ahead Locking = True"
| "ahead Bound = True"
| "ahead _ = False"

definition undecided :: "registry \<Rightarrow> session_id \<Rightarrow> race \<Rightarrow> bool" where
  "undecided reg session = (\<lambda>(cs, s).
     look s (p_socket (paths_of reg session)) = None \<and> look s (p_lock (paths_of reg session)) = None \<and>
     look s (p_metadata (paths_of reg session)) = None \<and> (\<forall>x \<in> set cs. early (snd x)))"

definition decided :: "json \<Rightarrow> registry \<Rightarrow> session_id \<Rightarrow> nat \<Rightarrow> race \<Rightarrow> bool" where
  "decided js reg session i = (\<lambda>(cs, s). i < length cs \<and> ahead (snd (cs ! i)) \<and> serving reg session s \<and>
     (look s (p_lock (paths_of reg session)) \<noteq> None \<longleftrightarrow> snd (cs ! i) = Bound) \<and>
     (\<forall>e. look s (p_metadata (paths_of reg session)) = Some e \<longrightarrow> snd (cs ! i) = Bound \<and> live_record js reg session e) \<and>
     (\<forall>j < length cs. j \<noteq> i \<longrightarrow> late (look s (p_metadata (paths_of reg session)) \<noteq> None) (snd (cs ! j))))"

definition race_inv :: "json \<Rightarrow> registry \<Rightarrow> session_id \<Rightarrow> race \<Rightarrow> bool" where
  "race_inv js reg session c \<longleftrightarrow> healthy reg (snd c) \<and> (undecided reg session c \<or> (\<exists>i. decided js reg session i c))"

lemma calls_simps:
  "m s = (Inl e, t) \<Longrightarrow> calls m h f s = (h e, t)" "m s = (Inr x, t) \<Longrightarrow> calls m h f s = (f x, t)"
  by (simp_all add: calls_def)

lemma paths_differ [simp]:
  "p_socket (paths_of reg s) \<noteq> p_lock (paths_of reg s)" "p_lock (paths_of reg s) \<noteq> p_socket (paths_of reg s)"
  "p_socket (paths_of reg s) \<noteq> p_metadata (paths_of reg s)" "p_metadata (paths_of reg s) \<noteq> p_socket (paths_of reg s)"
  "p_lock (paths_of reg s) \<noteq> p_metadata (paths_of reg s)" "p_metadata (paths_of reg s) \<noteq> p_lock (paths_of reg s)"
  using paths_of_distinct [of reg s] by auto

lemma verify_missing:
  "no_faults s \<Longrightarrow> look s p = None \<Longrightarrow> verify_path p u kind mode s = (Inl (io_error_new NotFound), s)"
  by (simp add: verify_path_def fs_lstat_def syscall_def no_faults_def io_simps)

lemma exists_healthy:
  "no_faults s \<Longrightarrow> path_entry_exists p s = (Inr (look s p \<noteq> None), s)"
  by (simp add: path_entry_exists_def fs_lstat_def syscall_def no_faults_def io_simps split: option.splits)

text \<open>Before the session is bound.\<close>

lemma early_step:
  assumes "healthy reg s" and "early c" and "creator_step js reg session c s = (c', s')"
    and "look s (p_socket (paths_of reg session)) = None" and "look s (p_lock (paths_of reg session)) = None"
    and "look s (p_metadata (paths_of reg session)) = None"
  obtains "early c'" "s' = s"
  | "c' = Permitting"
    "s' = set_entry (p_socket (paths_of reg session)) (new_entry (Socket (own_listener s)) 511 s) s"
proof -
  have nf: "no_faults s" using assms(1) by (simp add: healthy_def)
  from assms(2) consider "c = Reading" | "c = Seeking_socket" | "c = Seeking_lock" | "c = Binding"
    by (cases c) simp_all
  then show thesis
  proof cases
    case 1
    with assms(3) verify_missing [OF nf assms(6)] show thesis by (intro that(1)) (auto simp: calls_simps)
  next
    case 2
    with assms(3,4) exists_healthy [OF nf] show thesis by (intro that(1)) (auto simp: calls_def)
  next
    case 3
    with assms(3,5) exists_healthy [OF nf] show thesis by (intro that(1)) (auto simp: calls_def)
  next
    case 4
    with assms(3,4) nf show thesis
      by (intro that(2)) (auto simp: calls_def fs_bind_def syscall_def no_faults_def)
  qed
qed

lemma serving_bound:
  assumes "os_uid s = uid reg" and "os_umask s = 63"
  shows "serving reg session
    (set_entry (p_socket (paths_of reg session)) (new_entry (Socket (own_listener s)) 511 s) s)"
proof -
  have "(511 AND NOT 63 AND 511 :: u32) = 448" by code_simp
  then show ?thesis
    using assms by (simp add: serving_def private_entry_def new_entry_def own_listener_def is_symlink_def is_socket_def)
qed

text \<open>After another creator has bound it.\<close>

lemma late_step:
  assumes "healthy reg s" and "serving reg session s"
    and "\<And>e. look s (p_metadata (paths_of reg session)) = Some e \<Longrightarrow> live_record js reg session e"
    and "late (look s (p_metadata (paths_of reg session)) \<noteq> None) c" and "creator_step js reg session c s = (c', s')"
  shows "s' = s \<and> late (look s (p_metadata (paths_of reg session)) \<noteq> None) c'"
proof -
  let ?ps = "paths_of reg session"
  have nf: "no_faults s" "\<And>c p. faults s c p = None" using assms(1) by (simp_all add: healthy_def no_faults_def)
  obtain e l where sock: "look s (p_socket ?ps) = Some e" "private_entry (uid reg) Socket_path 384 e"
    "e_node e = Socket l" "l_refuses l = None" "peer_uid (l_peer l) = Inr (uid reg)"
    using assms(2) by (auto simp: serving_def)
  have seen: "verify_path (p_metadata ?ps) (uid reg) Regular_path 384 s = (Inr r, s)" "metadata_len r \<le> MAX_METADATA_BYTES"
      "fs_open (p_metadata ?ps) s = (Inr (), s)"
      "\<exists>m. calls (fs_read_to_end (p_metadata ?ps) (MAX_METADATA_BYTES + 1)) Gave_up (recorded js session) s = (Timing (Live m), s)"
    if r: "look s (p_metadata ?ps) = Some r" for r
  proof -
    obtain xs m where m: "private_entry (uid reg) Regular_path 384 r" "e_node r = Regular xs"
      "length xs \<le> MAX_METADATA_BYTES" "from_slice js xs = Some (Live m)"
      "metadata_session_id (Live m) = session_to_string session"
      using assms(3) [OF r] by (auto simp: live_record_def)
    show "verify_path (p_metadata ?ps) (uid reg) Regular_path 384 s = (Inr r, s)"
      using r m(1) nf by (simp add: verify_path_Inr)
    show "metadata_len r \<le> MAX_METADATA_BYTES" using m(2,3) by (simp add: metadata_len_def)
    have f: "follow 41 s (p_metadata ?ps) = Inr r"
      using r m(1) by (intro follow_41_plain) (auto simp: private_entry_def)
    then show "fs_open (p_metadata ?ps) s = (Inr (), s)"
      using nf m(2) by (simp add: fs_open_def syscall_def is_socket_def)
    have "fs_read_to_end (p_metadata ?ps) (MAX_METADATA_BYTES + 1) s = (Inr xs, s)"
      using f nf m(2,3) by (simp add: fs_read_to_end_def syscall_def)
    then show "\<exists>m. calls (fs_read_to_end (p_metadata ?ps) (MAX_METADATA_BYTES + 1)) Gave_up (recorded js session) s = (Timing (Live m), s)"
      using m(3-5) by (simp add: calls_simps recorded_def)
  qed
  from assms(4) consider "c = Reading" | "c = Opening" | "c = Loading" | m where "c = Timing (Live m)"
    | "c = Seeking_socket" | "c = Seeking_lock" | "c = Checking" | "c = Connecting" | "c = Binding"
    | x where "c = Gave_up x" "err_kind x = AlreadyExists"
    by (cases c) (auto split: session_metadata.splits)
  then show ?thesis
  proof cases
    case 1
    show ?thesis
    proof (cases "look s (p_metadata ?ps)")
      case None
      with 1 assms(5) verify_missing [OF nf(1) None] show ?thesis by (auto simp: calls_simps)
    next
      case (Some r)
      with 1 assms(5) seen(1,2) [OF Some] show ?thesis by (auto simp: calls_simps)
    qed
  next
    case 2
    then obtain r where r: "look s (p_metadata ?ps) = Some r" using assms(4) by auto
    with 2 assms(5) seen(3) [OF r] show ?thesis by (auto simp: calls_simps)
  next
    case 3
    then obtain r where r: "look s (p_metadata ?ps) = Some r" using assms(4) by auto
    with 3 assms(5) seen(4) [OF r] show ?thesis by auto
  next
    case (4 m)
    with assms(1,5) show ?thesis by (auto simp: calls_def now_seconds_def timed_def healthy_def)
  next
    case 5
    with assms(5) sock(1) exists_healthy [OF nf(1)] show ?thesis by (auto simp: calls_simps)
  next
    case 6
    with assms(5) exists_healthy [OF nf(1)] show ?thesis by (auto simp: calls_def)
  next
    case 7
    have "verify_path (p_socket ?ps) (uid reg) Socket_path 384 s = (Inr e, s)"
      using sock(1,2) nf by (simp add: verify_path_Inr)
    with 7 assms(5) show ?thesis by (auto simp: calls_simps)
  next
    case 8
    have "fs_connect (p_socket ?ps) s = (Inr l, s)"
      using sock nf by (simp add: fs_connect_def syscall_def)
    with 8 assms(5) sock(5) show ?thesis by (auto simp: calls_simps connected_def gave_up_on_def)
  next
    case 9
    have "fs_bind (p_socket ?ps) s = (Inl (io_error_new AddrInUse), s)"
      using sock nf by (simp add: fs_bind_def syscall_def)
    with 9 assms(5) show ?thesis by (auto simp: calls_simps gave_up_on_def)
  next
    case (10 x)
    with assms(5) show ?thesis by auto
  qed
qed

text \<open>The creator that has bound it.\<close>

lemma ahead_step:
  assumes "healthy reg s" and "os_umask s = 63" and "serving reg session s" and "ahead c"
    and "look s (p_lock (paths_of reg session)) \<noteq> None \<longleftrightarrow> c = Bound" and "creator_step js reg session c s = (c', s')"
  shows "healthy reg s' \<and> serving reg session s' \<and> ahead c' \<and> (c = Bound \<longrightarrow> c' = Bound) \<and>
    (look s' (p_lock (paths_of reg session)) \<noteq> None \<longleftrightarrow> c' = Bound) \<and>
    look s' (p_metadata (paths_of reg session)) = look s (p_metadata (paths_of reg session))"
proof -
  let ?ps = "paths_of reg session"
  have nf: "faults s c p = None" for c p using assms(1) by (simp add: healthy_def no_faults_def)
  obtain e l where sock: "look s (p_socket ?ps) = Some e" "private_entry (uid reg) Socket_path 384 e"
    "e_node e = Socket l" "l_refuses l = None" "peer_uid (l_peer l) = Inr (uid reg)"
    using assms(3) by (auto simp: serving_def)
  from assms(4) consider "c = Permitting" | "c = Unblocking" | "c = Locking" | "c = Bound"
    by (cases c) simp_all
  then show ?thesis
  proof cases
    case 1
    have "fs_chmod (p_socket ?ps) 384 s = (Inr (), set_entry (p_socket ?ps) (e\<lparr>e_mode := 384\<rparr>) s)"
      using sock(1) nf by (simp add: fs_chmod_def syscall_def)
    moreover have "serving reg session (set_entry (p_socket ?ps) (e\<lparr>e_mode := 384\<rparr>) s)"
    proof -
      have "(384 AND 511 :: u32) = 384" by code_simp
      then show ?thesis using sock(2-5) by (simp add: serving_def private_entry_def is_symlink_def is_socket_def)
    qed
    ultimately show ?thesis using 1 assms(1,5,6) by (auto simp: calls_simps)
  next
    case 2
    with assms nf show ?thesis by (auto simp: calls_def fs_set_nonblocking_def syscall_def io_ok_apply)
  next
    case 3
    with assms(5) nf have "fs_create_new (p_lock ?ps) 384 s =
        (Inr (), set_entry (p_lock ?ps) (new_entry (Regular []) 384 s) s)"
      by (auto simp: fs_create_new_def syscall_def)
    with 3 assms(1,6) sock show ?thesis by (auto simp: calls_simps serving_def)
  next
    case 4
    with assms show ?thesis by auto
  qed
qed

lemma early_late: "early c \<Longrightarrow> late b c"
  by (cases c) simp_all

lemma late_recorded: "late b c \<Longrightarrow> late True c"
  by (cases c) simp_all

lemma serving_as_process [simp]: "serving reg session (as_process pid s) = serving reg session s"
  by (simp add: serving_def)

text \<open>A call of a creator.\<close>

lemma undecided_acts:
  assumes "undecided reg session (cs, s)" and "healthy reg s" and "i < length cs" and "cs ! i = (pid, c)"
    and "creator_step js reg session c (as_process pid s) = (c', s')"
  shows "race_inv js reg session (cs[i := (pid, c')], s')"
proof -
  let ?s = "as_process pid s"
  note free = assms(1) [unfolded undecided_def prod.case]
  have c: "early c" using free assms(3,4) by (metis nth_mem snd_conv)
  from assms(2) have h: "healthy reg ?s" by simp
  from early_step [OF h c assms(5)] free consider "early c'" "s' = ?s"
    | "c' = Permitting" "s' = set_entry (p_socket (paths_of reg session)) (new_entry (Socket (own_listener ?s)) 511 ?s) ?s"
    by (metis look_as_process)
  then show ?thesis
  proof cases
    case 1
    have "early (snd x)" if "x \<in> set (cs[i := (pid, c')])" for x
      using that set_update_subset_insert [of cs i "(pid, c')"] free 1(1) by auto
    then have "undecided reg session (cs[i := (pid, c')], s')" using free 1(2) by (simp add: undecided_def)
    then show ?thesis using h 1(2) by (simp add: race_inv_def)
  next
    case 2
    have "serving reg session s'"
      unfolding 2(2) using h by (intro serving_bound) (simp_all add: healthy_def as_process_def)
    moreover have "late b (snd (cs ! j))" if "j < length cs" for j b
      using free nth_mem [OF that] by (intro early_late) blast
    ultimately have "decided js reg session i (cs[i := (pid, c')], s')"
      using free assms(3) 2 by (simp add: decided_def)
    then show ?thesis using h 2(2) by (auto simp: race_inv_def)
  qed
qed

lemma decided_acts:
  assumes "decided js reg session k (cs, s)" and "healthy reg s" and "i < length cs" and "cs ! i = (pid, c)"
    and "creator_step js reg session c (as_process pid s) = (c', s')"
  shows "race_inv js reg session (cs[i := (pid, c')], s')"
proof -
  let ?s = "as_process pid s" and ?ps = "paths_of reg session"
  note taken = assms(1) [unfolded decided_def prod.case]
  from assms(2) have h: "healthy reg ?s" by simp
  show ?thesis
  proof (cases "i = k")
    case True
    with taken assms(4) have k: "ahead c" "serving reg session ?s"
      "look ?s (p_lock ?ps) \<noteq> None \<longleftrightarrow> c = Bound" by simp_all
    have "os_umask ?s = 63" by (simp add: as_process_def)
    from ahead_step [OF h this k(2,1,3) assms(5)]
    have "healthy reg s'" "decided js reg session k (cs[i := (pid, c')], s')"
      using taken True assms(3,4) by (auto simp: decided_def)
    then show ?thesis by (auto simp: race_inv_def)
  next
    case False
    let ?b = "look ?s (p_metadata ?ps) \<noteq> None"
    have "late ?b (snd (cs ! i))" using taken False assms(3) by simp
    then have c: "late ?b c" using assms(4) by simp
    have "s' = ?s \<and> late ?b c'"
      by (rule late_step [OF h _ _ c assms(5)]) (use taken in simp_all)
    moreover have "late ?b (snd (cs[i := (pid, c')] ! j))" if "j < length cs" "j \<noteq> k" for j
      using taken that calculation by (cases "j = i") simp_all
    ultimately have "decided js reg session k (cs[i := (pid, c')], s')"
      using taken False by (auto simp: decided_def)
    then show ?thesis using h \<open>s' = ?s \<and> late ?b c'\<close> by (auto simp: race_inv_def)
  qed
qed

text \<open>The winner writes its record.\<close>

lemma decided_records:
  assumes "decided js reg session k (cs, s)" and "healthy reg s" and "(pid, Bound) \<in> set cs"
    and "session_wf session" and "faithful_record js session m"
    and "write_metadata js (paths_of reg session) (Live m) (as_process pid s) = (r, s')"
  shows "race_inv js reg session (cs, s')"
proof -
  let ?s = "as_process pid s" and ?ps = "paths_of reg session"
  note taken = assms(1) [unfolded decided_def prod.case]
  obtain i where i: "i < length cs" "cs ! i = (pid, Bound)" using assms(3) by (metis in_set_conv_nth)
  then have k: "snd (cs ! k) = Bound" using taken by (cases "i = k") auto
  from assms(6) show ?thesis
  proof (cases rule: write_metadata_cases)
    case 1
    then show ?thesis using assms(1,2) by (auto simp: race_inv_def decided_def)
  next
    case (2 xs)
    note keys = session_key_paths [OF assms(4), of reg]
    have same: "same_process ?s s'" by (rule atomic_write_session(1) [OF keys(1) 2(3)])
    have look: "look s' q = (if q = p_metadata ?ps \<and> is_ok r then Some (own_file ?s xs) else look s q)"
      if "q \<in> session_keys reg" for q
      using atomic_write_session(2) [OF keys(1) 2(3) that] by simp
    have healthy: "healthy reg s'"
      using assms(2) same_process_fields(1,2,5) [OF same] by (simp add: healthy_def no_faults_def as_process_def)
    have "plain_umask ?s" by (simp add: plain_umask_def as_process_def)
    then have new: "live_record js reg session (own_file ?s xs)"
      using own_file_private [of ?s xs] assms(2,5) 2(1,2)
      by (auto simp: live_record_def faithful_record_def healthy_def as_process_def own_file_def new_entry_def)
    have "late (look s' (p_metadata ?ps) \<noteq> None) (snd (cs ! j))" if "j < length cs" "j \<noteq> k" for j
      using taken that look [OF keys(1)] late_recorded by (cases "is_ok r") (auto split: if_splits)
    moreover have "look s' (p_socket ?ps) = look s (p_socket ?ps)" "look s' (p_lock ?ps) = look s (p_lock ?ps)"
      using look keys by simp_all
    moreover have "live_record js reg session e" if "look s' (p_metadata ?ps) = Some e" for e
      using that look [OF keys(1)] new taken by (auto split: if_splits)
    ultimately have "decided js reg session k (cs, s')"
      using taken k by (auto simp: decided_def serving_def)
    with healthy show ?thesis by (auto simp: race_inv_def)
  qed
qed

lemma race_inv_step:
  assumes "race_inv js reg session c" and "race_step js reg session c c'" and "session_wf session"
  shows "race_inv js reg session c'"
  using assms(2)
proof (cases rule: race_step.cases)
  case (acts i cs pid x s x' s')
  then consider "healthy reg s" "undecided reg session (cs, s)" | k where "healthy reg s" "decided js reg session k (cs, s)"
    using assms(1) by (auto simp: race_inv_def)
  then show ?thesis
  proof cases
    case 1
    from undecided_acts [OF 1(2,1) acts(3-5)] acts(2) show ?thesis by simp
  next
    case (2 k)
    from decided_acts [OF 2(2,1) acts(3-5)] acts(2) show ?thesis by simp
  qed
next
  case (records pid cs m s r s')
  have "\<not> undecided reg session (cs, s)" using records(3) by (force simp: undecided_def)
  then obtain k where "healthy reg s" "decided js reg session k (cs, s)"
    using assms(1) records(1) by (auto simp: race_inv_def)
  from decided_records [OF this(2,1) records(3) assms(3) records(4,5)] records(2) show ?thesis by simp
next
  case (ticks now cs s)
  then show ?thesis
    using assms(1) by (auto simp: race_inv_def undecided_def decided_def healthy_def serving_def no_faults_def)
qed

interpretation race: step_system "race_step js reg session" "\<lambda>c. session_wf session \<and> race_inv js reg session c"
  by unfold_locales (use race_inv_step in blast)

lemma serving_connects:
  assumes "serving reg session s" and "no_faults s" and "short_paths reg session"
  shows "\<exists>stream. connect reg session s = (Inr stream, s)"
proof -
  obtain e l where "look s (p_socket (paths_of reg session)) = Some e"
    "private_entry (uid reg) Socket_path 384 e" "e_node e = Socket l" "l_refuses l = None"
    "peer_uid (l_peer l) = Inr (uid reg)"
    using assms(1) by (auto simp: serving_def)
  moreover have "registry_paths reg session s = (Inr (paths_of reg session), s)"
    using short_registry_paths [OF assms(3)] by (simp add: io_ok_apply)
  ultimately have "connect reg session s = (Inr (l_stream l), s)"
    using assms(2) by (intro connect_intro [OF _ _ refl]) simp_all
  then show ?thesis ..
qed

section \<open>Schedules\<close>

text \<open>The creators of a schedule, one call each time they are named.\<close>

fun schedule :: "json \<Rightarrow> registry \<Rightarrow> session_id \<Rightarrow> nat list \<Rightarrow> race \<Rightarrow> race" where
  "schedule js reg session [] c = c"
| "schedule js reg session (i # turns) (cs, s) =
     (case creator_step js reg session (snd (cs ! i)) (as_process (fst (cs ! i)) s) of
        (c, t) \<Rightarrow> schedule js reg session turns (cs[i := (fst (cs ! i), c)], t))"

lemma schedule_steps:
  "\<forall>i \<in> set turns. i < length cs \<Longrightarrow> (race_step js reg session)\<^sup>*\<^sup>* (cs, s) (schedule js reg session turns (cs, s))"
proof (induction turns arbitrary: cs s)
  case (Cons i turns)
  obtain c t where c: "creator_step js reg session (snd (cs ! i)) (as_process (fst (cs ! i)) s) = (c, t)" by fastforce
  then have "race_step js reg session (cs, s) (cs[i := (fst (cs ! i), c)], t)"
    using Cons.prems by (intro race_step.acts [of i cs "fst (cs ! i)" "snd (cs ! i)"]) simp_all
  moreover have "(race_step js reg session)\<^sup>*\<^sup>* (cs[i := (fst (cs ! i), c)], t)
      (schedule js reg session turns (cs[i := (fst (cs ! i), c)], t))"
    using Cons.prems by (intro Cons.IH) simp
  ultimately show ?case using c by (simp add: converse_rtranclp_into_rtranclp)
qed simp

text \<open>What the calls do on given files.\<close>

lemmas call_defs = calls_def fs_lstat_def path_entry_exists_def fs_bind_def fs_chmod_def
  fs_set_nonblocking_def fs_create_new_def fs_remove_file_def fs_connect_def syscall_def io_simps
  own_listener_def is_dir_def connected_def gave_up_on_def

lemma verified:
  "faults s Sys_lstat p = None \<Longrightarrow> look s p = Some e \<Longrightarrow> private_entry u kind mode e \<Longrightarrow>
   verify_path p u kind mode s = (Inr e, s)"
  "faults s Sys_lstat p = None \<Longrightarrow> look s p = None \<Longrightarrow>
   verify_path p u kind mode s = (Inl (io_error_new NotFound), s)"
  by (simp add: verify_path_Inr) (simp add: verify_path_def fs_lstat_def syscall_def io_simps)

lemma process_fields [simp]:
  "faults (as_process pid s) = faults s" "faults (set_entry p e s) = faults s" "faults (del_entry p s) = faults s"
  "os_uid (as_process pid s) = os_uid s" "os_uid (set_entry p e s) = os_uid s" "os_uid (del_entry p s) = os_uid s"
  "os_umask (as_process pid s) = 63"
  by (simp_all add: as_process_def set_entry_def del_entry_def)

lemma new_entries [simp]:
  "e_node (new_entry n mode s) = n"
  "os_umask s = 63 \<Longrightarrow> private_entry u Socket_path 384 (new_entry (Socket l) 511 s) = (os_uid s = u)"
  "private_entry u Socket_path 384 (new_entry (Socket l) 511 s\<lparr>e_mode := 384\<rparr>) = (os_uid s = u)"
  "os_umask s = 63 \<Longrightarrow> private_entry u Regular_path 384 (new_entry (Regular xs) 384 s) = (os_uid s = u)"
proof -
  have "(511 AND NOT 63 AND 511 :: u32) = 448" "(384 AND NOT 63 AND 511 :: u32) = 384" "(384 AND 511 :: u32) = 384"
    by code_simp+
  then show "os_umask s = 63 \<Longrightarrow> private_entry u Socket_path 384 (new_entry (Socket l) 511 s) = (os_uid s = u)"
    "private_entry u Socket_path 384 (new_entry (Socket l) 511 s\<lparr>e_mode := 384\<rparr>) = (os_uid s = u)"
    "os_umask s = 63 \<Longrightarrow> private_entry u Regular_path 384 (new_entry (Regular xs) 384 s) = (os_uid s = u)"
    by (simp_all add: private_entry_def new_entry_def is_symlink_def is_socket_def is_file_def)
qed (simp add: new_entry_def)

text \<open>Two creators that take turns: the second finds the socket the first has bound.\<close>

definition taking_turns :: "nat list" where
  "taking_turns = [0, 1, 0, 1, 0, 1, 0, 1, 0, 0, 0]"

lemma turns_taken:
  assumes "no_faults s" and "os_uid s = uid reg" and "look s (p_socket (paths_of reg session)) = None"
    and "look s (p_lock (paths_of reg session)) = None" and "look s (p_metadata (paths_of reg session)) = None"
  shows "map snd (fst (schedule js reg session taking_turns ([(p, Reading), (q, Reading)], s))) =
    [Bound, gave_up_on AlreadyExists]"
  using assms by (simp add: taking_turns_def call_defs verified no_faults_def)

text \<open>
  A socket that a runner has left behind without a record is where creators do not converge:
  both find that it cannot be reached, and one removes what the other has bound meanwhile.
\<close>

definition crossing_turns :: "nat list" where
  "crossing_turns = [0, 0, 0, 0, 1, 1, 1, 1] @ [0, 0, 0, 0, 0, 0, 0, 0, 0] @ [1, 1, 1, 1, 1, 1, 1, 1, 1, 1]"

lemma creators_of_an_orphan_can_both_bind:
  assumes "no_faults s" and "os_uid s = uid reg" and "look s (p_socket (paths_of reg session)) = Some e"
    and "private_entry (uid reg) Socket_path 384 e" and "e_node e = Socket l" and "l_refuses l = Some x"
    and "look s (p_lock (paths_of reg session)) = None" and "look s (p_trace (paths_of reg session)) = None"
    and "look s (p_metadata (paths_of reg session)) = None"
  shows "\<exists>cs t. (race_step js reg session)\<^sup>*\<^sup>* ([(p, Reading), (q, Reading)], s) (cs, t) \<and> map snd cs = [Bound, Bound]"
proof -
  have trace: "p_trace (paths_of reg session) \<notin> {p_socket (paths_of reg session), p_lock (paths_of reg session)}"
    using paths_of_distinct [of reg session] by auto
  have "map snd (fst (schedule js reg session crossing_turns ([(p, Reading), (q, Reading)], s))) = [Bound, Bound]"
    using assms trace
    by (simp add: crossing_turns_def call_defs verified no_faults_def unreachable_def stale_entries_def)
  moreover have "(race_step js reg session)\<^sup>*\<^sup>* ([(p, Reading), (q, Reading)], s)
      (schedule js reg session crossing_turns ([(p, Reading), (q, Reading)], s))"
    by (rule schedule_steps) (simp add: crossing_turns_def)
  ultimately show ?thesis by (metis prod.collapse)
qed

section \<open>Properties\<close>



lemma sample_short: "short_paths sample_registry sample_session"
proof -
  have "registry_paths sample_registry sample_session sample_os = (Inr sample_paths, sample_os)" by (rule sample_paths_ok)
  then show ?thesis by (simp add: short_paths_def registry_paths_def io_simps Let_def split: if_splits)
qed



end
