(* ===== verification/Spec2Isabelle.thy ===== *)
theory Spec2Isabelle
  imports App_Facts Session_Stream Session_Refinement Session_Input Session_Retention Registry_Race Runner_Start
begin

text \<open>
  A model of afk-cli, the program that keeps a terminal session alive when the SSH connection
  in front of it goes away, and the theorems that make it correct.

  \<^bold>\<open>The program.\<close>  \<open>afk session ID\<close> runs as a short-lived \<^emph>\<open>attachment\<close> (src/attach.rs) that
  relays a terminal to a long-lived \<^emph>\<open>runner\<close> (src/runner.rs) over an owner-only Unix socket.
  The runner owns the pseudo-terminal and the managed process, keeps the last 256 KiB of its
  output (src/output_tail.rs), replays it to whoever attaches, and at the end leaves the
  output and a completed record in the runtime directory (src/registry.rs).  The two
  exchange records (src/ipc.rs) through bounded queues (src/byte_queue.rs).  A new runner gets
  its configuration over a socket pair from the attachment that launches it (the startup
  protocol of src/runner.rs).  src/session.rs decides whether to attach or to start;
  src/cli.rs, src/lib.rs and src/main.rs parse the command line and turn results into exit
  codes and diagnostics; src/trace.rs writes the optional diagnostics file.

  \<^bold>\<open>Foundations.\<close>
  \<^item> \<open>Prelude\<close>: machine integers at their width (\<open>u8\<close> to \<open>u64\<close> as words), big-endian bytes,
    slices.  \<open>usize\<close> counts are \<open>nat\<close>; where the code adds or subtracts them, the checked or
    saturating operation it uses is written out.
  \<^item> \<open>Std_Io\<close>: \<open>io::Error\<close>, \<open>io::Result\<close> and the \<open>?\<close> operator (\<open>io_try\<close>), writers and readers
    with the responses their environment gives (short writes, errors, data in pieces),
    \<open>write_all\<close>, \<open>read_exact\<close>, \<open>VecDeque\<close>.
  \<^item> \<open>Os_Model\<close>: the file system, sockets, clock and identity of a process, with an error for any
    system call on any path (\<open>faults\<close>).  Symbolic links are followed up to 40 times, so \<open>follow\<close>
    gets 41 steps, one more than the chain the kernel accepts.
  \<^item> \<open>Step_System\<close>: an invariant kept by every step holds in every reachable state;
    \<open>Simulation\<close>: steps that each correspond to a run of abstract events do so together.

  \<^bold>\<open>Components,\<close> a theory or a few each, in the order the code has them:
  \<^item> \<open>Limits\<close> (src/limits.rs); \<open>Identity\<close> (src/identity.rs); \<open>Byte_Queue\<close>; \<open>Output_Tail\<close>; \<open>Ipc\<close>;
    \<open>Cli\<close>; \<open>Trace_Log\<close> (src/trace.rs); \<open>Platform_Unix\<close> (src/platform/unix.rs): the file each is
    named after, one definition per function.
  \<^item> \<open>Registry\<close> has the operations of src/registry.rs; \<open>Registry_Laws\<close>, \<open>Registry_Store\<close> and
    \<open>Registry_Sessions\<close> show what they promise: files of different sessions never collide,
    replacing a file is all or nothing under every error, only entries private to the user
    are read or connected to, a session that can be reached is never replaced, and only
    expired records are cleaned up.  \<open>Registry_Spec\<close> is the registry without paths, modes and
    renames, a store of records and outputs; \<open>Registry_Refinement\<close> shows that every sequence of
    operations is a run of it, so a completed session is kept for its day.  \<open>Registry_Race\<close> has
    \<open>bind_session\<close> one system call at a time (\<open>creator_step\<close>), shows that a creator alone does what
    \<open>bind_session\<close> does, and that the calls of any number of creators, however interleaved, leave
    one that has bound the session and others that find it.  \<open>ensure_private_directory\<close> recurses at most 16 times
    (\<open>ATTEMPTS\<close>): it retries only when the directory appears between its two calls.
  \<^item> \<open>Child_Process\<close>: \<open>try_wait\<close>, \<open>stop_child\<close> and its grace loop over a process that is given by
    when it ends by itself and after each signal.  Time is milliseconds as \<open>nat\<close>.
  \<^item> \<open>Runner\<close>: the state of \<open>run_event_loop\<close> as the record \<open>runner\<close>, one definition per stage of
    the loop, \<open>runner_tick\<close> composing them in source order, \<open>run_event_loop\<close> over the list of
    answers that \<open>poll\<close> gives.  An outcome is \<open>Again\<close> (still running), \<open>Returns\<close> or \<open>Never\<close> (a
    \<open>wait\<close> that does not end).  \<open>Runner_Facts\<close>, \<open>Runner_Stream\<close>, \<open>Runner_Record\<close> and
    \<open>Runner_End\<close> hold its invariants: ring and client against everything the terminal has
    delivered, the metadata on disk against the attachment, the completed record and the
    exit record at the end, and that a session whose process has ended completes.
    \<open>Runner_Steps\<close> states what the stages of a tick must do for a relation between runners to
    hold over the loop (the locale \<open>runner_relation\<close>).  \<open>Runner_Input\<close> accounts for every byte
    the process is given by the records of the clients that sent it.  \<open>Session_Spec\<close> is the
    session as an abstract machine of five events, and \<open>Session_Refinement\<close> shows that the
    loop refines it.
  \<^item> \<open>Startup\<close> and \<open>Runner_Start\<close>: the startup protocol, and the launch of a runner up to its
    loop on both sides; a start establishes what the invariants of the loop assume.
  \<^item> \<open>Attach\<close>: the state of \<open>attach_live\<close> as the record \<open>attachment\<close> (with the terminal and the
    input thread with its channel), one definition per stage, \<open>attach_tick\<close> composing them,
    \<open>attach_loop\<close> over what the environment decides at each pass.  \<open>Attach_Facts\<close> states the
    contract of the stages as the locale \<open>attachment_stages\<close>; its interpretations are the three
    invariants: what is shown (\<open>display\<close>) and how the terminal is restored (\<open>terminal\<close>) in
    \<open>Attach_Stream\<close>, what is sent (\<open>input\<close>) in \<open>Attach_Input\<close>.
  \<^item> \<open>Client\<close>: \<open>attach\<close> and \<open>stop\<close> of src/attach.rs and the operations of src/session.rs;
    \<open>Client_Facts\<close>: replay of completed sessions, when a runner may be started, stopping.
  \<^item> \<open>App\<close> and \<open>App_Facts\<close>: dispatch, diagnostics and exit codes.
  \<^item> \<open>Session_Stream\<close> and \<open>Session_Input\<close>: runner and attachment together, from the
    pseudo-terminal to the terminal of the user, and from the keyboard to the process.
    \<open>Session_Retention\<close>: runner, registry and attachment together, from the end of a session
    through a day of registry operations to its replay.

  \<^bold>\<open>Interfaces.\<close>  \<open>text_codec\<close> (identifiers as text), \<open>bounded_queue\<close>, \<open>bounded_tail\<close>,
  \<open>framed_stream\<close> (self-delimiting frames in a byte stream), \<open>atomic_store\<close> (replacing session
  files), \<open>step_system\<close>, \<open>event_runs\<close> and \<open>simulation\<close>, \<open>runner_relation\<close> and
  \<open>attachment_stages\<close> are locales; each is interpreted on the
  definitions of the component that provides it, and the properties rest on the facts of
  those interpretations.

  \<^bold>\<open>Environment.\<close>  What the program does not decide is data that the theorems quantify over:
  the responses of every reader, writer and system call, the order in which clients
  connect, the answers of \<open>poll\<close>, signals, the progress of the input thread, window sizes,
  the clock, when the managed process ends.  Lists of answers are finite, so a run is a
  finite prefix of a behaviour; the theorems hold for every length.  Code outside the
  repository enters as parameters: serde_json as the record \<open>json\<close> (its two directions; a
  theorem that needs them to be inverse says so), \<open>openpty\<close>, \<open>make_raw\<close>, \<open>dup\<close>, \<open>spawn\<close>,
  \<open>setsid\<close>, \<open>exec\<close> and the registration of signal handlers by their results.

  \<^bold>\<open>Not modelled, and why.\<close>  The calls of rustix that src/platform/unix.rs wraps: what they
  answer (among it the credentials of a peer, from which \<open>peer_uid\<close> takes the user) is data.
  The numeric values of poll intervals and socket timeouts: the environment decides when a
  call returns.  The texts of errors: the program never prints them.  Unregistering
  signal handlers: no state here depends on it.  The branch of src/lib.rs for platforms
  other than Linux and macOS.  Processes acting on the runtime directory between two system
  calls of one operation, but for the creation of a session: any other operation runs on the
  files as they are when it starts, with any of its calls failing.
\<close>

end
